(* ===== verification/Prelude.thy ===== *)
theory Prelude
  imports Main "HOL-Library.Product_Lexorder"
begin

text \<open>
  Shared vocabulary of the development: Rust panics as values, the part of \<open>Vec\<close>, \<open>slice\<close>,
  \<open>Ordering\<close> and \<open>Bound\<close> that the crate uses, keys of elements, and the generic lemmas on
  strictly sorted lists that the component theories are built on.

  An element type \<open>T: Ord\<close> of the source is a HOL type \<open>'a\<close> with a projection \<open>k :: 'a \<Rightarrow> 'k\<close>
  into a linear order: \<open>x.cmp(y)\<close> is the comparison of \<open>k x\<close> and \<open>k y\<close>. A plain set has
  \<open>k = id\<close>; a map entry \<open>Pair\<close> compares its key only. A borrowed view \<open>T: Borrow<Q>\<close> is
  a second projection \<open>b :: 'a \<Rightarrow> 'q\<close>.
\<close>

section \<open>Panics as values\<close>

datatype panic =
    IndexOutOfBounds
  | SliceOutOfRange
  | SubtractOverflow
  | AddOverflow
  | UnwrapNone
  | DebugAssertFailed
  | ForeignPanic
  | StackOverflow

type_synonym 'a res = "panic + 'a"

definition rbind :: "'a res \<Rightarrow> ('a \<Rightarrow> 'b res) \<Rightarrow> 'b res" where
  "rbind m f = (case m of Inl e \<Rightarrow> Inl e | Inr x \<Rightarrow> f x)"

lemma rbind_Inr [simp]: "rbind (Inr x) f = f x"
  by (simp add: rbind_def)

lemma rbind_Inl [simp]: "rbind (Inl e) f = Inl e"
  by (simp add: rbind_def)

lemma rbind_eq_Inr: "rbind m f = Inr y \<longleftrightarrow> (\<exists>x. m = Inr x \<and> f x = Inr y)"
  by (cases m) auto

lemma rbind_assoc: "rbind (rbind m f) g = rbind m (\<lambda>x. rbind (f x) g)"
  by (cases m) auto

lemma rbind_cong [fundef_cong]:
  "m = m' \<Longrightarrow> (\<And>x. m' = Inr x \<Longrightarrow> f x = f' x) \<Longrightarrow> rbind m f = rbind m' f'"
  by (cases m') auto

text \<open>What holds of the result when a computation does not panic; \<open>wp\<close> collects the rules.\<close>

named_theorems wp

definition on_ok :: "('x \<Rightarrow> bool) \<Rightarrow> 'x res \<Rightarrow> bool" where
  "on_ok Q m \<longleftrightarrow> (\<forall>x. m = Inr x \<longrightarrow> Q x)"

lemma on_ok_simps [wp]:
  "on_ok Q (Inr x) \<longleftrightarrow> Q x" "on_ok Q (Inl e)" "on_ok Q (rbind m f) \<longleftrightarrow> (\<forall>x. m = Inr x \<longrightarrow> on_ok Q (f x))"
  by (auto simp: on_ok_def rbind_eq_Inr)

lemma on_okD: "on_ok Q m \<Longrightarrow> m = Inr x \<Longrightarrow> Q x"
  by (simp add: on_ok_def)

definition unwrap :: "'a option \<Rightarrow> 'a res" where
  "unwrap x = (case x of None \<Rightarrow> Inl UnwrapNone | Some y \<Rightarrow> Inr y)"

lemma unwrap_simps [simp]: "unwrap (Some y) = Inr y" "unwrap None = Inl UnwrapNone"
  by (simp_all add: unwrap_def)

text \<open>Subtraction on \<open>usize\<close>: a panic below zero; \<open>saturating_sub\<close> is \<open>-\<close> on \<open>nat\<close>.\<close>

definition usize_sub :: "nat \<Rightarrow> nat \<Rightarrow> nat res" where
  "usize_sub a b = (if b \<le> a then Inr (a - b) else Inl SubtractOverflow)"

definition checked_sub :: "nat \<Rightarrow> nat \<Rightarrow> nat option" where
  "checked_sub a b = (if b \<le> a then Some (a - b) else None)"

lemma usize_sub_simps [simp]:
  "b \<le> a \<Longrightarrow> usize_sub a b = Inr (a - b)" "a < b \<Longrightarrow> usize_sub a b = Inl SubtractOverflow"
  by (simp_all add: usize_sub_def)

section \<open>Vectors and slices\<close>

definition vec_get :: "'a list \<Rightarrow> nat \<Rightarrow> 'a option" where
  "vec_get xs i = (if i < length xs then Some (xs ! i) else None)"

definition vec_index :: "'a list \<Rightarrow> nat \<Rightarrow> 'a res" where
  "vec_index xs i = (if i < length xs then Inr (xs ! i) else Inl IndexOutOfBounds)"

definition vec_first :: "'a list \<Rightarrow> 'a option" where
  "vec_first xs = (case xs of [] \<Rightarrow> None | x # _ \<Rightarrow> Some x)"

definition vec_last :: "'a list \<Rightarrow> 'a option" where
  "vec_last xs = (if xs = [] then None else Some (last xs))"

definition vec_insert :: "'a list \<Rightarrow> nat \<Rightarrow> 'a \<Rightarrow> 'a list res" where
  "vec_insert xs i v =
     (if i \<le> length xs then Inr (take i xs @ v # drop i xs) else Inl IndexOutOfBounds)"

definition vec_remove :: "'a list \<Rightarrow> nat \<Rightarrow> ('a \<times> 'a list) res" where
  "vec_remove xs i =
     (if i < length xs then Inr (xs ! i, take i xs @ drop (Suc i) xs) else Inl IndexOutOfBounds)"

definition vec_split_off :: "'a list \<Rightarrow> nat \<Rightarrow> ('a list \<times> 'a list) res" where
  "vec_split_off xs i =
     (if i \<le> length xs then Inr (take i xs, drop i xs) else Inl SliceOutOfRange)"

text \<open>
  \<open>slice::partition_point\<close> is specified for slices on which the predicate holds on a prefix
  only; the position of the first element that fails it.
\<close>

definition partition_point :: "('a \<Rightarrow> bool) \<Rightarrow> 'a list \<Rightarrow> nat" where
  "partition_point p xs = length (takeWhile p xs)"

lemma vec_get_simps [simp]:
  "i < length xs \<Longrightarrow> vec_get xs i = Some (xs ! i)" "length xs \<le> i \<Longrightarrow> vec_get xs i = None"
  by (simp_all add: vec_get_def)

lemma vec_index_simps [simp]:
  "i < length xs \<Longrightarrow> vec_index xs i = Inr (xs ! i)"
  "length xs \<le> i \<Longrightarrow> vec_index xs i = Inl IndexOutOfBounds"
  by (simp_all add: vec_index_def)

lemma vec_ends_simps [simp]:
  "vec_first [] = None" "vec_first (x # xs) = Some x"
  "vec_last [] = None" "xs \<noteq> [] \<Longrightarrow> vec_last xs = Some (last xs)"
  by (simp_all add: vec_first_def vec_last_def)

lemma vec_insert_simps [simp]:
  "i \<le> length xs \<Longrightarrow> vec_insert xs i v = Inr (take i xs @ v # drop i xs)"
  by (simp add: vec_insert_def)

lemma vec_remove_simps [simp]:
  "i < length xs \<Longrightarrow> vec_remove xs i = Inr (xs ! i, take i xs @ drop (Suc i) xs)"
  "length xs \<le> i \<Longrightarrow> vec_remove xs i = Inl IndexOutOfBounds"
  by (simp_all add: vec_remove_def)

lemma vec_split_off_simps [simp]:
  "i \<le> length xs \<Longrightarrow> vec_split_off xs i = Inr (take i xs, drop i xs)"
  by (simp add: vec_split_off_def)

lemma partition_point_le [simp]: "partition_point p xs \<le> length xs"
  by (simp add: partition_point_def length_takeWhile_le)

lemma partition_point_Nil [simp]: "partition_point p [] = 0"
  by (simp add: partition_point_def)

lemma partition_point_all: "partition_point p xs = length xs \<longleftrightarrow> (\<forall>x\<in>set xs. p x)"
  by (induction xs) (auto simp: partition_point_def)

lemma take_partition_point: "take (partition_point p xs) xs = takeWhile p xs"
  by (simp add: partition_point_def takeWhile_eq_take [symmetric])

lemma drop_partition_point: "drop (partition_point p xs) xs = dropWhile p xs"
  by (simp add: partition_point_def dropWhile_eq_drop [symmetric])

lemma partition_point_nth: "i < partition_point p xs \<Longrightarrow> p (xs ! i)"
  by (metis partition_point_def nth_mem set_takeWhileD takeWhile_nth)

lemma partition_point_stop: "partition_point p xs < length xs \<Longrightarrow> \<not> p (xs ! partition_point p xs)"
  by (simp add: partition_point_def nth_length_takeWhile)

section \<open>Orderings, comparators and keys\<close>

text \<open>\<open>core::cmp::Ordering\<close>, itself ordered \<open>Less < Equal < Greater\<close>.\<close>

datatype ordering = Less | Equal | Greater

fun ordering_rank :: "ordering \<Rightarrow> nat" where
  "ordering_rank Less = 0"
| "ordering_rank Equal = 1"
| "ordering_rank Greater = 2"

instantiation ordering :: linorder
begin

definition less_eq_ordering :: "ordering \<Rightarrow> ordering \<Rightarrow> bool" where
  "less_eq_ordering a b \<longleftrightarrow> ordering_rank a \<le> ordering_rank b"

definition less_ordering :: "ordering \<Rightarrow> ordering \<Rightarrow> bool" where
  "less_ordering a b \<longleftrightarrow> ordering_rank a < ordering_rank b"

instance
proof
  fix a b c :: ordering
  show "a < b \<longleftrightarrow> a \<le> b \<and> \<not> b \<le> a"
    by (auto simp: less_eq_ordering_def less_ordering_def)
  show "a \<le> a"
    by (simp add: less_eq_ordering_def)
  show "a \<le> b \<Longrightarrow> b \<le> c \<Longrightarrow> a \<le> c"
    by (simp add: less_eq_ordering_def)
  show "a \<le> b \<Longrightarrow> b \<le> a \<Longrightarrow> a = b"
    by (cases a; cases b) (simp_all add: less_eq_ordering_def)
  show "a \<le> b \<or> b \<le> a"
    by (auto simp: less_eq_ordering_def)
qed

end

definition is_lt :: "ordering \<Rightarrow> bool" where
  "is_lt r \<longleftrightarrow> r = Less"

definition is_le :: "ordering \<Rightarrow> bool" where
  "is_le r \<longleftrightarrow> r \<noteq> Greater"

definition is_eq :: "ordering \<Rightarrow> bool" where
  "is_eq r \<longleftrightarrow> r = Equal"

definition compare :: "'k::linorder \<Rightarrow> 'k \<Rightarrow> ordering" where
  "compare a b = (if a < b then Less else if a = b then Equal else Greater)"

definition cmp_by :: "('a \<Rightarrow> 'k::linorder) \<Rightarrow> 'k \<Rightarrow> 'a \<Rightarrow> ordering" where
  "cmp_by b q x = compare (b x) q"

lemma cmp_by_iffs [simp]:
  "cmp_by b q x = Less \<longleftrightarrow> b x < q"
  "cmp_by b q x = Equal \<longleftrightarrow> b x = q"
  "cmp_by b q x = Greater \<longleftrightarrow> q < b x"
  "is_lt (cmp_by b q x) \<longleftrightarrow> b x < q"
  "is_le (cmp_by b q x) \<longleftrightarrow> b x \<le> q"
  "is_eq (cmp_by b q x) \<longleftrightarrow> b x = q"
  by (auto simp: cmp_by_def compare_def is_lt_def is_le_def is_eq_def)

datatype 'q bound = Included 'q | Excluded 'q | Unbounded

datatype ('o, 'e) rust_result = Ok 'o | Err 'e

text \<open>
  The order of a collection: strictly increasing keys. The borrowed view agrees with it when
  both give the same comparisons (\<open>Borrow\<close>'s contract), or only refines to it weakly (an entry
  borrowed as its leading key).
\<close>

definition sorted_keys :: "('a \<Rightarrow> 'k::linorder) \<Rightarrow> 'a list \<Rightarrow> bool" where
  "sorted_keys k xs \<longleftrightarrow> sorted_wrt (<) (map k xs)"

definition borrow_ok :: "('a \<Rightarrow> 'k::linorder) \<Rightarrow> ('a \<Rightarrow> 'q::linorder) \<Rightarrow> bool" where
  "borrow_ok k b \<longleftrightarrow> (\<forall>x y. k x < k y \<longleftrightarrow> b x < b y)"

definition borrow_mono :: "('a \<Rightarrow> 'k::linorder) \<Rightarrow> ('a \<Rightarrow> 'q::linorder) \<Rightarrow> bool" where
  "borrow_mono k b \<longleftrightarrow> (\<forall>x y. k x < k y \<longrightarrow> b x \<le> b y)"

lemma borrow_ok_refl [simp]: "borrow_ok k k"
  by (simp add: borrow_ok_def)

lemma borrow_ok_eq: "borrow_ok k b \<Longrightarrow> k x = k y \<longleftrightarrow> b x = b y"
  by (metis borrow_ok_def linorder_neq_iff)

lemma borrow_ok_mono: "borrow_ok k b \<Longrightarrow> borrow_mono k b"
  by (auto simp: borrow_ok_def borrow_mono_def)

lemma sorted_keys_simps [simp]:
  "sorted_keys k []"
  "sorted_keys k (x # xs) \<longleftrightarrow> (\<forall>y\<in>set xs. k x < k y) \<and> sorted_keys k xs"
  by (simp_all add: sorted_keys_def)

lemma sorted_keys_append [simp]:
  "sorted_keys k (xs @ ys) \<longleftrightarrow>
     sorted_keys k xs \<and> sorted_keys k ys \<and> (\<forall>x\<in>set xs. \<forall>y\<in>set ys. k x < k y)"
  by (auto simp: sorted_keys_def sorted_wrt_append)

lemma sorted_keys_borrow: "borrow_ok k b \<Longrightarrow> sorted_keys k xs \<Longrightarrow> sorted_keys b xs"
  by (induction xs) (auto simp: borrow_ok_def)

lemma sorted_keys_mono: "borrow_mono k b \<Longrightarrow> sorted_keys k xs \<Longrightarrow> sorted (map b xs)"
  by (induction xs) (auto simp: borrow_mono_def)

lemma sorted_keys_sorted: "sorted_keys k xs \<Longrightarrow> sorted (map k xs)"
  by (simp add: sorted_keys_def strict_sorted_imp_sorted)

lemma sorted_keys_distinct: "sorted_keys k xs \<Longrightarrow> distinct (map k xs)"
  by (simp add: sorted_keys_def strict_sorted_iff)

lemma sorted_keys_nth_less:
  "sorted_keys k xs \<Longrightarrow> i < j \<Longrightarrow> j < length xs \<Longrightarrow> k (xs ! i) < k (xs ! j)"
  by (auto simp: sorted_keys_def sorted_wrt_iff_nth_less)

lemma sorted_keys_inj:
  "sorted_keys k xs \<Longrightarrow> x \<in> set xs \<Longrightarrow> y \<in> set xs \<Longrightarrow> k x = k y \<Longrightarrow> x = y"
  using sorted_keys_distinct [of k xs] by (auto simp: distinct_map dest: inj_onD)

lemma sorted_keys_ends:
  assumes "sorted_keys k xs" and "x \<in> set xs"
  shows "k x \<le> k (last xs)" and "k (hd xs) \<le> k x"
proof -
  show "k x \<le> k (last xs)"
    using assms by (cases xs rule: rev_cases) (auto intro: less_imp_le)
  show "k (hd xs) \<le> k x"
    using assms by (cases xs) (auto intro: less_imp_le)
qed

lemma sorted_keys_take: "sorted_keys k xs \<Longrightarrow> sorted_keys k (take n xs)"
  by (metis append_take_drop_id sorted_keys_append)

lemma sorted_keys_drop: "sorted_keys k xs \<Longrightarrow> sorted_keys k (drop n xs)"
  by (metis append_take_drop_id sorted_keys_append)

lemma sorted_keys_filter: "sorted_keys k xs \<Longrightarrow> sorted_keys k (filter p xs)"
  by (induction xs) auto

lemma sorted_cmp_by: "sorted (map b xs) \<Longrightarrow> sorted (map (cmp_by b q) xs)"
proof (induction xs)
  case Nil
  then show ?case by simp
next
  case (Cons x xs)
  have "cmp_by b q x \<le> cmp_by b q y" if "y \<in> set xs" for y
    using Cons.prems that
    by (fastforce simp: cmp_by_def compare_def less_eq_ordering_def)
  with Cons show ?case by simp
qed

section \<open>Predicates that hold on a prefix\<close>

definition downward :: "('a \<Rightarrow> bool) \<Rightarrow> 'a list \<Rightarrow> bool" where
  "downward p xs \<longleftrightarrow> sorted_wrt (\<lambda>x y. p y \<longrightarrow> p x) xs"

lemma downward_simps [simp]:
  "downward p []"
  "downward p (x # xs) \<longleftrightarrow> (\<forall>y\<in>set xs. p y \<longrightarrow> p x) \<and> downward p xs"
  by (simp_all add: downward_def)

lemma downward_append [simp]:
  "downward p (xs @ ys) \<longleftrightarrow>
     downward p xs \<and> downward p ys \<and> (\<forall>x\<in>set xs. \<forall>y\<in>set ys. p y \<longrightarrow> p x)"
  by (auto simp: downward_def sorted_wrt_append)

lemma downward_less: "sorted (map b xs) \<Longrightarrow> downward (\<lambda>x. b x < q) xs"
  by (induction xs) (auto intro: le_less_trans)

lemma downward_le: "sorted (map b xs) \<Longrightarrow> downward (\<lambda>x. b x \<le> q) xs"
  by (induction xs) (auto intro: order_trans)

lemma downward_last: "downward p xs \<Longrightarrow> xs \<noteq> [] \<Longrightarrow> p (last xs) \<Longrightarrow> x \<in> set xs \<Longrightarrow> p x"
  by (induction xs) (auto split: if_splits)

lemma downward_takeWhile: "downward p xs \<Longrightarrow> takeWhile p xs = filter p xs"
  by (induction xs) (auto simp: filter_empty_conv)

lemma downward_dropWhile: "downward p xs \<Longrightarrow> dropWhile p xs = filter (\<lambda>x. \<not> p x) xs"
  by (induction xs) (auto intro!: filter_True [symmetric])

lemma partition_point_unique:
  "n \<le> length xs \<Longrightarrow> (\<forall>i<n. p (xs ! i)) \<Longrightarrow> (n < length xs \<longrightarrow> \<not> p (xs ! n)) \<Longrightarrow>
   partition_point p xs = n"
  by (metis le_neq_implies_less linorder_not_less linorder_neqE_nat order_less_le_trans
      partition_point_le partition_point_nth partition_point_stop)

section \<open>Insertion and deletion by key in a sorted list\<close>

text \<open>The abstract sorted-list operations the tree operations refine.\<close>

definition has_key :: "('a \<Rightarrow> 'q) \<Rightarrow> 'q \<Rightarrow> 'a list \<Rightarrow> bool" where
  "has_key b q xs \<longleftrightarrow> q \<in> b ` set xs"

definition ins_key :: "('a \<Rightarrow> 'k::linorder) \<Rightarrow> 'a \<Rightarrow> 'a list \<Rightarrow> 'a list" where
  "ins_key k v xs =
     (if has_key k (k v) xs then xs
      else takeWhile (\<lambda>x. k x < k v) xs @ v # dropWhile (\<lambda>x. k x < k v) xs)"

definition del_key :: "('a \<Rightarrow> 'q) \<Rightarrow> 'q \<Rightarrow> 'a list \<Rightarrow> 'a list" where
  "del_key b q xs = filter (\<lambda>x. b x \<noteq> q) xs"

definition find_key :: "('a \<Rightarrow> 'q) \<Rightarrow> 'q \<Rightarrow> 'a list \<Rightarrow> 'a option" where
  "find_key b q xs = find (\<lambda>x. b x = q) xs"

lemma has_key_simps [simp]:
  "\<not> has_key b q []"
  "has_key b q (x # xs) \<longleftrightarrow> b x = q \<or> has_key b q xs"
  "has_key b q (xs @ ys) \<longleftrightarrow> has_key b q xs \<or> has_key b q ys"
  by (auto simp: has_key_def)

lemma set_ins_key:
  "set (ins_key k v xs) = (if has_key k (k v) xs then set xs else insert v (set xs))"
proof -
  have "set (takeWhile p xs) \<union> set (dropWhile p xs) = set xs" for p
    by (metis set_append takeWhile_dropWhile_id)
  then show ?thesis by (auto simp: ins_key_def)
qed

lemma keys_ins_key: "k ` set (ins_key k v xs) = insert (k v) (k ` set xs)"
  by (auto simp: set_ins_key has_key_def)

lemma length_ins_key:
  "length (ins_key k v xs) = (if has_key k (k v) xs then length xs else Suc (length xs))"
proof -
  have "length (takeWhile p xs) + length (dropWhile p xs) = length xs" for p
    by (metis length_append takeWhile_dropWhile_id)
  then show ?thesis by (simp add: ins_key_def)
qed

lemma sorted_ins_key:
  assumes "sorted_keys k xs"
  shows "sorted_keys k (ins_key k v xs)"
proof (cases "has_key k (k v) xs")
  case True
  with assms show ?thesis by (simp add: ins_key_def)
next
  case False
  let ?p = "\<lambda>x. k x < k v"
  have down: "downward ?p xs"
    using assms by (simp add: downward_less sorted_keys_sorted)
  have above: "\<forall>x\<in>set xs. \<not> ?p x \<longrightarrow> k v < k x"
    using False by (auto simp: has_key_def image_iff not_less_iff_gr_or_eq)
  have "sorted_keys k (filter ?p xs)" "sorted_keys k (filter (\<lambda>x. \<not> ?p x) xs)"
    using assms by (simp_all only: sorted_keys_filter)
  with False above show ?thesis
    by (auto simp: ins_key_def downward_takeWhile [OF down] downward_dropWhile [OF down]
        intro: less_trans)
qed

lemma while_append_stop:
  assumes "\<forall>x\<in>set cs. \<not> p x"
  shows "takeWhile p (xs @ cs) = takeWhile p xs" and "dropWhile p (xs @ cs) = dropWhile p xs @ cs"
proof -
  have "takeWhile p cs = []" "dropWhile p cs = cs"
    using assms by (cases cs; simp)+
  then show "takeWhile p (xs @ cs) = takeWhile p xs" "dropWhile p (xs @ cs) = dropWhile p xs @ cs"
    by (induction xs) auto
qed

lemma ins_key_mid:
  assumes "\<forall>x\<in>set as. k x < k v" and "\<forall>x\<in>set cs. k v < k x"
  shows "ins_key k v (as @ xs @ cs) = as @ ins_key k v xs @ cs"
proof -
  have "\<not> has_key k (k v) as" "\<not> has_key k (k v) cs"
    using assms by (auto simp: has_key_def)
  moreover have "\<forall>x\<in>set cs. \<not> k x < k v"
    using assms(2) by auto
  ultimately show ?thesis
    using assms(1)
    by (simp add: ins_key_def while_append_stop)
qed

lemma del_key_absent: "\<not> has_key b q xs \<Longrightarrow> del_key b q xs = xs"
  by (auto simp: del_key_def has_key_def filter_id_conv)

lemma sorted_del_key: "sorted_keys k xs \<Longrightarrow> sorted_keys k (del_key b q xs)"
  by (simp add: del_key_def sorted_keys_filter)

lemma del_key_nth:
  assumes "sorted_keys b xs" and "i < length xs"
  shows "del_key b (b (xs ! i)) xs = take i xs @ drop (Suc i) xs"
proof -
  have split: "xs = take i xs @ xs ! i # drop (Suc i) xs"
    using assms(2) by (rule id_take_nth_drop)
  with assms(1) have sorted: "sorted_keys b (take i xs @ xs ! i # drop (Suc i) xs)"
    by simp
  have "del_key b (b (xs ! i)) (take i xs @ xs ! i # drop (Suc i) xs) = take i xs @ drop (Suc i) xs"
    using sorted by (auto simp: del_key_def intro!: arg_cong2 [where f = append] filter_True)
  then show ?thesis
    using split by simp
qed

lemma find_key_nth:
  assumes "sorted_keys b xs" and "i < length xs"
  shows "find_key b (b (xs ! i)) xs = Some (xs ! i)"
  using assms
proof (induction xs arbitrary: i)
  case Nil
  then show ?case by simp
next
  case (Cons x xs)
  then show ?case
    by (cases i) (auto simp: find_key_def)
qed

lemma find_key_None: "find_key b q xs = None \<longleftrightarrow> \<not> has_key b q xs"
  by (auto simp: find_key_def has_key_def find_None_iff)

lemma find_key_Some: "find_key b q xs = Some x \<Longrightarrow> x \<in> set xs \<and> b x = q"
  by (auto simp: find_key_def find_Some_iff)

lemma find_key_member:
  assumes "sorted_keys k xs" and "x \<in> set xs"
  shows "find_key k (k x) xs = Some x"
proof -
  have "find_key k (k x) xs \<noteq> None"
    using assms(2) by (auto simp: find_key_None has_key_def)
  then obtain y where y: "find_key k (k x) xs = Some y"
    by blast
  then show ?thesis
    using find_key_Some [OF y] sorted_keys_inj [OF assms(1) _ assms(2)] by auto
qed

lemma sorted_keys_unique: "sorted_keys k xs \<Longrightarrow> sorted_keys k ys \<Longrightarrow> set xs = set ys \<Longrightarrow> xs = ys"
proof (induction xs arbitrary: ys)
  case (Cons x xs)
  then obtain y ys' where y: "ys = y # ys'"
    by (cases ys) auto
  have "x \<in> insert y (set ys')" "y \<in> insert x (set xs)"
    using Cons.prems(3) y by auto
  then have "x = y"
    using Cons.prems(1,2) y by (auto dest: less_asym)
  moreover from this have "set xs = set ys'"
    using Cons.prems y by auto
  ultimately show ?case
    using Cons.IH [of ys'] Cons.prems y by simp
qed simp

end
