(* ===== verification/Node.thy ===== *)
theory Node
  imports Prelude
begin

text \<open>
  \<open>src/core/node.rs\<close>: the search backends, \<open>search_by\<close>, \<open>compute_positions_to_skip\<close> and
  \<open>impl NodeLike for Vec\<close>. A node is a list; every operation that can panic returns a \<open>res\<close>.
  The node operations take the configured search backend as an argument, because three of the
  four backends are code outside the repository; the locale \<open>search_backend\<close> states what they
  promise and is interpreted on the crate's own \<open>custom\<close> search.
\<close>

section \<open>The search backends\<close>

type_synonym 'a search_fn = "'a list \<Rightarrow> ('a \<Rightarrow> ordering) \<Rightarrow> (nat, nat) rust_result res"

text \<open>The \<open>while i != j\<close> loop of the custom backend, with its debug assertion.\<close>

function search_loop :: "'a list \<Rightarrow> ('a \<Rightarrow> ordering) \<Rightarrow> nat \<Rightarrow> nat \<Rightarrow> nat \<Rightarrow> (nat, nat) rust_result res"
  where
  "search_loop xs c i j m =
     (if i = j then Inr (Err i)
      else if \<not> (i \<le> m \<and> m < j \<and> j \<le> length xs) then Inl DebugAssertFailed
      else case c (xs ! m) of
          Equal \<Rightarrow> Inr (Ok m)
        | Less \<Rightarrow> search_loop xs c (m + 1) j ((m + 1 + j) div 2)
        | Greater \<Rightarrow> search_loop xs c i m ((i + m) div 2))"
  by pat_completeness auto
termination
  by (relation "measure (\<lambda>(xs, c, i, j, m). j - i)") auto

declare search_loop.simps [simp del]

definition search :: "'a search_fn" where
  "search haystack c = search_loop haystack c 0 (length haystack) (length haystack div 2)"

text \<open>The superslice backend: \<open>lower_bound_by\<close> belongs to the \<open>superslice\<close> crate.\<close>

definition search_superslice :: "('a list \<Rightarrow> ('a \<Rightarrow> ordering) \<Rightarrow> nat) \<Rightarrow> 'a search_fn" where
  "search_superslice lower_bound_by haystack c =
     (let index = lower_bound_by haystack c in
      case vec_get haystack index of
        Some candidate \<Rightarrow> if is_eq (c candidate) then Inr (Ok index) else Inr (Err index)
      | None \<Rightarrow> Inr (Err index))"

definition search_by :: "'a list \<Rightarrow> ('a \<Rightarrow> ordering) \<Rightarrow> (nat, nat) rust_result" where
  "search_by haystack c =
     (let index = partition_point (\<lambda>x. is_lt (c x)) haystack in
      case vec_get haystack index of
        Some candidate \<Rightarrow> if is_eq (c candidate) then Ok index else Err index
      | None \<Rightarrow> Err index)"

text \<open>What a search promises on a slice ordered by the comparator.\<close>

definition search_spec :: "'a list \<Rightarrow> ('a \<Rightarrow> ordering) \<Rightarrow> (nat, nat) rust_result \<Rightarrow> bool" where
  "search_spec xs c r \<longleftrightarrow> (case r of
      Ok i \<Rightarrow> i < length xs \<and> c (xs ! i) = Equal
    | Err i \<Rightarrow> i \<le> length xs \<and> (\<forall>p<i. c (xs ! p) = Less) \<and>
        (\<forall>p. i \<le> p \<longrightarrow> p < length xs \<longrightarrow> c (xs ! p) = Greater))"

locale search_backend =
  fixes srch :: "'a search_fn"
  assumes search_lawful: "sorted (map c xs) \<Longrightarrow> \<exists>r. srch xs c = Inr r \<and> search_spec xs c r"

section \<open>Node operations\<close>

definition compute_positions_to_skip ::
  "('a \<Rightarrow> 'q::linorder) \<Rightarrow> 'a list \<Rightarrow> 'q bound \<Rightarrow> bool \<Rightarrow> nat option" where
  "compute_positions_to_skip b haystack bound forward =
     (case (bound, forward) of
        (Included v, True) \<Rightarrow>
          checked_sub (partition_point (\<lambda>x. is_lt (cmp_by b v x)) haystack) 1
      | (Excluded v, True) \<Rightarrow>
          checked_sub (partition_point (\<lambda>x. is_le (cmp_by b v x)) haystack) 1
      | (Included v, False) \<Rightarrow>
          (let first_greater = partition_point (\<lambda>x. is_le (cmp_by b v x)) haystack in
           checked_sub (length haystack - first_greater) 1)
      | (Excluded v, False) \<Rightarrow>
          (let first_equal = partition_point (\<lambda>x. is_lt (cmp_by b v x)) haystack in
           checked_sub (length haystack - first_equal) 1)
      | (Unbounded, _) \<Rightarrow> None)"

definition node_with_capacity :: "nat \<Rightarrow> 'a list" where
  "node_with_capacity capacity = []"

definition node_get_ith :: "'a list \<Rightarrow> nat \<Rightarrow> 'a option" where
  "node_get_ith xs index = vec_get xs index"

text \<open>\<open>halve\<close> keeps the first half in place and returns the second.\<close>

definition node_halve :: "'a list \<Rightarrow> ('a list \<times> 'a list) res" where
  "node_halve xs = vec_split_off xs (length xs div 2)"

definition node_need_to_split :: "'a list \<Rightarrow> nat \<Rightarrow> 'a \<Rightarrow> bool" where
  "node_need_to_split xs border v \<longleftrightarrow> border \<le> length xs"

definition node_is_empty :: "'a list \<Rightarrow> bool" where
  "node_is_empty xs \<longleftrightarrow> length xs = 0"

definition node_insert ::
  "'a search_fn \<Rightarrow> ('a \<Rightarrow> 'k::linorder) \<Rightarrow> 'a list \<Rightarrow> 'a \<Rightarrow> ((bool \<times> nat) \<times> 'a list) res" where
  "node_insert srch k xs v =
     rbind (srch xs (cmp_by k (k v))) (\<lambda>r. case r of
        Ok idx \<Rightarrow> Inr ((False, idx), xs)
      | Err idx \<Rightarrow> rbind (vec_insert xs idx v) (\<lambda>xs'. Inr ((True, idx), xs')))"

definition node_contains :: "'a search_fn \<Rightarrow> ('a \<Rightarrow> 'q::linorder) \<Rightarrow> 'a list \<Rightarrow> 'q \<Rightarrow> bool res" where
  "node_contains srch b xs v =
     rbind (srch xs (cmp_by b v)) (\<lambda>r. Inr (case r of Ok _ \<Rightarrow> True | Err _ \<Rightarrow> False))"

definition node_try_select ::
  "'a search_fn \<Rightarrow> ('a \<Rightarrow> 'q::linorder) \<Rightarrow> 'a list \<Rightarrow> 'q \<Rightarrow> nat option res" where
  "node_try_select srch b xs v =
     rbind (srch xs (cmp_by b v)) (\<lambda>r. Inr (case r of Ok idx \<Rightarrow> Some idx | Err _ \<Rightarrow> None))"

definition node_rank :: "('a \<Rightarrow> 'q::linorder) \<Rightarrow> 'a list \<Rightarrow> 'q bound \<Rightarrow> bool \<Rightarrow> nat option" where
  "node_rank b xs bound from_start = compute_positions_to_skip b xs bound from_start"

definition node_delete ::
  "'a search_fn \<Rightarrow> ('a \<Rightarrow> 'q::linorder) \<Rightarrow> 'a list \<Rightarrow> 'q \<Rightarrow> (('a \<times> nat) option \<times> 'a list) res" where
  "node_delete srch b xs v =
     rbind (srch xs (cmp_by b v)) (\<lambda>r. case r of
        Ok idx \<Rightarrow> rbind (vec_remove xs idx) (\<lambda>(x, xs'). Inr (Some (x, idx), xs'))
      | Err _ \<Rightarrow> Inr (None, xs))"

definition node_delete_at :: "'a list \<Rightarrow> nat \<Rightarrow> ('a option \<times> 'a list) res" where
  "node_delete_at xs index =
     (if index < length xs
      then rbind (vec_remove xs index) (\<lambda>(x, xs'). Inr (Some x, xs'))
      else Inr (None, xs))"

definition node_replace :: "'a list \<Rightarrow> nat \<Rightarrow> 'a \<Rightarrow> 'a option \<times> 'a list" where
  "node_replace xs idx v =
     (case vec_get xs idx of Some old \<Rightarrow> (Some old, xs[idx := v]) | None \<Rightarrow> (None, xs))"

definition node_max :: "'a list \<Rightarrow> 'a option" where
  "node_max xs = vec_last xs"

definition node_min :: "'a list \<Rightarrow> 'a option" where
  "node_min xs = vec_first xs"

section \<open>Correctness of the searches\<close>

lemma search_spec_simps [simp]:
  "search_spec xs c (Ok i) \<longleftrightarrow> i < length xs \<and> c (xs ! i) = Equal"
  "search_spec xs c (Err i) \<longleftrightarrow> i \<le> length xs \<and> (\<forall>p<i. c (xs ! p) = Less) \<and>
     (\<forall>p. i \<le> p \<longrightarrow> p < length xs \<longrightarrow> c (xs ! p) = Greater)"
  by (simp_all add: search_spec_def)

lemma sorted_cmp_nth:
  "sorted (map c xs) \<Longrightarrow> p \<le> q \<Longrightarrow> q < length xs \<Longrightarrow> c (xs ! p) \<le> c (xs ! q)"
  by (auto simp: sorted_iff_nth_mono)

lemma ordering_le_iffs:
  "(r :: ordering) \<le> Less \<longleftrightarrow> r = Less" "Greater \<le> (r :: ordering) \<longleftrightarrow> r = Greater"
  by (cases r; simp add: less_eq_ordering_def)+

lemma search_loop_spec:
  assumes "sorted (map c xs)" and "i \<le> j" and "j \<le> length xs" and "i < j \<longrightarrow> i \<le> m \<and> m < j"
    and "\<forall>p<i. c (xs ! p) = Less"
    and "\<forall>p. j \<le> p \<longrightarrow> p < length xs \<longrightarrow> c (xs ! p) = Greater"
  shows "\<exists>r. search_loop xs c i j m = Inr r \<and> search_spec xs c r"
  using assms
proof (induction xs c i j m rule: search_loop.induct)
  case (1 xs c i j m)
  note prems = "1.prems"
  show ?case
  proof (cases "i = j")
    case True
    with prems show ?thesis by (subst search_loop.simps) auto
  next
    case False
    with prems have g: "i \<le> m \<and> m < j \<and> j \<le> length xs" by auto
    show ?thesis
    proof (cases "c (xs ! m)")
      case Less
      have "\<forall>p<m + 1. c (xs ! p) = Less"
        using sorted_cmp_nth [OF prems(1), of _ m] g Less
        by (auto simp: less_Suc_eq_le ordering_le_iffs)
      moreover have "m + 1 < j \<longrightarrow> m + 1 \<le> (m + 1 + j) div 2 \<and> (m + 1 + j) div 2 < j"
        by auto
      ultimately show ?thesis
        using "1.IH"(1) False g prems Less
        by (auto simp: search_loop.simps [of xs c i j m])
    next
      case Equal
      with False g show ?thesis by (auto simp: search_loop.simps [of xs c i j m])
    next
      case Greater
      have "\<forall>p. m \<le> p \<longrightarrow> p < length xs \<longrightarrow> c (xs ! p) = Greater"
        using sorted_cmp_nth [OF prems(1), of m] g Greater
        by (auto simp: ordering_le_iffs)
      moreover have "i < m \<longrightarrow> i \<le> (i + m) div 2 \<and> (i + m) div 2 < m"
        by auto
      ultimately show ?thesis
        using "1.IH"(2) False g prems Greater
        by (auto simp: search_loop.simps [of xs c i j m])
    qed
  qed
qed

interpretation custom: search_backend search
proof
  fix c :: "'a \<Rightarrow> ordering" and xs :: "'a list"
  assume "sorted (map c xs)"
  then show "\<exists>r. search xs c = Inr r \<and> search_spec xs c r"
    unfolding search_def by (rule search_loop_spec) auto
qed

lemma partition_point_sorted_cmp:
  assumes "sorted (map c xs)" and "n = partition_point (\<lambda>x. is_lt (c x)) xs"
  shows "\<forall>p<n. c (xs ! p) = Less" and "\<forall>p. n \<le> p \<longrightarrow> p < length xs \<longrightarrow> c (xs ! p) \<noteq> Less"
    and "n < length xs \<Longrightarrow> c (xs ! n) \<noteq> Equal \<Longrightarrow>
           \<forall>p. n \<le> p \<longrightarrow> p < length xs \<longrightarrow> c (xs ! p) = Greater"
proof -
  show "\<forall>p<n. c (xs ! p) = Less"
    using assms(2) partition_point_nth [of _ "\<lambda>x. is_lt (c x)" xs] by (auto simp: is_lt_def)
  show not_less: "\<forall>p. n \<le> p \<longrightarrow> p < length xs \<longrightarrow> c (xs ! p) \<noteq> Less"
  proof (intro allI impI)
    fix p
    assume p: "n \<le> p" "p < length xs"
    then have "c (xs ! n) \<noteq> Less"
      using assms(2) partition_point_stop [of "\<lambda>x. is_lt (c x)" xs] by (auto simp: is_lt_def)
    then show "c (xs ! p) \<noteq> Less"
      using sorted_cmp_nth [OF assms(1) p] by (auto simp: ordering_le_iffs)
  qed
  assume n: "n < length xs" "c (xs ! n) \<noteq> Equal"
  then have "c (xs ! n) = Greater"
    using not_less by (cases "c (xs ! n)") auto
  then show "\<forall>p. n \<le> p \<longrightarrow> p < length xs \<longrightarrow> c (xs ! p) = Greater"
    using sorted_cmp_nth [OF assms(1), of n] by (auto simp: ordering_le_iffs)
qed

lemma search_by_spec:
  assumes "sorted (map c xs)"
  shows "search_spec xs c (search_by xs c)"
proof -
  let ?n = "partition_point (\<lambda>x. is_lt (c x)) xs"
  note pp = partition_point_sorted_cmp [OF assms refl]
  show ?thesis
  proof (cases "?n < length xs")
    case True
    then show ?thesis
      using pp by (auto simp: search_by_def Let_def is_eq_def)
  next
    case False
    then have "?n = length xs"
      using partition_point_le [of "\<lambda>x. is_lt (c x)" xs] by linarith
    then show ?thesis
      using pp(1) by (auto simp: search_by_def Let_def)
  qed
qed

text \<open>\<open>search_by\<close> itself meets the contract, so the map lookup may use the same lemmas.\<close>

interpretation prefix: search_backend "\<lambda>xs c. Inr (search_by xs c)"
  by unfold_locales (auto intro: search_by_spec)

lemma superslice_backend:
  assumes "\<And>c xs. sorted (map c xs) \<Longrightarrow>
    lower_bound_by xs c = partition_point (\<lambda>x. is_lt (c x)) xs"
  shows "search_backend (search_superslice lower_bound_by)"
proof
  fix c :: "'a \<Rightarrow> ordering" and xs :: "'a list"
  assume sorted: "sorted (map c xs)"
  have "search_superslice lower_bound_by xs c = Inr (search_by xs c)"
    by (simp add: search_superslice_def search_by_def Let_def assms [OF sorted] split: option.split)
  then show "\<exists>r. search_superslice lower_bound_by xs c = Inr r \<and> search_spec xs c r"
    using search_by_spec [OF sorted] by auto
qed

section \<open>Node operations over any lawful backend\<close>

context search_backend
begin

text \<open>With strictly increasing borrowed keys the answer is determined.\<close>

lemma search_sorted_keys:
  assumes "sorted_keys b xs"
  shows "srch xs (cmp_by b q) =
    Inr (if has_key b q xs then Ok (partition_point (\<lambda>x. b x < q) xs)
         else Err (partition_point (\<lambda>x. b x < q) xs))"
proof -
  let ?n = "partition_point (\<lambda>x. b x < q) xs"
  have sorted: "sorted (map (cmp_by b q) xs)"
    using assms by (intro sorted_cmp_by sorted_keys_sorted)
  then obtain r where r: "srch xs (cmp_by b q) = Inr r" "search_spec xs (cmp_by b q) r"
    using search_lawful by blast
  show ?thesis
  proof (cases r)
    case (Ok i)
    with r have i: "i < length xs" "b (xs ! i) = q" by auto
    have "?n = i"
    proof (rule partition_point_unique)
      show "\<forall>p<i. b (xs ! p) < q"
        using sorted_keys_nth_less [OF assms] i by auto
    qed (use i in auto)
    moreover have "has_key b q xs"
      using i by (auto simp: has_key_def)
    ultimately show ?thesis
      using r Ok by simp
  next
    case (Err i)
    with r have i: "i \<le> length xs" "\<forall>p<i. b (xs ! p) < q"
      "\<forall>p. i \<le> p \<longrightarrow> p < length xs \<longrightarrow> q < b (xs ! p)" by auto
    then have "?n = i"
      by (intro partition_point_unique) (auto simp: not_less less_imp_le)
    moreover have "\<not> has_key b q xs"
      using i by (auto simp: has_key_def in_set_conv_nth) (metis linorder_not_less order_less_irrefl)
    ultimately show ?thesis
      using r Err by simp
  qed
qed

lemma node_insert_eq:
  assumes "sorted_keys k xs"
  shows "node_insert srch k xs v =
    Inr ((\<not> has_key k (k v) xs, partition_point (\<lambda>x. k x < k v) xs), ins_key k v xs)"
  by (simp add: node_insert_def search_sorted_keys [OF assms] ins_key_def
      take_partition_point drop_partition_point)

lemma node_contains_eq:
  assumes "sorted_keys b xs"
  shows "node_contains srch b xs q = Inr (has_key b q xs)"
  by (simp add: node_contains_def search_sorted_keys [OF assms])

lemma node_try_select_eq:
  assumes "sorted_keys b xs"
  shows "node_try_select srch b xs q =
    Inr (if has_key b q xs then Some (partition_point (\<lambda>x. b x < q) xs) else None)"
  by (simp add: node_try_select_def search_sorted_keys [OF assms])

end

lemma has_key_partition_point:
  assumes "sorted_keys b xs" and "has_key b q xs" and "n = partition_point (\<lambda>x. b x < q) xs"
  shows "n < length xs" and "b (xs ! n) = q"
proof -
  obtain i where i: "i < length xs" "b (xs ! i) = q"
    using assms(2) by (auto simp: has_key_def in_set_conv_nth)
  have "n = i"
    unfolding assms(3)
    by (rule partition_point_unique) (use i sorted_keys_nth_less [OF assms(1)] in auto)
  with i show "n < length xs" "b (xs ! n) = q" by auto
qed

lemma partition_point_has_key:
  assumes "sorted_keys b xs"
  shows "has_key b q xs \<longleftrightarrow>
    (let n = partition_point (\<lambda>x. b x < q) xs in n < length xs \<and> b (xs ! n) = q)"
  using has_key_partition_point [OF assms, of q]
  by (metis has_key_def image_eqI nth_mem)

context search_backend
begin

lemma node_delete_eq:
  assumes "sorted_keys b xs"
  shows "node_delete srch b xs q =
    Inr (map_option (\<lambda>x. (x, partition_point (\<lambda>x. b x < q) xs)) (find_key b q xs), del_key b q xs)"
proof (cases "has_key b q xs")
  case True
  let ?n = "partition_point (\<lambda>x. b x < q) xs"
  have n: "?n < length xs" "b (xs ! ?n) = q"
    using has_key_partition_point [OF assms True refl] by auto
  then show ?thesis
    using del_key_nth [OF assms n(1)] find_key_nth [OF assms n(1)]
    by (simp add: node_delete_def search_sorted_keys [OF assms] True)
next
  case False
  then show ?thesis
    by (simp add: node_delete_def search_sorted_keys [OF assms] del_key_absent
        find_key_None [THEN iffD2])
qed

end

lemma find_key_partition_point:
  assumes "sorted_keys b xs"
  shows "find_key b q xs = (case vec_get xs (partition_point (\<lambda>x. b x < q) xs) of
    Some x \<Rightarrow> if b x = q then Some x else None | None \<Rightarrow> None)"
proof (cases "has_key b q xs")
  case True
  note n = has_key_partition_point [OF assms True refl]
  show ?thesis
    using n find_key_nth [OF assms n(1)] by simp
next
  case False
  then show ?thesis
    using partition_point_has_key [OF assms, of q] find_key_None [of b q xs]
    by (auto simp: vec_get_def Let_def)
qed

lemma node_halve_eq:
  "node_halve xs = Inr (take (length xs div 2) xs, drop (length xs div 2) xs)"
  by (simp add: node_halve_def)

lemma length_minus_partition_point:
  assumes "downward p xs"
  shows "length xs - partition_point p xs = length (takeWhile (\<lambda>x. \<not> p x) (rev xs))"
proof -
  have split: "rev xs = rev (dropWhile p xs) @ rev (takeWhile p xs)"
    by (metis rev_append takeWhile_dropWhile_id)
  have "\<forall>x\<in>set (dropWhile p xs). \<not> p x" "\<forall>x\<in>set (takeWhile p xs). p x"
    using assms by (auto simp: downward_dropWhile dest: set_takeWhileD)
  then have "takeWhile (\<lambda>x. \<not> p x) (rev xs) = rev (dropWhile p xs)"
    by (simp add: split while_append_stop(1))
  moreover have "length xs - partition_point p xs = length (dropWhile p xs)"
    by (simp add: drop_partition_point [symmetric])
  ultimately show ?thesis by simp
qed

section \<open>Properties\<close>

text \<open>
  The linear reading of a bound that the crate's tests compare the binary one with: how many
  leading (or trailing) elements lie outside the bound.
\<close>

definition linear_skipped :: "('a \<Rightarrow> 'q::linorder) \<Rightarrow> 'a list \<Rightarrow> 'q bound \<Rightarrow> bool \<Rightarrow> nat" where
  "linear_skipped b xs bound forward =
     (case (bound, forward) of
        (Included v, True) \<Rightarrow> length (takeWhile (\<lambda>x. b x < v) xs)
      | (Excluded v, True) \<Rightarrow> length (takeWhile (\<lambda>x. b x \<le> v) xs)
      | (Included v, False) \<Rightarrow> length (takeWhile (\<lambda>x. v < b x) (rev xs))
      | (Excluded v, False) \<Rightarrow> length (takeWhile (\<lambda>x. v \<le> b x) (rev xs))
      | (Unbounded, _) \<Rightarrow> 0)"

lemma checked_sub_one: "checked_sub n 1 = (if n = 0 then None else Some (n - 1))"
  by (cases n) (auto simp: checked_sub_def)

lemma positions_to_skip_cases:
  assumes "sorted (map b xs)"
  shows "compute_positions_to_skip b xs bound forward =
    checked_sub (linear_skipped b xs bound forward) 1"
proof (cases bound)
  case (Included v)
  then show ?thesis
    using length_minus_partition_point [OF downward_le [OF assms], of v]
    by (cases forward)
      (simp_all add: compute_positions_to_skip_def linear_skipped_def partition_point_def not_le)
next
  case (Excluded v)
  then show ?thesis
    using length_minus_partition_point [OF downward_less [OF assms], of v]
    by (cases forward)
      (simp_all add: compute_positions_to_skip_def linear_skipped_def partition_point_def not_less)
next
  case Unbounded
  then show ?thesis
    by (simp add: compute_positions_to_skip_def linear_skipped_def checked_sub_def)
qed

text \<open>
  C35: the custom binary search terminates, never reads outside the slice (its debug assertion
  \<open>i <= m && m < j && j <= len\<close> holds at every iteration) and, on a slice ordered by the
  comparator, answers \<open>Ok\<close> with a matching position or \<open>Err\<close> with the insertion position.
\<close>

theorem search_correct:
  assumes "sorted (map c xs)"
  shows "\<exists>r. search xs c = Inr r \<and> search_spec xs c r"
  using assms by (rule custom.search_lawful)

theorem search_correct_witness:
  "\<exists>r. search [2, 4, 8 :: nat] (cmp_by id 5) = Inr r \<and> search_spec [2, 4, 8 :: nat] (cmp_by id 5) r"
  by (rule search_correct) (simp add: cmp_by_def compare_def less_eq_ordering_def)

text \<open>
  The choice of search backend is not observable: on strictly ordered nodes any two lawful
  backends give the same answer, \<open>Ok\<close> or \<open>Err\<close> at the number of smaller elements.
\<close>

theorem search_backends_agree:
  assumes "search_backend s1" and "search_backend s2" and "sorted_keys b xs"
  shows "s1 xs (cmp_by b q) = s2 xs (cmp_by b q)"
  using search_backend.search_sorted_keys [OF assms(1,3)]
    search_backend.search_sorted_keys [OF assms(2,3)] by simp

theorem search_backends_agree_witness:
  "search [1, 3, 5 :: nat] (cmp_by id 3)
   = search_superslice (\<lambda>xs c. partition_point (\<lambda>x. is_lt (c x)) xs) [1, 3, 5 :: nat] (cmp_by id 3)"
  by (rule search_backends_agree)
    (simp_all add: custom.search_backend_axioms superslice_backend)

text \<open>
  \<open>compute_positions_to_skip\<close> is the binary form of the linear bound semantics, in both
  directions and for weakly ordered borrowed keys (a multimap node borrowed by its key): the
  index of the last value to skip, or \<open>None\<close> when nothing is skipped.
\<close>

theorem positions_to_skip_linear:
  assumes "sorted (map b xs)"
  shows "compute_positions_to_skip b xs bound forward =
    (let skipped = linear_skipped b xs bound forward
     in if skipped = 0 then None else Some (skipped - 1))"
  unfolding positions_to_skip_cases [OF assms] checked_sub_one Let_def ..

theorem positions_to_skip_linear_witness:
  "compute_positions_to_skip fst [(1, ''a''), (1, ''b''), (2 :: nat, ''a'')] (Excluded 1) True =
    (let skipped = linear_skipped fst [(1, ''a''), (1, ''b''), (2 :: nat, ''a'')] (Excluded 1) True
     in if skipped = 0 then None else Some (skipped - 1))"
  by (rule positions_to_skip_linear) simp

text \<open>
  \<open>NodeLike::insert\<close> on a sorted node, over any lawful backend: it never panics, reports
  whether the key was new, leaves the node sorted, adds exactly the new key when it was absent
  and nothing otherwise, and returns the position that holds the key.
\<close>

lemma node_insert_correct:
  assumes "search_backend srch" and "sorted_keys k xs"
  shows "\<exists>idx xs'. node_insert srch k xs v = Inr ((\<not> has_key k (k v) xs, idx), xs') \<and>
    sorted_keys k xs' \<and> set xs' = (if has_key k (k v) xs then set xs else insert v (set xs)) \<and>
    idx < length xs' \<and> k (xs' ! idx) = k v"
proof -
  let ?n = "partition_point (\<lambda>x. k x < k v) xs"
  let ?ys = "ins_key k v xs"
  have "?n < length ?ys \<and> k (?ys ! ?n) = k v"
  proof (cases "has_key k (k v) xs")
    case True
    then show ?thesis
      using has_key_partition_point [OF assms(2) True refl] by (simp add: ins_key_def)
  next
    case False
    then show ?thesis
      by (simp add: ins_key_def partition_point_def nth_append)
  qed
  then show ?thesis
    using search_backend.node_insert_eq [OF assms]
    by (simp add: set_ins_key sorted_ins_key [OF assms(2)])
qed

text \<open>
  the \<open>NodeLike\<close> contract of the source: \<open>try_select\<close> is \<open>Some i\<close> exactly when
  \<open>contains\<close> is true, with \<open>get_ith(i)\<close> equal to the requested value, and \<open>delete\<close> removes
  exactly that entry and reports the same position.
\<close>

lemma node_select_contract:
  assumes "search_backend srch" and "sorted_keys b xs"
  shows "node_contains srch b xs q = Inr (q \<in> b ` set xs) \<and>
    (\<exists>sel. node_try_select srch b xs q = Inr sel \<and> (sel = None \<longleftrightarrow> q \<notin> b ` set xs) \<and>
      (\<forall>i. sel = Some i \<longrightarrow> (\<exists>x. node_get_ith xs i = Some x \<and> b x = q \<and>
         node_delete srch b xs q = Inr (Some (x, i), take i xs @ drop (Suc i) xs)))) \<and>
    (q \<notin> b ` set xs \<longrightarrow> node_delete srch b xs q = Inr (None, xs))"
proof (cases "has_key b q xs")
  case True
  note n = has_key_partition_point [OF assms(2) True refl]
  show ?thesis
    using n del_key_nth [OF assms(2) n(1)] find_key_nth [OF assms(2) n(1)] True
    by (simp add: search_backend.node_contains_eq [OF assms] node_get_ith_def
        search_backend.node_try_select_eq [OF assms] search_backend.node_delete_eq [OF assms])
      (simp add: has_key_def)
next
  case False
  then show ?thesis
    by (simp add: search_backend.node_contains_eq [OF assms] del_key_absent
        find_key_None [THEN iffD2] search_backend.node_try_select_eq [OF assms]
        search_backend.node_delete_eq [OF assms])
      (simp add: has_key_def)
qed

end
