(* ===== verification/Fenwick.thy ===== *)
theory Fenwick
  imports Prelude
begin

text \<open>
  The positional index of a single-threaded tree is a \<open>FenwickTree<usize>\<close> of the external
  crate \<open>ftree\<close>. Its operations are a record that every definition using them takes as an
  argument; the locale \<open>fenwick_tree\<close> states the documented behaviour the crate relies on,
  over the list of slot values the tree stands for. \<open>index_of\<close> is only required to name a slot
  whose cumulative interval holds the sum, with both borders included: the caller corrects a
  position that falls on the right border.
\<close>

record 'f ftree_ops =
  ft_from_iter :: "nat list \<Rightarrow> 'f"
  ft_add_at :: "'f \<Rightarrow> nat \<Rightarrow> nat \<Rightarrow> 'f res"
  ft_sub_at :: "'f \<Rightarrow> nat \<Rightarrow> nat \<Rightarrow> 'f res"
  ft_prefix_sum :: "'f \<Rightarrow> nat \<Rightarrow> nat \<Rightarrow> nat res"
  ft_index_of :: "'f \<Rightarrow> nat \<Rightarrow> nat res"

locale fenwick_tree =
  fixes ft :: "'f ftree_ops"
    and slots :: "'f \<Rightarrow> nat list"
  assumes slots_from_iter [simp]: "slots (ft_from_iter ft ns) = ns"
    and slots_add_at: "i < length (slots t) \<Longrightarrow>
      \<exists>t'. ft_add_at ft t i d = Inr t' \<and> slots t' = (slots t)[i := slots t ! i + d]"
    and slots_sub_at: "i < length (slots t) \<Longrightarrow> d \<le> slots t ! i \<Longrightarrow>
      \<exists>t'. ft_sub_at ft t i d = Inr t' \<and> slots t' = (slots t)[i := slots t ! i - d]"
    and prefix_sum: "i \<le> length (slots t) \<Longrightarrow>
      ft_prefix_sum ft t i init = Inr (init + sum_list (take i (slots t)))"
    and index_of: "\<exists>i. ft_index_of ft t s = Inr i \<and> i \<le> length (slots t) \<and>
      sum_list (take i (slots t)) \<le> s \<and>
      (i < length (slots t) \<longrightarrow> s \<le> sum_list (take (Suc i) (slots t)))"

section \<open>The reference instance\<close>

text \<open>The slots themselves: what the laws are checked on and what witnesses evaluate.\<close>

fun slot_of :: "nat list \<Rightarrow> nat \<Rightarrow> nat" where
  "slot_of [] s = 0"
| "slot_of (n # ns) s = (if s \<le> n then 0 else Suc (slot_of ns (s - n)))"

definition slot_list :: "nat list ftree_ops" where
  "slot_list = \<lparr>
     ft_from_iter = (\<lambda>ns. ns),
     ft_add_at = (\<lambda>t i d. if i < length t then Inr (t[i := t ! i + d]) else Inr t),
     ft_sub_at = (\<lambda>t i d. if i < length t then rbind (usize_sub (t ! i) d) (\<lambda>n. Inr (t[i := n]))
                          else Inr t),
     ft_prefix_sum = (\<lambda>t i init. if i \<le> length t then Inr (init + sum_list (take i t))
                                 else Inl ForeignPanic),
     ft_index_of = (\<lambda>t s. Inr (slot_of t s)) \<rparr>"

lemma slot_of_spec:
  "slot_of ns s \<le> length ns \<and> sum_list (take (slot_of ns s) ns) \<le> s \<and>
   (slot_of ns s < length ns \<longrightarrow> s \<le> sum_list (take (Suc (slot_of ns s)) ns))"
  by (induction ns s rule: slot_of.induct) (auto simp: le_diff_conv2 le_diff_conv add.commute)

interpretation slot_list: fenwick_tree slot_list id
proof
  fix t :: "nat list" and s
  show "\<exists>i. ft_index_of slot_list t s = Inr i \<and> i \<le> length (id t) \<and>
      sum_list (take i (id t)) \<le> s \<and>
      (i < length (id t) \<longrightarrow> s \<le> sum_list (take (Suc i) (id t)))"
    using slot_of_spec [of t s] by (simp add: slot_list_def)
qed (simp_all add: slot_list_def)

end
