(* ===== verification/Spine.thy ===== *)
theory Spine
  imports Prelude
begin

text \<open>
  A two-level tree is a list of nodes; what it stands for is the concatenation of the nodes.
  This theory relates positions of the form (node, position within node) with positions in the
  concatenation: lookup, update, insertion and removal at a position, and the two-step
  location of the first element that fails a predicate.
\<close>

definition offset :: "'a list list \<Rightarrow> nat \<Rightarrow> nat" where
  "offset ns i = sum_list (map length (take i ns))"

lemma offset_concat: "offset ns i = length (concat (take i ns))"
  by (simp add: offset_def length_concat)

lemma offset_0 [simp]: "offset ns 0 = 0"
  by (simp add: offset_def)

lemma offset_Cons_Suc [simp]: "offset (n # ns) (Suc i) = length n + offset ns i"
  by (simp add: offset_def)

lemma offset_Suc: "i < length ns \<Longrightarrow> offset ns (Suc i) = offset ns i + length (ns ! i)"
  by (simp add: offset_def take_Suc_conv_app_nth)

lemma offset_length [simp]: "offset ns (length ns) = length (concat ns)"
  by (simp add: offset_concat)

lemma offset_mono: "i \<le> j \<Longrightarrow> offset ns i \<le> offset ns j"
proof (induction ns arbitrary: i j)
  case Nil
  then show ?case by (simp add: offset_def)
next
  case (Cons n ns)
  then show ?case by (cases i; cases j) auto
qed

lemma offset_le: "offset ns i \<le> length (concat ns)"
  by (metis append_take_drop_id concat_append le_add1 length_append offset_concat)

section \<open>Splitting at a node\<close>

lemma spine_split:
  assumes "i < length ns"
  shows "concat ns = concat (take i ns) @ ns ! i @ concat (drop (Suc i) ns)"
  by (subst id_take_nth_drop [OF assms]) simp

lemma spine_update:
  assumes "i < length ns"
  shows "concat (ns[i := n]) = concat (take i ns) @ n @ concat (drop (Suc i) ns)"
  using assms by (simp add: upd_conv_take_nth_drop)

lemma spine_nth:
  assumes "i < length ns" and "j < length (ns ! i)"
  shows "concat ns ! (offset ns i + j) = ns ! i ! j" and "offset ns i + j < length (concat ns)"
  using assms(2) by (simp_all add: spine_split [OF assms(1)] offset_concat nth_append)

lemma spine_remove:
  assumes "i < length ns" and "j < length (ns ! i)"
  shows "concat (ns[i := take j (ns ! i) @ drop (Suc j) (ns ! i)]) =
    take (offset ns i + j) (concat ns) @ drop (Suc (offset ns i + j)) (concat ns)"
  using assms(2)
  by (simp add: spine_split [OF assms(1)] spine_update [OF assms(1)] offset_concat)

lemma spine_drop_empty:
  assumes "i < length ns" and "ns ! i = []"
  shows "concat (take i ns @ drop (Suc i) ns) = concat ns"
  using assms(2) by (simp add: spine_split [OF assms(1)])

lemma spine_take_drop:
  assumes "i < length ns" and "j \<le> length (ns ! i)"
  shows "take (offset ns i + j) (concat ns) = concat (take i ns) @ take j (ns ! i)"
    and "drop (offset ns i + j) (concat ns) = drop j (ns ! i) @ concat (drop (Suc i) ns)"
  using assms(2) by (simp_all add: spine_split [OF assms(1)] offset_concat)

section \<open>Well-formed spines\<close>

text \<open>A spine has a node, and an empty node only when it is the only one.\<close>

definition wf_spine :: "'a list list \<Rightarrow> bool" where
  "wf_spine ns \<longleftrightarrow> ns \<noteq> [] \<and> (length ns = 1 \<or> [] \<notin> set ns)"

text \<open>It depends on the node lengths only.\<close>

lemma wf_spine_lengths:
  "wf_spine ns \<longleftrightarrow> map length ns \<noteq> [] \<and> (length (map length ns) = 1 \<or> 0 \<notin> set (map length ns))"
  by (auto simp: wf_spine_def)

lemma wf_spine_empty [simp]: "wf_spine [[]]"
  by (simp add: wf_spine_def)

lemma wf_spine_nonempty_node:
  "wf_spine ns \<Longrightarrow> i < length ns \<Longrightarrow> concat ns \<noteq> [] \<Longrightarrow> ns ! i \<noteq> []"
  by (cases ns) (auto simp: wf_spine_def less_Suc_eq_0_disj dest!: nth_mem)

lemma wf_spine_concat_Nil: "wf_spine ns \<Longrightarrow> concat ns = [] \<Longrightarrow> ns = [[]]"
  by (cases ns) (auto simp: wf_spine_def)

lemma wf_spine_update: "wf_spine ns \<Longrightarrow> n \<noteq> [] \<Longrightarrow> wf_spine (ns[i := n])"
  using set_update_subset_insert [of ns i n] by (auto simp: wf_spine_def)

lemma wf_spine_split_node:
  assumes "wf_spine (P @ n # Q)" and "old \<noteq> []" and "new \<noteq> []"
  shows "wf_spine (P @ old # new # Q)"
  using assms by (auto simp: wf_spine_def)

section \<open>Two-step location\<close>

definition node_pred :: "('a \<Rightarrow> bool) \<Rightarrow> bool \<Rightarrow> 'a list \<Rightarrow> bool" where
  "node_pred p dflt n = (case vec_last n of Some m \<Rightarrow> p m | None \<Rightarrow> dflt)"

lemma node_pred_simps [simp]:
  "node_pred p d [] = d" "n \<noteq> [] \<Longrightarrow> node_pred p d n = p (last n)"
  by (simp_all add: node_pred_def)

text \<open>
  The position of the first element failing \<open>p\<close>: the first node whose last element fails it
  (the last node when there is none), then the partition point within that node.
\<close>

definition clip :: "'a list \<Rightarrow> nat \<Rightarrow> nat" where
  "clip ns i = (if i < length ns then i else i - 1)"

definition spine_pos :: "('a \<Rightarrow> bool) \<Rightarrow> bool \<Rightarrow> 'a list list \<Rightarrow> nat" where
  "spine_pos p d ns = clip ns (partition_point (node_pred p d) ns)"

lemma partition_point_Cons [simp]:
  "partition_point p (x # xs) = (if p x then Suc (partition_point p xs) else 0)"
  by (simp add: partition_point_def)

lemma partition_point_mono:
  "\<forall>x\<in>set xs. p x \<longrightarrow> q x \<Longrightarrow> partition_point p xs \<le> partition_point q xs"
  by (induction xs) auto

lemma spine_pos_nonempty:
  assumes "[] \<notin> set ns" and "ns \<noteq> []" and "downward p (concat ns)" and "i = spine_pos p d ns"
  shows "i < length ns \<and> offset ns i + partition_point p (ns ! i) = partition_point p (concat ns) \<and>
    (partition_point p (ns ! i) = length (ns ! i) \<longrightarrow> Suc i = length ns)"
  using assms
proof (induction ns arbitrary: i)
  case Nil
  then show ?case by simp
next
  case (Cons n ns)
  have n: "n \<noteq> []" "downward p n"
    using Cons.prems by auto
  show ?case
  proof (cases "p (last n)")
    case True
    then have "\<forall>x\<in>set n. p x"
      using n by (auto intro: downward_last)
    then have pp: "partition_point p (n @ concat ns) = length n + partition_point p (concat ns)"
      "partition_point p n = length n"
      by (simp_all add: partition_point_def takeWhile_append2 takeWhile_eq_all_conv [THEN iffD2])
    show ?thesis
    proof (cases "ns = []")
      case True
      with Cons.prems \<open>p (last n)\<close> n pp show ?thesis
        by (simp add: spine_pos_def clip_def)
    next
      case False
      have "0 < length ns"
        using False by simp
      then have "spine_pos p d (n # ns) = Suc (spine_pos p d ns)"
        using \<open>p (last n)\<close> n(1) by (auto simp: spine_pos_def clip_def not_less simp del: length_greater_0_conv)
      then have "i = Suc (spine_pos p d ns)"
        using Cons.prems(4) by simp
      then show ?thesis
        using Cons.IH [OF _ False _ refl] Cons.prems pp by auto
    qed
  next
    case False
    have i: "i = 0"
      using Cons.prems False n by (simp add: spine_pos_def clip_def)
    obtain m where m: "m \<in> set n" "\<not> p m"
      using False n by (meson last_in_set)
    then have "partition_point p (n @ concat ns) = partition_point p n"
      by (auto simp: partition_point_def takeWhile_append1)
    moreover have "partition_point p n \<noteq> length n"
      using m by (auto simp: partition_point_all)
    ultimately show ?thesis
      using i by simp
  qed
qed

lemma spine_pos_spec:
  assumes "wf_spine ns" and "downward p (concat ns)" and "i = spine_pos p d ns"
  shows "i < length ns" and "offset ns i + partition_point p (ns ! i) = partition_point p (concat ns)"
    and "partition_point p (ns ! i) = length (ns ! i) \<Longrightarrow> Suc i = length ns"
proof -
  have "i < length ns \<and> offset ns i + partition_point p (ns ! i) = partition_point p (concat ns) \<and>
    (partition_point p (ns ! i) = length (ns ! i) \<longrightarrow> Suc i = length ns)"
  proof (cases "[] \<in> set ns")
    case True
    then have "ns = [[]]"
      using assms(1) by (cases ns) (auto simp: wf_spine_def)
    then show ?thesis
      using assms(3) by (simp add: spine_pos_def clip_def)
  next
    case False
    with assms show ?thesis
      using spine_pos_nonempty [OF False _ assms(2,3)] by (auto simp: wf_spine_def)
  qed
  then show "i < length ns" "offset ns i + partition_point p (ns ! i) = partition_point p (concat ns)"
    "partition_point p (ns ! i) = length (ns ! i) \<Longrightarrow> Suc i = length ns" by auto
qed

text \<open>Everything before the located node satisfies \<open>p\<close>, everything after it fails it.\<close>

lemma spine_pos_before:
  assumes "wf_spine ns" and "downward p (concat ns)" and "i = spine_pos p d ns"
  shows "\<forall>x\<in>set (concat (take i ns)). p x"
proof -
  note sp = spine_pos_spec [OF assms]
  have "take (offset ns i) (concat ns) = concat (take i ns)"
    using spine_take_drop(1) [OF sp(1), of 0] by simp
  moreover have "offset ns i \<le> partition_point p (concat ns)"
    using sp(2) by linarith
  ultimately have "set (concat (take i ns)) \<subseteq> set (takeWhile p (concat ns))"
    by (metis set_take_subset_set_take take_partition_point)
  then show ?thesis
    by (auto dest: set_takeWhileD)
qed

lemma spine_pos_after:
  assumes "wf_spine ns" and "downward p (concat ns)" and "i = spine_pos p d ns"
  shows "\<forall>x\<in>set (concat (drop (Suc i) ns)). \<not> p x"
proof (cases "Suc i = length ns")
  case True
  then show ?thesis by simp
next
  case False
  note sp = spine_pos_spec [OF assms]
  have "partition_point p (ns ! i) < length (ns ! i)"
    using False sp(3) partition_point_le [of p "ns ! i"] by linarith
  then obtain m where m: "m \<in> set (ns ! i)" "\<not> p m"
    using partition_point_stop nth_mem by metis
  have "downward p (concat (take i ns) @ ns ! i @ concat (drop (Suc i) ns))"
    using assms(2) unfolding spine_split [OF sp(1)] .
  then have "\<forall>x\<in>set (ns ! i). \<forall>y\<in>set (concat (drop (Suc i) ns)). p y \<longrightarrow> p x"
    unfolding downward_append by blast
  with m show ?thesis
    by blast
qed

section \<open>Windows\<close>

text \<open>The elements from position \<open>a\<close> up to and excluding position \<open>b\<close>.\<close>

definition window :: "nat \<Rightarrow> nat \<Rightarrow> 'a list \<Rightarrow> 'a list" where
  "window a b xs = take (b - a) (drop a xs)"

lemma window_empty [simp]: "b \<le> a \<Longrightarrow> window a b xs = []"
  by (simp add: window_def)

lemma window_all [simp]: "length xs \<le> b \<Longrightarrow> window 0 b xs = xs"
  by (simp add: window_def)

lemma window_Cons: "a < b \<Longrightarrow> b \<le> length xs \<Longrightarrow> window a b xs = xs ! a # window (Suc a) b xs"
  by (simp add: window_def Cons_nth_drop_Suc [symmetric] Suc_diff_Suc [symmetric] del: Suc_diff_Suc)

lemma window_snoc:
  assumes "a < b" and "b \<le> length xs"
  shows "window a b xs = window a (b - 1) xs @ [xs ! (b - 1)]"
proof -
  have "b - a = Suc (b - 1 - a)" "b - 1 - a < length (drop a xs)" "drop a xs ! (b - 1 - a) = xs ! (b - 1)"
    using assms by auto
  then show ?thesis
    unfolding window_def by (metis take_Suc_conv_app_nth)
qed

lemma window_filter:
  assumes "downward p xs" and "downward q xs" and "\<forall>x\<in>set xs. p x \<longrightarrow> q x"
  shows "window (partition_point p xs) (partition_point q xs) xs = filter (\<lambda>x. \<not> p x \<and> q x) xs"
  using assms
proof (induction xs)
  case (Cons x xs)
  show ?case
  proof (cases "p x")
    case True
    then show ?thesis
      using Cons by (auto simp: window_def)
  next
    case False
    then have "\<forall>y\<in>set xs. \<not> p y"
      using Cons.prems(1) by auto
    then have "filter (\<lambda>y. \<not> p y \<and> q y) xs = takeWhile q xs"
      using Cons.prems(2) by (simp add: downward_takeWhile cong: filter_cong)
    moreover have "takeWhile q xs = []" if "\<not> q x"
      using that Cons.prems(2) by (cases xs) auto
    ultimately show ?thesis
      using False by (simp add: window_def take_partition_point)
  qed
qed simp

end
