(* ===== verification/Btree_Set.thy ===== *)
theory Btree_Set
  imports Node Fenwick Spine
begin

text \<open>
  \<open>src/lib.rs\<close>, \<open>BTreeSet\<close>: the state and every method except iteration. The state is the
  record \<open>btree_set\<close> with the source's four fields; a method that takes \<open>&mut self\<close> returns the
  new state beside its result. The elements carry the order of their key projection \<open>k\<close>; a
  lookup by a borrowed form goes through a projection \<open>b\<close>. The external code (the configured
  search backend and the \<open>ftree\<close> crate) is the argument \<open>D\<close>.
\<close>

section \<open>State\<close>

record ('a, 'f) deps =
  dep_search :: "'a search_fn"
  dep_ftree :: "'f ftree_ops"

record ('a, 'f) btree_set =
  inner :: "'a list list"
  index :: 'f
  node_capacity :: nat
  len :: nat

datatype node_entry =
    Exist nat nat  \<comment> \<open>node index, position within the node\<close>
  | Empty nat      \<comment> \<open>node index\<close>

definition DEFAULT_INNER_SIZE :: nat where
  "DEFAULT_INNER_SIZE = 1024"

definition bset_default :: "('a, 'f) deps \<Rightarrow> ('a, 'f) btree_set" where
  "bset_default D = \<lparr> inner = [node_with_capacity DEFAULT_INNER_SIZE],
     index = ft_from_iter (dep_ftree D) [0], node_capacity = DEFAULT_INNER_SIZE, len = 0 \<rparr>"

definition bset_new :: "('a, 'f) deps \<Rightarrow> ('a, 'f) btree_set" where
  "bset_new D = bset_default D"

definition bset_with_maximum_node_size :: "('a, 'f) deps \<Rightarrow> nat \<Rightarrow> ('a, 'f) btree_set" where
  "bset_with_maximum_node_size D maximum_node_size =
     (bset_default D)\<lparr> inner := [node_with_capacity maximum_node_size],
                       node_capacity := maximum_node_size \<rparr>"

definition bset_clear :: "('a, 'f) deps \<Rightarrow> ('a, 'f) btree_set \<Rightarrow> ('a, 'f) btree_set" where
  "bset_clear D s = s\<lparr> inner := [node_with_capacity (node_capacity s)],
     index := ft_from_iter (dep_ftree D) [0], len := 0 \<rparr>"

definition rebuild_index :: "('a, 'f) deps \<Rightarrow> 'a list list \<Rightarrow> 'f" where
  "rebuild_index D ns = ft_from_iter (dep_ftree D) (map length ns)"

section \<open>Locating nodes, values and positions\<close>

definition bset_locate_node :: "('a \<Rightarrow> 'q::linorder) \<Rightarrow> ('a, 'f) btree_set \<Rightarrow> 'q \<Rightarrow> nat" where
  "bset_locate_node b s v =
     (let node_idx = partition_point
            (\<lambda>node. case vec_last node of Some m \<Rightarrow> b m < v | None \<Rightarrow> False) (inner s)
      in if vec_get (inner s) node_idx = None then node_idx - 1 else node_idx)"

definition bset_locate_node_cmp :: "('a \<Rightarrow> bool) \<Rightarrow> ('a, 'f) btree_set \<Rightarrow> nat" where
  "bset_locate_node_cmp cmp s =
     (let node_idx = partition_point
            (\<lambda>node. case vec_last node of Some m \<Rightarrow> cmp m | None \<Rightarrow> True) (inner s)
      in if vec_get (inner s) node_idx = None then node_idx - 1 else node_idx)"

definition bset_locate_value ::
  "('a \<Rightarrow> 'q::linorder) \<Rightarrow> ('a, 'f) btree_set \<Rightarrow> 'q \<Rightarrow> (nat \<times> nat) res" where
  "bset_locate_value b s v =
     (let node_idx = bset_locate_node b s v in
      rbind (vec_index (inner s) node_idx) (\<lambda>node.
      Inr (node_idx, partition_point (\<lambda>item. b item < v) node)))"

definition bset_locate_value_cmp :: "('a \<Rightarrow> bool) \<Rightarrow> ('a, 'f) btree_set \<Rightarrow> (nat \<times> nat) res" where
  "bset_locate_value_cmp cmp s =
     (let node_idx = bset_locate_node_cmp cmp s in
      rbind (vec_index (inner s) node_idx) (\<lambda>node.
      Inr (node_idx, partition_point cmp node)))"

definition bset_locate_ith :: "('a, 'f) deps \<Rightarrow> ('a, 'f) btree_set \<Rightarrow> nat \<Rightarrow> (nat \<times> nat) res" where
  "bset_locate_ith D s idx =
     rbind (ft_index_of (dep_ftree D) (index s) idx) (\<lambda>node_index.
     rbind (if node_index \<noteq> 0 then ft_prefix_sum (dep_ftree D) (index s) node_index 0 else Inr 0)
       (\<lambda>offset.
     rbind (usize_sub idx offset) (\<lambda>position.
     Inr (case vec_get (inner s) node_index of
            Some node \<Rightarrow> if position = length node then (node_index + 1, 0)
                         else (node_index, position)
          | None \<Rightarrow> (node_index, position)))))"

section \<open>Reading\<close>

definition bset_get_index :: "('a, 'f) deps \<Rightarrow> ('a, 'f) btree_set \<Rightarrow> nat \<Rightarrow> 'a option res" where
  "bset_get_index D s idx =
     rbind (bset_locate_ith D s idx) (\<lambda>(node_idx, position).
     Inr (case vec_get (inner s) node_idx of
            Some candidate_node \<Rightarrow> vec_get candidate_node position
          | None \<Rightarrow> None))"

text \<open>
  A \<open>&mut T\<close> handed to the caller is what the caller does with it: the function \<open>f\<close> that it
  applies to the element, if there is one.
\<close>

definition bset_get_mut_index ::
  "('a, 'f) deps \<Rightarrow> ('a, 'f) btree_set \<Rightarrow> nat \<Rightarrow> ('a \<Rightarrow> 'a) \<Rightarrow> ('a option \<times> ('a, 'f) btree_set) res" where
  "bset_get_mut_index D s i f =
     rbind (bset_locate_ith D s i) (\<lambda>(node_idx, position).
     Inr (case vec_get (inner s) node_idx of
            Some node \<Rightarrow> (case vec_get node position of
                Some x \<Rightarrow> (Some x, s\<lparr> inner := (inner s)[node_idx := node[position := f x]] \<rparr>)
              | None \<Rightarrow> (None, s))
          | None \<Rightarrow> (None, s)))"

definition bset_get :: "('a \<Rightarrow> 'q::linorder) \<Rightarrow> ('a, 'f) btree_set \<Rightarrow> 'q \<Rightarrow> 'a option res" where
  "bset_get b s v =
     rbind (bset_locate_value b s v) (\<lambda>(node_idx, position).
     Inr (case vec_get (inner s) node_idx of
            Some candidate_node \<Rightarrow> vec_get candidate_node position
          | None \<Rightarrow> None))"

definition bset_lower_bound :: "('a \<Rightarrow> 'q::linorder) \<Rightarrow> ('a, 'f) btree_set \<Rightarrow> 'q \<Rightarrow> 'a option res" where
  "bset_lower_bound b s v =
     rbind (bset_locate_value b s v) (\<lambda>(node_idx, position).
     Inr (case vec_get (inner s) node_idx of
            Some candidate_node \<Rightarrow> vec_get candidate_node position
          | None \<Rightarrow> None))"

definition bset_len :: "('a, 'f) btree_set \<Rightarrow> nat" where
  "bset_len s = len s"

definition bset_is_empty :: "('a, 'f) btree_set \<Rightarrow> bool" where
  "bset_is_empty s \<longleftrightarrow> bset_len s = 0"

definition bset_contains :: "('a \<Rightarrow> 'q::linorder) \<Rightarrow> ('a, 'f) btree_set \<Rightarrow> 'q \<Rightarrow> bool res" where
  "bset_contains b s v =
     rbind (bset_locate_value b s v) (\<lambda>(node_idx, position).
     Inr (case vec_get (inner s) node_idx of
            Some candidate_node \<Rightarrow> (case vec_get candidate_node position of
                Some candidate_value \<Rightarrow> v = b candidate_value
              | None \<Rightarrow> False)
          | None \<Rightarrow> False))"

definition bset_contains_cmp :: "('a \<Rightarrow> bool) \<Rightarrow> ('a \<Rightarrow> bool) \<Rightarrow> ('a, 'f) btree_set \<Rightarrow> bool res" where
  "bset_contains_cmp cmp cmp2 s =
     rbind (bset_locate_value_cmp cmp s) (\<lambda>(node_idx, position).
     Inr (case vec_get (inner s) node_idx of
            Some candidate_node \<Rightarrow> (case vec_get candidate_node position of
                Some candidate_value \<Rightarrow> cmp2 candidate_value
              | None \<Rightarrow> False)
          | None \<Rightarrow> False))"

definition bset_find_cmp :: "('a \<Rightarrow> bool) \<Rightarrow> ('a \<Rightarrow> bool) \<Rightarrow> ('a, 'f) btree_set \<Rightarrow> node_entry res" where
  "bset_find_cmp cmp cmp2 s =
     rbind (bset_locate_value_cmp cmp s) (\<lambda>(node_idx, position).
     Inr (case Option.bind (vec_get (inner s) node_idx) (\<lambda>node. vec_get node position) of
            Some candidate_value \<Rightarrow>
              if cmp2 candidate_value then Exist node_idx position else Empty node_idx
          | None \<Rightarrow> Empty node_idx))"

definition bset_first :: "('a, 'f) btree_set \<Rightarrow> 'a option" where
  "bset_first s = (case vec_first (inner s) of Some node \<Rightarrow> vec_first node | None \<Rightarrow> None)"

definition bset_last :: "('a, 'f) btree_set \<Rightarrow> 'a option" where
  "bset_last s = (case vec_last (inner s) of
      Some node \<Rightarrow> if node \<noteq> [] then vec_last node else None
    | None \<Rightarrow> None)"

definition bset_rank ::
  "('a, 'f) deps \<Rightarrow> ('a \<Rightarrow> 'q::linorder) \<Rightarrow> ('a, 'f) btree_set \<Rightarrow> 'q \<Rightarrow> nat res" where
  "bset_rank D b s v =
     rbind (bset_locate_value b s v) (\<lambda>(node_idx, position).
     rbind (ft_prefix_sum (dep_ftree D) (index s) node_idx 0) (\<lambda>offset.
     Inr (offset + position)))"

definition bset_rank_cmp :: "('a, 'f) deps \<Rightarrow> ('a \<Rightarrow> bool) \<Rightarrow> ('a, 'f) btree_set \<Rightarrow> nat res" where
  "bset_rank_cmp D cmp s =
     rbind (bset_locate_value_cmp cmp s) (\<lambda>(node_idx, position).
     rbind (ft_prefix_sum (dep_ftree D) (index s) node_idx 0) (\<lambda>offset.
     Inr (offset + position)))"

text \<open>\<open>Index<usize>\<close>: \<open>set[i]\<close> panics out of range.\<close>

definition bset_index :: "('a, 'f) deps \<Rightarrow> ('a, 'f) btree_set \<Rightarrow> nat \<Rightarrow> 'a res" where
  "bset_index D s i = rbind (bset_get_index D s i) unwrap"

section \<open>Insertion\<close>

definition bset_insert_at ::
  "('a, 'f) deps \<Rightarrow> ('a \<Rightarrow> 'k::linorder) \<Rightarrow> ('a, 'f) btree_set \<Rightarrow> nat \<Rightarrow> 'a \<Rightarrow>
     (bool \<times> ('a, 'f) btree_set) res" where
  "bset_insert_at D k s node_idx v =
     rbind (vec_index (inner s) node_idx) (\<lambda>node.
     if length node = node_capacity s then
       rbind (node_halve node) (\<lambda>(old_node, new_node).
       rbind (vec_index new_node 0) (\<lambda>new_first.
       let insert_node_idx = (if k new_first \<le> k v then node_idx + 1 else node_idx) in
       rbind (vec_insert ((inner s)[node_idx := old_node]) (node_idx + 1) new_node) (\<lambda>inner1.
       rbind (vec_index inner1 insert_node_idx) (\<lambda>target.
       rbind (node_insert (dep_search D) k target v) (\<lambda>((inserted, _), target').
       let inner2 = inner1[insert_node_idx := target'] in
       if inserted then
         Inr (True, s\<lparr> inner := inner2, index := rebuild_index D inner2, len := len s + 1 \<rparr>)
       else
         Inr (False, s\<lparr> inner := inner2, index := rebuild_index D inner2 \<rparr>))))))
     else
       rbind (node_insert (dep_search D) k node v) (\<lambda>((inserted, _), node').
       if inserted then
         rbind (ft_add_at (dep_ftree D) (index s) node_idx 1) (\<lambda>index'.
         Inr (True, s\<lparr> inner := (inner s)[node_idx := node'], index := index', len := len s + 1 \<rparr>))
       else
         Inr (False, s\<lparr> inner := (inner s)[node_idx := node'] \<rparr>)))"

definition bset_insert ::
  "('a, 'f) deps \<Rightarrow> ('a \<Rightarrow> 'k::linorder) \<Rightarrow> ('a, 'f) btree_set \<Rightarrow> 'a \<Rightarrow>
     (bool \<times> ('a, 'f) btree_set) res" where
  "bset_insert D k s v = bset_insert_at D k s (bset_locate_node k s (k v)) v"

section \<open>Deletion\<close>

definition bset_delete_at ::
  "('a, 'f) deps \<Rightarrow> ('a, 'f) btree_set \<Rightarrow> nat \<Rightarrow> nat \<Rightarrow> ('a \<times> ('a, 'f) btree_set) res" where
  "bset_delete_at D s node_idx position =
     rbind (vec_index (inner s) node_idx) (\<lambda>node.
     rbind (vec_remove node position) (\<lambda>(removal, node').
     let inner1 = (inner s)[node_idx := node'] in
     if node' = [] \<and> length inner1 > 1 then
       rbind (vec_remove inner1 node_idx) (\<lambda>(_, inner2).
       rbind (usize_sub (len s) 1) (\<lambda>len'.
       Inr (removal, s\<lparr> inner := inner2, len := len', index := rebuild_index D inner2 \<rparr>)))
     else
       rbind (ft_sub_at (dep_ftree D) (index s) node_idx 1) (\<lambda>index'.
       rbind (usize_sub (len s) 1) (\<lambda>len'.
       Inr (removal, s\<lparr> inner := inner1, index := index', len := len' \<rparr>)))))"

definition bset_delete ::
  "('a, 'f) deps \<Rightarrow> ('a \<Rightarrow> 'q::linorder) \<Rightarrow> ('a, 'f) btree_set \<Rightarrow> 'q \<Rightarrow>
     (('a option \<times> bool) \<times> ('a, 'f) btree_set) res" where
  "bset_delete D b s v =
     rbind (bset_locate_value b s v) (\<lambda>(node_idx, position).
     case vec_get (inner s) node_idx of
       Some candidate_node \<Rightarrow> (case vec_get candidate_node position of
           Some candidate_value \<Rightarrow>
             if v = b candidate_value then
               rbind (bset_delete_at D s node_idx position) (\<lambda>(x, s'). Inr ((Some x, True), s'))
             else Inr ((None, False), s)
         | None \<Rightarrow> Inr ((None, False), s))
     | None \<Rightarrow> Inr ((None, False), s))"

definition bset_delete_cmp ::
  "('a, 'f) deps \<Rightarrow> ('a \<Rightarrow> bool) \<Rightarrow> ('a \<Rightarrow> bool) \<Rightarrow> ('a, 'f) btree_set \<Rightarrow>
     (('a option \<times> bool) \<times> ('a, 'f) btree_set) res" where
  "bset_delete_cmp D cmp cmp2 s =
     rbind (bset_find_cmp cmp cmp2 s) (\<lambda>entry. case entry of
        Exist node_idx position \<Rightarrow>
          rbind (bset_delete_at D s node_idx position) (\<lambda>(x, s'). Inr ((Some x, True), s'))
      | Empty _ \<Rightarrow> Inr ((None, False), s))"

definition bset_remove ::
  "('a, 'f) deps \<Rightarrow> ('a \<Rightarrow> 'q::linorder) \<Rightarrow> ('a, 'f) btree_set \<Rightarrow> 'q \<Rightarrow>
     (bool \<times> ('a, 'f) btree_set) res" where
  "bset_remove D b s v = rbind (bset_delete D b s v) (\<lambda>((_, removed), s'). Inr (removed, s'))"

definition bset_take ::
  "('a, 'f) deps \<Rightarrow> ('a \<Rightarrow> 'q::linorder) \<Rightarrow> ('a, 'f) btree_set \<Rightarrow> 'q \<Rightarrow>
     ('a option \<times> ('a, 'f) btree_set) res" where
  "bset_take D b s v = rbind (bset_delete D b s v) (\<lambda>((removal, _), s'). Inr (removal, s'))"

definition bset_replace ::
  "('a, 'f) deps \<Rightarrow> ('a \<Rightarrow> 'k::linorder) \<Rightarrow> ('a, 'f) btree_set \<Rightarrow> 'a \<Rightarrow>
     ('a option \<times> ('a, 'f) btree_set) res" where
  "bset_replace D k s v =
     rbind (bset_take D k s (k v)) (\<lambda>(replaced, s1).
     rbind (bset_insert D k s1 v) (\<lambda>(_, s2). Inr (replaced, s2)))"

definition bset_pop_first ::
  "('a, 'f) deps \<Rightarrow> ('a, 'f) btree_set \<Rightarrow> ('a option \<times> ('a, 'f) btree_set) res" where
  "bset_pop_first D s =
     (case vec_get (inner s) 0 of
        Some node \<Rightarrow> (case vec_get node 0 of
            Some _ \<Rightarrow> rbind (bset_delete_at D s 0 0) (\<lambda>(x, s'). Inr (Some x, s'))
          | None \<Rightarrow> Inr (None, s))
      | None \<Rightarrow> Inr (None, s))"

definition bset_pop_index ::
  "('a, 'f) deps \<Rightarrow> ('a, 'f) btree_set \<Rightarrow> nat \<Rightarrow> ('a \<times> ('a, 'f) btree_set) res" where
  "bset_pop_index D s idx =
     rbind (bset_locate_ith D s idx) (\<lambda>(node_idx, position). bset_delete_at D s node_idx position)"

definition bset_pop_last ::
  "('a, 'f) deps \<Rightarrow> ('a, 'f) btree_set \<Rightarrow> ('a option \<times> ('a, 'f) btree_set) res" where
  "bset_pop_last D s =
     rbind (usize_sub (length (inner s)) 1) (\<lambda>last_node_idx.
     rbind (vec_index (inner s) last_node_idx) (\<lambda>last_node.
     let last_position = length last_node - 1 in
     case vec_get (inner s) last_node_idx of
       Some candidate_node \<Rightarrow> (case vec_get candidate_node last_position of
           Some _ \<Rightarrow>
             rbind (bset_delete_at D s last_node_idx last_position) (\<lambda>(x, s'). Inr (Some x, s'))
         | None \<Rightarrow> Inr (None, s))
     | None \<Rightarrow> Inr (None, s)))"

text \<open>
  \<open>retain\<close> first scans all nodes with the caller's \<open>FnMut\<close>, whose state \<open>'st\<close> is threaded in
  visiting order, collecting the positions to delete; then it deletes them from the back.
\<close>

fun retain_scan_node ::
  "('st \<Rightarrow> 'a \<Rightarrow> bool \<times> 'st) \<Rightarrow> 'st \<Rightarrow> nat \<Rightarrow> nat \<Rightarrow> 'a list \<Rightarrow> (nat \<times> nat) list \<times> 'st" where
  "retain_scan_node f st node_idx position [] = ([], st)"
| "retain_scan_node f st node_idx position (x # xs) =
     (let (keep, st1) = f st x; (ps, st2) = retain_scan_node f st1 node_idx (Suc position) xs
      in (if keep then ps else (node_idx, position) # ps, st2))"

fun retain_scan ::
  "('st \<Rightarrow> 'a \<Rightarrow> bool \<times> 'st) \<Rightarrow> 'st \<Rightarrow> nat \<Rightarrow> 'a list list \<Rightarrow> (nat \<times> nat) list \<times> 'st" where
  "retain_scan f st node_idx [] = ([], st)"
| "retain_scan f st node_idx (n # ns) =
     (let (ps, st1) = retain_scan_node f st node_idx 0 n; (qs, st2) = retain_scan f st1 (Suc node_idx) ns
      in (ps @ qs, st2))"

fun bset_delete_positions ::
  "('a, 'f) deps \<Rightarrow> ('a, 'f) btree_set \<Rightarrow> (nat \<times> nat) list \<Rightarrow> ('a, 'f) btree_set res" where
  "bset_delete_positions D s [] = Inr s"
| "bset_delete_positions D s ((i, j) # ps) =
     rbind (bset_delete_at D s i j) (\<lambda>(_, s'). bset_delete_positions D s' ps)"

definition bset_retain ::
  "('a, 'f) deps \<Rightarrow> ('st \<Rightarrow> 'a \<Rightarrow> bool \<times> 'st) \<Rightarrow> 'st \<Rightarrow> ('a, 'f) btree_set \<Rightarrow>
     (('a, 'f) btree_set \<times> 'st) res" where
  "bset_retain D f st s =
     (let (positions, st') = retain_scan f st 0 (inner s) in
      rbind (bset_delete_positions D s (rev positions)) (\<lambda>s'. Inr (s', st')))"

section \<open>Splitting and joining\<close>

text \<open>\<open>while self.inner.len() > n { remaining.push(self.inner.pop().unwrap()) }\<close>\<close>

function drain_back :: "nat \<Rightarrow> 'n list \<Rightarrow> 'n list \<Rightarrow> 'n list \<times> 'n list" where
  "drain_back n xs remaining =
     (if length xs > n then drain_back n (butlast xs) (remaining @ [last xs]) else (xs, remaining))"
  by pat_completeness auto
termination
  by (relation "measure (\<lambda>(n, xs, remaining). length xs)") auto

declare drain_back.simps [simp del]

definition bset_split_at ::
  "('a, 'f) deps \<Rightarrow> ('a, 'f) btree_set \<Rightarrow> nat \<Rightarrow> nat \<Rightarrow>
     (('a, 'f) btree_set \<times> ('a, 'f) btree_set) res" where
  "bset_split_at D s node_idx position =
     rbind (vec_index (inner s) node_idx) (\<lambda>node.
     rbind (vec_split_off node position) (\<lambda>(kept, first_node).
     let (inner1, popped) = drain_back (node_idx + 1) ((inner s)[node_idx := kept]) [];
         remaining_nodes = first_node # rev popped;
         latter_half = (bset_default D)\<lparr> len := sum_list (map length remaining_nodes),
           inner := remaining_nodes, index := rebuild_index D remaining_nodes \<rparr>
     in
     rbind (vec_index inner1 node_idx) (\<lambda>front.
     rbind (if front = [] \<and> length inner1 > 1
            then rbind (vec_remove inner1 node_idx) (\<lambda>(_, ns). Inr ns) else Inr inner1) (\<lambda>inner2.
     Inr (latter_half, s\<lparr> inner := inner2, index := rebuild_index D inner2,
                         len := sum_list (map length inner2) \<rparr>)))))"

definition bset_split_off_cmp ::
  "('a, 'f) deps \<Rightarrow> ('a \<Rightarrow> bool) \<Rightarrow> ('a, 'f) btree_set \<Rightarrow>
     (('a, 'f) btree_set \<times> ('a, 'f) btree_set) res" where
  "bset_split_off_cmp D cmp s =
     rbind (bset_locate_value_cmp cmp s) (\<lambda>(node_idx, position). bset_split_at D s node_idx position)"

definition bset_split_off ::
  "('a, 'f) deps \<Rightarrow> ('a \<Rightarrow> 'q::linorder) \<Rightarrow> ('a, 'f) btree_set \<Rightarrow> 'q \<Rightarrow>
     (('a, 'f) btree_set \<times> ('a, 'f) btree_set) res" where
  "bset_split_off D b s v =
     rbind (bset_locate_value b s v) (\<lambda>(node_idx, position). bset_split_at D s node_idx position)"

fun bset_insert_all ::
  "('a, 'f) deps \<Rightarrow> ('a \<Rightarrow> 'k::linorder) \<Rightarrow> ('a, 'f) btree_set \<Rightarrow> 'a list \<Rightarrow> ('a, 'f) btree_set res" where
  "bset_insert_all D k s [] = Inr s"
| "bset_insert_all D k s (x # xs) =
     rbind (bset_insert D k s x) (\<lambda>(_, s'). bset_insert_all D k s' xs)"

definition bset_from_iter ::
  "('a, 'f) deps \<Rightarrow> ('a \<Rightarrow> 'k::linorder) \<Rightarrow> 'a list \<Rightarrow> ('a, 'f) btree_set res" where
  "bset_from_iter D k xs = bset_insert_all D k (bset_new D) xs"

definition bset_from_array ::
  "('a, 'f) deps \<Rightarrow> ('a \<Rightarrow> 'k::linorder) \<Rightarrow> 'a list \<Rightarrow> ('a, 'f) btree_set res" where
  "bset_from_array D k xs = bset_insert_all D k (bset_default D) xs"

text \<open>
  \<open>append\<close> pops the other set until it is empty. Each pop removes an element from the nodes of
  \<open>other\<close>, whatever its state, so the loop ends.
\<close>

lemma delete_at_inner:
  assumes "bset_delete_at D s i j = Inr (x, s')" and "ns = inner s"
    and "n = take j (ns ! i) @ drop (Suc j) (ns ! i)"
  shows "i < length ns" "j < length (ns ! i)"
    "inner s' = ns[i := n] \<or> n = [] \<and> inner s' = take i ns @ drop (Suc i) ns"
proof -
  show ij: "i < length ns" "j < length (ns ! i)"
    using assms by (auto simp: bset_delete_at_def rbind_eq_Inr vec_index_def vec_remove_def split: if_splits)
  then show "inner s' = ns[i := n] \<or> n = [] \<and> inner s' = take i ns @ drop (Suc i) ns"
    using assms by (auto simp: bset_delete_at_def rbind_eq_Inr Let_def split: if_splits)
qed

lemma delete_at_shrinks:
  assumes "bset_delete_at D s i j = Inr (x, s')"
  shows "length (concat (inner s')) < length (concat (inner s))"
proof -
  let ?ns = "inner s"
  let ?n = "take j (?ns ! i) @ drop (Suc j) (?ns ! i)"
  note di = delete_at_inner [OF assms refl refl]
  have "?n = [] \<Longrightarrow> concat (take i ?ns @ drop (Suc i) ?ns) = concat (?ns[i := ?n])"
    by (simp only: spine_update [OF di(1)]) simp
  then have "concat (inner s') = concat (?ns[i := ?n])"
    using di(3) by metis
  then show ?thesis
    using spine_nth(2) [OF di(1,2)] by (simp add: spine_remove [OF di(1,2)])
qed

lemma pop_first_shrinks:
  "bset_pop_first D s = Inr (Some x, s') \<Longrightarrow> length (concat (inner s')) < length (concat (inner s))"
  by (auto simp: bset_pop_first_def rbind_eq_Inr split: option.splits dest: delete_at_shrinks)

function bset_append ::
  "('a, 'f) deps \<Rightarrow> ('a \<Rightarrow> 'k::linorder) \<Rightarrow> ('a, 'f) btree_set \<Rightarrow> ('a, 'f) btree_set \<Rightarrow>
     (('a, 'f) btree_set \<times> ('a, 'f) btree_set) res" where
  "bset_append D k s other =
     rbind (bset_pop_first D other) (\<lambda>(popped, other').
     case popped of
       Some v \<Rightarrow> rbind (bset_replace D k s v) (\<lambda>(_, s'). bset_append D k s' other')
     | None \<Rightarrow> Inr (s, other'))"
  by pat_completeness auto
termination
  by (relation "measure (\<lambda>(D, k, s, other). length (concat (inner other)))")
    (auto dest: pop_first_shrinks)

declare bset_append.simps [simp del]

end
