(* ===== verification/Iterators.thy ===== *)
theory Iterators
  imports Prelude
begin

text \<open>
  The contract of \<open>Iterator\<close> and \<open>DoubleEndedIterator\<close> as two locales: a step function, the list
  of elements still to come and the states on which the contract holds. Clients collect an
  iterator or call it from both ends in any order; what they see is proved once, here, and
  interpreted on every iterator of the crate.
\<close>

section \<open>Clients of iterators\<close>

type_synonym ('s, 'x) step_fn = "'s \<Rightarrow> ('x option \<times> 's) res"

text \<open>
  A \<open>for\<close> loop over an iterator: call \<open>next\<close> until it returns \<open>None\<close>. The fuel bounds the number
  of calls; running out of it is the value \<open>None\<close>, a panic inside \<open>next\<close> is \<open>Inl\<close>.
\<close>

fun collect :: "('s, 'x) step_fn \<Rightarrow> nat \<Rightarrow> 's \<Rightarrow> 'x list option res" where
  "collect nxt 0 s = Inr None"
| "collect nxt (Suc n) s =
     rbind (nxt s) (\<lambda>(r, s'). case r of
        None \<Rightarrow> Inr (Some [])
      | Some x \<Rightarrow> rbind (collect nxt n s') (\<lambda>xs. Inr (map_option ((#) x) xs)))"

text \<open>Calls from both ends in the order of a script: \<open>True\<close> is \<open>next\<close>, \<open>False\<close> is \<open>next_back\<close>.\<close>

fun calls :: "('s, 'x) step_fn \<Rightarrow> ('s, 'x) step_fn \<Rightarrow> bool list \<Rightarrow> 's \<Rightarrow> 'x option list res" where
  "calls nxt nxt_back [] s = Inr []"
| "calls nxt nxt_back (b # bs) s =
     rbind ((if b then nxt else nxt_back) s) (\<lambda>(r, s').
     rbind (calls nxt nxt_back bs s') (\<lambda>rs. Inr (r # rs)))"

text \<open>The same script on a plain list.\<close>

fun deque_calls :: "bool list \<Rightarrow> 'x list \<Rightarrow> 'x option list" where
  "deque_calls [] xs = []"
| "deque_calls (b # bs) xs =
     (if b then vec_first xs # deque_calls bs (tl xs) else vec_last xs # deque_calls bs (butlast xs))"

text \<open>An adapter that projects: \<open>if let Some(entry) = inner.next() { return Some(g(entry)) } None\<close>.\<close>

definition map_item :: "('x \<Rightarrow> 'y) \<Rightarrow> ('s, 'x) step_fn \<Rightarrow> ('s, 'y) step_fn" where
  "map_item g nxt s = rbind (nxt s) (\<lambda>(x, s'). Inr (map_option g x, s'))"

section \<open>The contracts\<close>

locale iterator =
  fixes nxt :: "('s, 'x) step_fn"
    and rest :: "'s \<Rightarrow> 'x list"
    and ok :: "'s \<Rightarrow> bool"
  assumes next_step: "ok s \<Longrightarrow> \<exists>s'. nxt s = Inr (vec_first (rest s), s') \<and> ok s' \<and> rest s' = tl (rest s)"

locale double_ended = iterator +
  fixes nxt_back :: "('s, 'x) step_fn"
  assumes next_back_step:
    "ok s \<Longrightarrow> \<exists>s'. nxt_back s = Inr (vec_last (rest s), s') \<and> ok s' \<and> rest s' = butlast (rest s)"

context iterator
begin

text \<open>Collecting with enough fuel gives the elements to come.\<close>

lemma collect_rest:
  assumes "ok s" and "length (rest s) < n"
  shows "collect nxt n s = Inr (Some (rest s))"
  using assms
proof (induction n arbitrary: s)
  case (Suc n)
  obtain s' where s': "nxt s = Inr (vec_first (rest s), s')" "ok s'" "rest s' = tl (rest s)"
    using next_step [OF Suc.prems(1)] by blast
  then show ?case
    using Suc.IH [OF s'(2)] Suc.prems(2) by (cases "rest s") auto
qed simp

text \<open>An exhausted iterator stays exhausted.\<close>

lemma fused:
  assumes "ok s" and "rest s = []"
  shows "\<exists>s'. nxt s = Inr (None, s') \<and> ok s' \<and> rest s' = []"
  using next_step [OF assms(1)] assms(2) by auto

end

context double_ended
begin

lemma calls_deque:
  assumes "ok s"
  shows "calls nxt nxt_back bs s = Inr (deque_calls bs (rest s))"
  using assms
proof (induction bs arbitrary: s)
  case (Cons b bs)
  show ?case
  proof (cases b)
    case True
    obtain s' where "nxt s = Inr (vec_first (rest s), s')" "ok s'" "rest s' = tl (rest s)"
      using next_step [OF Cons.prems] by blast
    then show ?thesis
      using Cons.IH [of s'] True by simp
  next
    case False
    obtain s' where "nxt_back s = Inr (vec_last (rest s), s')" "ok s'" "rest s' = butlast (rest s)"
      using next_back_step [OF Cons.prems] by blast
    then show ?thesis
      using Cons.IH [of s'] False by simp
  qed
qed simp

end

text \<open>Projecting keeps both contracts.\<close>

lemma map_option_ends:
  "map_option g (vec_first xs) = vec_first (map g xs)" "map_option g (vec_last xs) = vec_last (map g xs)"
  by (cases xs; simp) (cases xs rule: rev_cases; simp)

context iterator
begin

lemma map_item_iterator: "iterator (map_item g nxt) (\<lambda>s. map g (rest s)) ok"
proof
  fix s
  assume "ok s"
  then show "\<exists>s'. map_item g nxt s = Inr (vec_first (map g (rest s)), s') \<and> ok s' \<and>
      map g (rest s') = tl (map g (rest s))"
    using next_step [of s] by (auto simp: map_item_def map_option_ends map_tl)
qed

end

context double_ended
begin

lemma map_item_double_ended:
  "double_ended (map_item g nxt) (\<lambda>s. map g (rest s)) ok (map_item g nxt_back)"
proof (rule double_ended.intro [OF map_item_iterator], unfold_locales)
  fix s
  assume "ok s"
  then show "\<exists>s'. map_item g nxt_back s = Inr (vec_last (map g (rest s)), s') \<and> ok s' \<and>
      map g (rest s') = butlast (map g (rest s))"
    using next_back_step [of s] by (auto simp: map_item_def map_option_ends map_butlast)
qed

end

sublocale double_ended \<subseteq> reversed: iterator nxt_back "\<lambda>s. rev (rest s)" ok
proof
  fix s
  assume "ok s"
  then obtain s' where "nxt_back s = Inr (vec_last (rest s), s')" "ok s'" "rest s' = butlast (rest s)"
    using next_back_step by blast
  then show "\<exists>s'. nxt_back s = Inr (vec_first (rev (rest s)), s') \<and> ok s' \<and> rev (rest s') = tl (rev (rest s))"
    by (cases "rest s" rule: rev_cases) auto
qed

declare collect.simps(2) [simp del]

end
