(* ===== verification/Btree_Set_Iter.thy ===== *)
theory Btree_Set_Iter
  imports Btree_Set Iterators
begin

text \<open>
  \<open>src/lib.rs\<close>: iteration over a \<open>BTreeSet\<close>. The double-ended \<open>Iter\<close> with its two slice
  iterators and two global counters, the owning \<open>IntoIter\<close>, index and value ranges, the merging
  iterators of the set algebra and the \<open>Cursor\<close>. A \<open>slice::Iter\<close> is the list of elements it has
  left. An iterator borrows its tree, so the tree is a field.
\<close>

section \<open>Iter\<close>

record ('a, 'f) iter =
  it_btree :: "('a, 'f) btree_set"
  front_node_idx :: nat
  front_idx :: nat
  back_node_idx :: nat
  back_idx :: nat
  front_iterator :: "'a list option"
  back_iterator :: "'a list option"

definition bset_iter :: "('a, 'f) btree_set \<Rightarrow> ('a, 'f) iter res" where
  "bset_iter s =
     rbind (usize_sub (length (inner s)) 1) (\<lambda>last_idx.
     rbind (vec_index (inner s) 0) (\<lambda>first_node.
     rbind (vec_index (inner s) last_idx) (\<lambda>last_node.
     Inr \<lparr> it_btree = s, front_node_idx = 0, front_idx = 0, back_node_idx = last_idx,
          back_idx = bset_len s, front_iterator = Some first_node, back_iterator = Some last_node \<rparr>)))"

text \<open>\<open>slice::Iter::next\<close> and \<open>next_back\<close> behind \<open>as_mut().and_then(..)\<close>.\<close>

definition slice_next :: "'a list option \<Rightarrow> ('a \<times> 'a list) option" where
  "slice_next it = (case it of Some (x # xs) \<Rightarrow> Some (x, xs) | _ \<Rightarrow> None)"

definition slice_next_back :: "'a list option \<Rightarrow> ('a \<times> 'a list) option" where
  "slice_next_back it = (case it of
      Some xs \<Rightarrow> if xs = [] then None else Some (last xs, butlast xs)
    | None \<Rightarrow> None)"

function iter_next :: "('a, 'f) iter \<Rightarrow> ('a option \<times> ('a, 'f) iter) res" where
  "iter_next it =
     (if front_idx it = back_idx it then Inr (None, it)
      else case slice_next (front_iterator it) of
        Some (value, rest) \<Rightarrow>
          Inr (Some value, it\<lparr> front_iterator := Some rest, front_idx := front_idx it + 1 \<rparr>)
      | None \<Rightarrow>
          (let it1 = it\<lparr> front_node_idx := front_node_idx it + 1 \<rparr> in
           if front_node_idx it1 \<ge> length (inner (it_btree it1)) then Inr (None, it1)
           else iter_next
             (it1\<lparr> front_iterator := Some (inner (it_btree it1) ! front_node_idx it1) \<rparr>)))"
  by pat_completeness auto
termination
  by (relation "measure (\<lambda>it. length (inner (it_btree it)) - front_node_idx it)") auto

declare iter_next.simps [simp del]

function iter_next_back :: "('a, 'f) iter \<Rightarrow> ('a option \<times> ('a, 'f) iter) res" where
  "iter_next_back it =
     (if front_idx it = back_idx it then Inr (None, it)
      else case slice_next_back (back_iterator it) of
        Some (value, rest) \<Rightarrow>
          rbind (usize_sub (back_idx it) 1) (\<lambda>back_idx'.
          Inr (Some value, it\<lparr> back_iterator := Some rest, back_idx := back_idx' \<rparr>))
      | None \<Rightarrow>
          (if back_node_idx it = 0 then Inr (None, it)
           else let it1 = it\<lparr> back_node_idx := back_node_idx it - 1 \<rparr> in
             rbind (vec_index (inner (it_btree it1)) (back_node_idx it1)) (\<lambda>node.
             iter_next_back (it1\<lparr> back_iterator := Some node \<rparr>))))"
  by pat_completeness auto
termination
  by (relation "measure back_node_idx") auto

declare iter_next_back.simps [simp del]

section \<open>IntoIter\<close>

record ('a, 'f) into_iter =
  into_btree :: "('a, 'f) btree_set"

definition bset_into_iter :: "('a, 'f) btree_set \<Rightarrow> ('a, 'f) into_iter" where
  "bset_into_iter s = \<lparr> into_btree = s \<rparr>"

definition into_iter_next ::
  "('a, 'f) deps \<Rightarrow> ('a, 'f) into_iter \<Rightarrow> ('a option \<times> ('a, 'f) into_iter) res" where
  "into_iter_next D it =
     rbind (bset_pop_first D (into_btree it)) (\<lambda>(x, s). Inr (x, it\<lparr> into_btree := s \<rparr>))"

definition into_iter_next_back ::
  "('a, 'f) deps \<Rightarrow> ('a, 'f) into_iter \<Rightarrow> ('a option \<times> ('a, 'f) into_iter) res" where
  "into_iter_next_back D it =
     rbind (bset_pop_last D (into_btree it)) (\<lambda>(x, s). Inr (x, it\<lparr> into_btree := s \<rparr>))"

section \<open>Ranges\<close>

definition resolve_range ::
  "('a, 'f) deps \<Rightarrow> ('a, 'f) btree_set \<Rightarrow> nat bound \<Rightarrow> nat bound \<Rightarrow>
     ((nat \<times> nat \<times> nat) \<times> (nat \<times> nat \<times> nat)) res" where
  "resolve_range D s start stop =
     rbind (ft_prefix_sum (dep_ftree D) (index s) (length (inner s)) 0) (\<lambda>total.
     let global_front_idx = (case start of Included b \<Rightarrow> b | Excluded b \<Rightarrow> b + 1 | Unbounded \<Rightarrow> 0) in
     rbind (case stop of Included b \<Rightarrow> Inr b | Excluded b \<Rightarrow> usize_sub b 1 | Unbounded \<Rightarrow> Inr (total - 1))
       (\<lambda>global_back_idx.
     rbind (bset_locate_ith D s global_front_idx) (\<lambda>(front_node, front_start).
     rbind (bset_locate_ith D s global_back_idx) (\<lambda>(back_node, back_start).
     Inr ((global_front_idx, front_node, front_start), (global_back_idx, back_node, back_start))))))"

definition slice_from :: "'a list \<Rightarrow> nat \<Rightarrow> 'a list res" where
  "slice_from xs i = (if i \<le> length xs then Inr (drop i xs) else Inl SliceOutOfRange)"

definition slice_to_inclusive :: "'a list \<Rightarrow> nat \<Rightarrow> 'a list res" where
  "slice_to_inclusive xs i = (if i < length xs then Inr (take (Suc i) xs) else Inl SliceOutOfRange)"

record ('a, 'f) range =
  spine_iter :: "('a, 'f) iter"

definition bset_range_idx ::
  "('a, 'f) deps \<Rightarrow> ('a, 'f) btree_set \<Rightarrow> nat bound \<Rightarrow> nat bound \<Rightarrow> ('a, 'f) range res" where
  "bset_range_idx D s start stop =
     rbind (resolve_range D s start stop)
       (\<lambda>((global_front_idx, front_node, front_start), (global_back_idx, back_node, back_start)).
     rbind (if front_node < length (inner s)
            then rbind (slice_from (inner s ! front_node) front_start) (\<lambda>xs. Inr (Some xs))
            else Inr None) (\<lambda>front_iter.
     rbind (if back_node < length (inner s)
            then rbind (slice_to_inclusive (inner s ! back_node) back_start) (\<lambda>xs. Inr (Some xs))
            else Inr None) (\<lambda>back_iter.
     Inr \<lparr> spine_iter = \<lparr> it_btree = s, front_node_idx = front_node, front_idx = global_front_idx,
          back_node_idx = back_node, back_idx = global_back_idx + 1,
          front_iterator = front_iter, back_iterator = back_iter \<rparr> \<rparr>)))"

definition bset_range ::
  "('a, 'f) deps \<Rightarrow> ('a \<Rightarrow> 'q::linorder) \<Rightarrow> ('a, 'f) btree_set \<Rightarrow> 'q bound \<Rightarrow> 'q bound \<Rightarrow>
     ('a, 'f) range res" where
  "bset_range D b s start stop =
     rbind (case start of
         Included v \<Rightarrow> bset_rank D b s v
       | Excluded v \<Rightarrow> rbind (bset_rank D b s v) (\<lambda>r. Inr (r + 1))
       | Unbounded \<Rightarrow> Inr 0) (\<lambda>start_idx.
     rbind (case stop of
         Included v \<Rightarrow> bset_rank D b s v
       | Excluded v \<Rightarrow> rbind (bset_rank D b s v) (\<lambda>r. Inr (r - 1))
       | Unbounded \<Rightarrow> Inr (bset_len s - 1)) (\<lambda>end_idx.
     bset_range_idx D s (Included start_idx) (Included end_idx)))"

definition range_next :: "('a, 'f) range \<Rightarrow> ('a option \<times> ('a, 'f) range) res" where
  "range_next r = rbind (iter_next (spine_iter r)) (\<lambda>(x, it). Inr (x, r\<lparr> spine_iter := it \<rparr>))"

definition range_next_back :: "('a, 'f) range \<Rightarrow> ('a option \<times> ('a, 'f) range) res" where
  "range_next_back r =
     rbind (iter_next_back (spine_iter r)) (\<lambda>(x, it). Inr (x, r\<lparr> spine_iter := it \<rparr>))"

section \<open>Set algebra\<close>

record ('a, 'f) merge_iter =
  m_start :: bool
  left_iter :: "('a, 'f) iter"
  current_left :: "'a option"
  right_iter :: "('a, 'f) iter"
  current_right :: "'a option"

definition advance_left :: "('a, 'f) merge_iter \<Rightarrow> ('a, 'f) merge_iter res" where
  "advance_left m =
     rbind (iter_next (left_iter m)) (\<lambda>(x, it). Inr (m\<lparr> current_left := x, left_iter := it \<rparr>))"

definition advance_right :: "('a, 'f) merge_iter \<Rightarrow> ('a, 'f) merge_iter res" where
  "advance_right m =
     rbind (iter_next (right_iter m)) (\<lambda>(x, it). Inr (m\<lparr> current_right := x, right_iter := it \<rparr>))"

definition merge_next ::
  "('a \<Rightarrow> 'k::linorder) \<Rightarrow> ('a, 'f) merge_iter \<Rightarrow>
     (('a option \<times> 'a option) option \<times> ('a, 'f) merge_iter) res" where
  "merge_next k m =
     (let emit = (\<lambda>m'. Inr (Some (current_left m', current_right m'), m')) in
      if \<not> m_start m then
        (case current_left m of
           Some left \<Rightarrow> (case current_right m of
               Some right \<Rightarrow> (case compare (k left) (k right) of
                   Less \<Rightarrow> rbind (advance_left m) emit
                 | Equal \<Rightarrow> rbind (advance_left m) (\<lambda>m1. rbind (advance_right m1) emit)
                 | Greater \<Rightarrow> rbind (advance_right m) emit)
             | None \<Rightarrow> rbind (advance_left m) emit)
         | None \<Rightarrow>
             if current_right m \<noteq> None then rbind (advance_right m) emit else Inr (None, m))
      else
        rbind (advance_left m) (\<lambda>m1. rbind (advance_right m1) (\<lambda>m2. emit (m2\<lparr> m_start := False \<rparr>))))"

definition new_merge_iter ::
  "('a, 'f) btree_set \<Rightarrow> ('a, 'f) btree_set \<Rightarrow> ('a, 'f) merge_iter res" where
  "new_merge_iter s other =
     rbind (bset_iter s) (\<lambda>l. rbind (bset_iter other) (\<lambda>r.
     Inr \<lparr> m_start = True, left_iter = l, current_left = None, right_iter = r, current_right = None \<rparr>))"

text \<open>The four lazy iterators hold one \<open>MergeIter\<close> each.\<close>

definition bset_union ::
  "('a, 'f) btree_set \<Rightarrow> ('a, 'f) btree_set \<Rightarrow> ('a, 'f) merge_iter res" where
  "bset_union s other = new_merge_iter s other"

definition bset_difference ::
  "('a, 'f) btree_set \<Rightarrow> ('a, 'f) btree_set \<Rightarrow> ('a, 'f) merge_iter res" where
  "bset_difference s other = new_merge_iter s other"

definition bset_symmetric_difference ::
  "('a, 'f) btree_set \<Rightarrow> ('a, 'f) btree_set \<Rightarrow> ('a, 'f) merge_iter res" where
  "bset_symmetric_difference s other = new_merge_iter s other"

definition bset_intersection ::
  "('a, 'f) btree_set \<Rightarrow> ('a, 'f) btree_set \<Rightarrow> ('a, 'f) merge_iter res" where
  "bset_intersection s other = new_merge_iter s other"

definition union_next ::
  "('a \<Rightarrow> 'k::linorder) \<Rightarrow> ('a, 'f) merge_iter \<Rightarrow> ('a option \<times> ('a, 'f) merge_iter) res" where
  "union_next k m =
     rbind (merge_next k m) (\<lambda>(p, m'). Inr (case p of
        Some (Some left, Some right) \<Rightarrow> if k right < k left then Some right else Some left
      | Some (Some left, None) \<Rightarrow> Some left
      | Some (None, Some right) \<Rightarrow> Some right
      | Some (None, None) \<Rightarrow> None
      | None \<Rightarrow> None, m'))"

text \<open>
  The \<open>loop\<close>s of the other three iterators end because each round that goes on takes an element
  from one of the two front iterators, or finds one exhausted.
\<close>

definition front_left :: "('a, 'f) iter \<Rightarrow> nat" where
  "front_left it = (case front_iterator it of Some xs \<Rightarrow> length xs | None \<Rightarrow> 0) +
     sum_list (map length (drop (Suc (front_node_idx it)) (inner (it_btree it))))"

definition merge_left :: "('a, 'f) merge_iter \<Rightarrow> nat" where
  "merge_left m = front_left (left_iter m) + front_left (right_iter m) +
     (if current_left m = None then 0 else 1) + (if current_right m = None then 0 else 1) +
     (if m_start m then 3 else 0)"

lemma iter_next_left:
  "iter_next it = Inr (r, it') \<Longrightarrow>
     front_left it' + (if r = None then 0 else 1) \<le> front_left it"
proof (induction it arbitrary: r it' rule: iter_next.induct)
  case (1 it)
  let ?ns = "inner (it_btree it)" and ?i = "front_node_idx it"
  show ?case
  proof (cases "front_idx it = back_idx it")
    case True
    then show ?thesis
      using "1.prems" by (subst (asm) iter_next.simps) auto
  next
    case neq: False
    show ?thesis
    proof (cases "slice_next (front_iterator it)")
      case (Some p)
      then show ?thesis
        using "1.prems" neq
        by (subst (asm) iter_next.simps)
          (auto simp: slice_next_def front_left_def split: option.splits list.splits)
    next
      case None
      have drop: "drop (Suc ?i) ?ns = ?ns ! Suc ?i # drop (Suc (Suc ?i)) ?ns" if "Suc ?i < length ?ns"
        using that by (simp add: Cons_nth_drop_Suc)
      show ?thesis
      proof (cases "length ?ns \<le> Suc ?i")
        case True
        then show ?thesis
          using "1.prems" neq None
          by (subst (asm) iter_next.simps) (auto simp: front_left_def)
      next
        case False
        let ?it1 = "it\<lparr> front_node_idx := Suc ?i, front_iterator := Some (?ns ! Suc ?i) \<rparr>"
        have "iter_next ?it1 = Inr (r, it')"
          using "1.prems" neq None False by (subst (asm) iter_next.simps) simp
        then have "front_left it' + (if r = None then 0 else 1) \<le> front_left ?it1"
          using "1.IH" [OF neq None refl] False by simp
        also have "\<dots> \<le> front_left it"
          using drop False by (simp add: front_left_def)
        finally show ?thesis .
      qed
    qed
  qed
qed

lemma merge_next_left: "merge_next k m = Inr (Some p, m') \<Longrightarrow> merge_left m' < merge_left m"
  by (auto simp: merge_next_def rbind_eq_Inr advance_left_def advance_right_def merge_left_def Let_def
      split: if_splits option.splits ordering.splits dest!: iter_next_left)

function difference_next ::
  "('a \<Rightarrow> 'k::linorder) \<Rightarrow> ('a, 'f) merge_iter \<Rightarrow> ('a option \<times> ('a, 'f) merge_iter) res" where
  "difference_next k m =
     rbind (merge_next k m) (\<lambda>(p, m'). case p of
        Some (Some left, Some right) \<Rightarrow>
          if k left < k right then Inr (Some left, m') else difference_next k m'
      | Some (Some left, None) \<Rightarrow> Inr (Some left, m')
      | Some (None, _) \<Rightarrow> Inr (None, m')
      | None \<Rightarrow> Inr (None, m'))"
  by pat_completeness auto
termination
  by (relation "measure (\<lambda>(k, m). merge_left m)") (auto dest: merge_next_left)

declare difference_next.simps [simp del]

function symmetric_difference_next ::
  "('a \<Rightarrow> 'k::linorder) \<Rightarrow> ('a, 'f) merge_iter \<Rightarrow> ('a option \<times> ('a, 'f) merge_iter) res" where
  "symmetric_difference_next k m =
     rbind (merge_next k m) (\<lambda>(p, m'). case p of
        Some (Some left, Some right) \<Rightarrow>
          if k left < k right then Inr (Some left, m')
          else if k right < k left then Inr (Some right, m')
          else symmetric_difference_next k m'
      | Some (Some left, None) \<Rightarrow> Inr (Some left, m')
      | Some (None, Some right) \<Rightarrow> Inr (Some right, m')
      | Some (None, None) \<Rightarrow> Inr (None, m')
      | None \<Rightarrow> Inr (None, m'))"
  by pat_completeness auto
termination
  by (relation "measure (\<lambda>(k, m). merge_left m)") (auto dest: merge_next_left)

declare symmetric_difference_next.simps [simp del]

function intersection_next ::
  "('a \<Rightarrow> 'k::linorder) \<Rightarrow> ('a, 'f) merge_iter \<Rightarrow> ('a option \<times> ('a, 'f) merge_iter) res" where
  "intersection_next k m =
     rbind (merge_next k m) (\<lambda>(p, m'). case p of
        Some (Some left, Some right) \<Rightarrow>
          if k left = k right then Inr (Some left, m') else intersection_next k m'
      | Some (None, _) \<Rightarrow> Inr (None, m')
      | Some (_, None) \<Rightarrow> Inr (None, m')
      | None \<Rightarrow> Inr (None, m'))"
  by pat_completeness auto
termination
  by (relation "measure (\<lambda>(k, m). merge_left m)") (auto dest: merge_next_left)

declare intersection_next.simps [simp del]

definition bset_is_subset ::
  "('a \<Rightarrow> 'k::linorder) \<Rightarrow> ('a, 'f) btree_set \<Rightarrow> ('a, 'f) btree_set \<Rightarrow> bool res" where
  "bset_is_subset k s other =
     rbind (bset_difference s other) (\<lambda>m. rbind (difference_next k m) (\<lambda>(x, _). Inr (x = None)))"

definition bset_is_superset ::
  "('a \<Rightarrow> 'k::linorder) \<Rightarrow> ('a, 'f) btree_set \<Rightarrow> ('a, 'f) btree_set \<Rightarrow> bool res" where
  "bset_is_superset k s other =
     rbind (bset_difference other s) (\<lambda>m. rbind (difference_next k m) (\<lambda>(x, _). Inr (x = None)))"

definition bset_is_disjoint ::
  "('a \<Rightarrow> 'k::linorder) \<Rightarrow> ('a, 'f) btree_set \<Rightarrow> ('a, 'f) btree_set \<Rightarrow> bool res" where
  "bset_is_disjoint k s other =
     rbind (bset_intersection s other) (\<lambda>m. rbind (intersection_next k m) (\<lambda>(x, _). Inr (x = None)))"

section \<open>Cursor\<close>

record ('a, 'f) cursor =
  cursor_set :: "('a, 'f) btree_set"
  cursor_idx :: nat

definition cursor_move_next :: "('a, 'f) cursor \<Rightarrow> ('a, 'f) cursor" where
  "cursor_move_next c =
     (if cursor_idx c = bset_len (cursor_set c) then c\<lparr> cursor_idx := 0 \<rparr>
      else c\<lparr> cursor_idx := cursor_idx c + 1 \<rparr>)"

definition cursor_move_index :: "('a, 'f) cursor \<Rightarrow> nat \<Rightarrow> ('a, 'f) cursor" where
  "cursor_move_index c i = c\<lparr> cursor_idx := i \<rparr>"

definition cursor_move_prev :: "('a, 'f) cursor \<Rightarrow> ('a, 'f) cursor" where
  "cursor_move_prev c =
     (if cursor_idx c = 0 then c\<lparr> cursor_idx := bset_len (cursor_set c) \<rparr>
      else c\<lparr> cursor_idx := cursor_idx c - 1 \<rparr>)"

definition cursor_item :: "('a, 'f) deps \<Rightarrow> ('a, 'f) cursor \<Rightarrow> 'a option res" where
  "cursor_item D c = bset_get_index D (cursor_set c) (cursor_idx c)"

definition cursor_peek_next :: "('a, 'f) deps \<Rightarrow> ('a, 'f) cursor \<Rightarrow> 'a option res" where
  "cursor_peek_next D c =
     (if cursor_idx c = bset_len (cursor_set c) then Inr (bset_first (cursor_set c))
      else bset_get_index D (cursor_set c) (cursor_idx c + 1))"

definition cursor_peek_index :: "('a, 'f) deps \<Rightarrow> ('a, 'f) cursor \<Rightarrow> nat \<Rightarrow> 'a option res" where
  "cursor_peek_index D c i = bset_get_index D (cursor_set c) i"

definition cursor_peek_prev :: "('a, 'f) deps \<Rightarrow> ('a, 'f) cursor \<Rightarrow> 'a option res" where
  "cursor_peek_prev D c =
     (if cursor_idx c = 0 then Inr None else bset_get_index D (cursor_set c) (cursor_idx c - 1))"

end
