(* ===== verification/Btree_Set_Facts.thy ===== *)
theory Btree_Set_Facts
  imports Btree_Set
begin

text \<open>
  The library for \<open>BTreeSet\<close>: the representation invariant, the sorted list a set stands for,
  and one lemma per operation that says what it returns, what it does to that list and that it
  keeps the invariant. All of them are proved in the locale \<open>btree_deps\<close>, over any lawful search
  backend and any \<open>ftree\<close> that behaves as documented.
\<close>

section \<open>Abstraction and invariant\<close>

definition elems :: "('a, 'f) btree_set \<Rightarrow> 'a list" where
  "elems s = concat (inner s)"

definition bset_inv :: "('f \<Rightarrow> nat list) \<Rightarrow> ('a \<Rightarrow> 'k::linorder) \<Rightarrow> ('a, 'f) btree_set \<Rightarrow> bool" where
  "bset_inv slots k s \<longleftrightarrow> wf_spine (inner s) \<and> sorted_keys k (elems s) \<and>
     slots (index s) = map length (inner s) \<and> len s = length (elems s) \<and> 2 \<le> node_capacity s"

definition bset_bounded :: "('a, 'f) btree_set \<Rightarrow> bool" where
  "bset_bounded s \<longleftrightarrow> (\<forall>n\<in>set (inner s). length n \<le> node_capacity s)"

text \<open>What a mutating operation promises: new contents, the invariant, the node bound.\<close>

definition bset_step ::
  "('f \<Rightarrow> nat list) \<Rightarrow> ('a \<Rightarrow> 'k::linorder) \<Rightarrow> ('a, 'f) btree_set \<Rightarrow> 'a list \<Rightarrow> ('a, 'f) btree_set \<Rightarrow> bool"
  where
  "bset_step slots k s xs s' \<longleftrightarrow> elems s' = xs \<and> bset_inv slots k s' \<and>
     node_capacity s' = node_capacity s \<and> (bset_bounded s \<longrightarrow> bset_bounded s')"

lemma bset_invD:
  assumes "bset_inv slots k s"
  shows "wf_spine (inner s)" "sorted_keys k (elems s)" "slots (index s) = map length (inner s)"
    "len s = length (elems s)" "2 \<le> node_capacity s" "inner s \<noteq> []"
  using assms by (auto simp: bset_inv_def wf_spine_def)

lemma bset_stepD:
  assumes "bset_step slots k s xs s'"
  shows "elems s' = xs" "bset_inv slots k s'" "node_capacity s' = node_capacity s"
    "bset_bounded s \<Longrightarrow> bset_bounded s'"
  using assms by (auto simp: bset_step_def)

lemma bset_step_trans:
  "bset_step slots k s xs s' \<Longrightarrow> bset_step slots k s' ys s'' \<Longrightarrow> bset_step slots k s ys s''"
  by (auto simp: bset_step_def)

lemma bset_step_refl: "bset_inv slots k s \<Longrightarrow> bset_step slots k s (elems s) s"
  by (simp add: bset_step_def)

lemma length_elems: "length (elems s) = sum_list (map length (inner s))"
  by (simp add: elems_def length_concat)

locale btree_deps =
  search_backend "dep_search D" + fenwick_tree "dep_ftree D" slots
  for D :: "('a, 'f) deps" and slots :: "'f \<Rightarrow> nat list"

text \<open>The dependencies that witnesses evaluate: the crate's own search and the slot list.\<close>

definition ref_deps :: "('a, nat list) deps" where
  "ref_deps = \<lparr> dep_search = search, dep_ftree = slot_list \<rparr>"

interpretation ref: btree_deps ref_deps id
  by (simp add: btree_deps_def ref_deps_def custom.search_backend_axioms
      slot_list.fenwick_tree_axioms)

section \<open>Location\<close>

lemma locate_node_eq: "bset_locate_node b s v = spine_pos (\<lambda>x. b x < v) False (inner s)"
  by (simp add: bset_locate_node_def spine_pos_def clip_def node_pred_def [abs_def] Let_def
      vec_get_def)

lemma locate_node_cmp_eq: "bset_locate_node_cmp cmp s = spine_pos cmp True (inner s)"
  by (simp add: bset_locate_node_cmp_def spine_pos_def clip_def node_pred_def [abs_def] Let_def
      vec_get_def)

lemma locate_value_cmp_eq:
  assumes "wf_spine (inner s)" and "downward cmp (elems s)" and "i = spine_pos cmp True (inner s)"
  shows "bset_locate_value_cmp cmp s = Inr (i, partition_point cmp (inner s ! i))"
  using spine_pos_spec(1) [OF assms(1) assms(2) [unfolded elems_def] assms(3)] assms(3)
  by (simp add: bset_locate_value_cmp_def locate_node_cmp_eq Let_def)

lemma locate_value_eq:
  assumes "wf_spine (inner s)" and "downward (\<lambda>x. b x < v) (elems s)"
    and "i = spine_pos (\<lambda>x. b x < v) False (inner s)"
  shows "bset_locate_value b s v = Inr (i, partition_point (\<lambda>x. b x < v) (inner s ! i))"
  using spine_pos_spec(1) [OF assms(1) assms(2) [unfolded elems_def] assms(3)] assms(3)
  by (simp add: bset_locate_value_def locate_node_eq Let_def)

lemma spine_pos_get:
  assumes "wf_spine ns" and "downward p (concat ns)" and "i = spine_pos p d ns"
  shows "vec_get (ns ! i) (partition_point p (ns ! i)) =
    vec_get (concat ns) (partition_point p (concat ns))"
proof (cases "partition_point p (ns ! i) < length (ns ! i)")
  case True
  note sp = spine_pos_spec [OF assms]
  show ?thesis
    using spine_nth [OF sp(1) True] sp(2) True by simp
next
  case False
  note sp = spine_pos_spec [OF assms]
  have last: "partition_point p (ns ! i) = length (ns ! i)"
    using False partition_point_le [of p "ns ! i"] by linarith
  then have "offset ns i + length (ns ! i) = length (concat ns)"
    using offset_Suc [OF sp(1)] sp(3) by simp
  then show ?thesis
    using sp(2) last by (simp add: vec_get_def)
qed

lemma borrow_downward:
  assumes "bset_inv slots k s" and "borrow_ok k b"
  shows "downward (\<lambda>x. b x < v) (elems s)" and "downward (\<lambda>x. b x \<le> v) (elems s)"
    and "sorted_keys b (elems s)"
proof -
  show keys: "sorted_keys b (elems s)"
    using assms sorted_keys_borrow bset_invD(2) by blast
  then show "downward (\<lambda>x. b x < v) (elems s)" "downward (\<lambda>x. b x \<le> v) (elems s)"
    by (simp_all add: downward_less downward_le sorted_keys_sorted)
qed

lemma get_eq:
  assumes "bset_inv slots k s" and "borrow_ok k b"
  shows "bset_get b s v = Inr (vec_get (elems s) (partition_point (\<lambda>x. b x < v) (elems s)))"
proof -
  note wf = bset_invD(1) [OF assms(1)] and down = borrow_downward(1) [OF assms, of v]
  let ?i = "spine_pos (\<lambda>x. b x < v) False (inner s)"
  have "?i < length (inner s)"
    using spine_pos_spec(1) [OF wf down [unfolded elems_def] refl] .
  then show ?thesis
    using spine_pos_get [OF wf down [unfolded elems_def] refl]
    by (simp add: bset_get_def locate_value_eq [OF wf down refl] elems_def)
qed

lemma contains_cmp_eq:
  assumes "bset_inv slots k s" and "downward cmp (elems s)"
  shows "bset_contains_cmp cmp cmp2 s =
    Inr (case vec_get (elems s) (partition_point cmp (elems s)) of Some x \<Rightarrow> cmp2 x | None \<Rightarrow> False)"
proof -
  note wf = bset_invD(1) [OF assms(1)] and down = assms(2)
  let ?i = "spine_pos cmp True (inner s)"
  have "?i < length (inner s)"
    using spine_pos_spec(1) [OF wf down [unfolded elems_def] refl] .
  then show ?thesis
    using spine_pos_get [OF wf down [unfolded elems_def] refl]
    by (simp add: bset_contains_cmp_def locate_value_cmp_eq [OF wf down refl] elems_def)
qed

lemma vec_get_has_key:
  assumes "sorted_keys b xs"
  shows "(case vec_get xs (partition_point (\<lambda>x. b x < v) xs) of Some x \<Rightarrow> b x = v | None \<Rightarrow> False)
    \<longleftrightarrow> has_key b v xs"
    and "(case vec_get xs (partition_point (\<lambda>x. b x < v) xs) of Some x \<Rightarrow> v = b x | None \<Rightarrow> False)
    \<longleftrightarrow> has_key b v xs"
  by (auto simp add: partition_point_has_key [OF assms] vec_get_def Let_def)

lemma contains_eq:
  assumes "bset_inv slots k s" and "borrow_ok k b"
  shows "bset_contains b s v = Inr (has_key b v (elems s))"
proof -
  note wf = bset_invD(1) [OF assms(1)] and down = borrow_downward(1) [OF assms, of v]
  let ?i = "spine_pos (\<lambda>x. b x < v) False (inner s)"
  have "?i < length (inner s)"
    using spine_pos_spec(1) [OF wf down [unfolded elems_def] refl] .
  then show ?thesis
    using spine_pos_get [OF wf down [unfolded elems_def] refl]
      vec_get_has_key(2) [OF borrow_downward(3) [OF assms], of v]
    by (simp add: bset_contains_def locate_value_eq [OF wf down refl] elems_def)
qed

lemma first_eq:
  assumes "bset_inv slots k s"
  shows "bset_first s = vec_first (elems s)"
proof (cases "inner s")
  case Nil
  then show ?thesis
    using bset_invD(6) [OF assms] by simp
next
  case (Cons n ns)
  then show ?thesis
    using bset_invD(1) [OF assms]
    by (cases n) (auto simp: bset_first_def elems_def wf_spine_def)
qed

lemma last_eq:
  assumes "bset_inv slots k s"
  shows "bset_last s = vec_last (elems s)"
proof (cases "inner s" rule: rev_cases)
  case Nil
  then show ?thesis
    using bset_invD(6) [OF assms] by simp
next
  case (snoc ns n)
  then show ?thesis
    using bset_invD(1) [OF assms]
    by (cases "n = []") (auto simp: bset_last_def elems_def wf_spine_def)
qed

context btree_deps
begin

lemma prefix_sum_offset:
  assumes "bset_inv slots k s" and "i \<le> length (inner s)"
  shows "ft_prefix_sum (dep_ftree D) (index s) i 0 = Inr (offset (inner s) i)"
  using prefix_sum [of i "index s" 0] bset_invD(3) [OF assms(1)] assms(2)
  by (simp add: offset_def take_map)

lemma rank_cmp_eq:
  assumes "bset_inv slots k s" and "downward cmp (elems s)"
  shows "bset_rank_cmp D cmp s = Inr (partition_point cmp (elems s))"
proof -
  note wf = bset_invD(1) [OF assms(1)] and down = assms(2)
  note sp = spine_pos_spec [OF wf down [unfolded elems_def] refl, where d = True]
  show ?thesis
    using prefix_sum_offset [OF assms(1) less_imp_le [OF sp(1)]] sp(1,2)
    by (simp add: bset_rank_cmp_def locate_value_cmp_eq [OF wf down refl] elems_def)
qed

lemma rank_eq:
  assumes "bset_inv slots k s" and "borrow_ok k b"
  shows "bset_rank D b s v = Inr (partition_point (\<lambda>x. b x < v) (elems s))"
proof -
  note wf = bset_invD(1) [OF assms(1)] and down = borrow_downward(1) [OF assms, of v]
  note sp = spine_pos_spec [OF wf down [unfolded elems_def] refl, where d = False]
  show ?thesis
    using prefix_sum_offset [OF assms(1) less_imp_le [OF sp(1)]] sp(1,2)
    by (simp add: bset_rank_def locate_value_eq [OF wf down refl] elems_def)
qed

text \<open>
  The two outcomes of \<open>locate_ith\<close>: a position inside the nodes, or a node index past the end.
\<close>

lemma locate_ith_cases:
  assumes inv: "bset_inv slots k s"
  obtains i j where "bset_locate_ith D s idx = Inr (i, j)" "idx < length (elems s)"
      "i < length (inner s)" "j < length (inner s ! i)" "offset (inner s) i + j = idx"
  | i j where "bset_locate_ith D s idx = Inr (i, j)" "length (elems s) \<le> idx"
      "length (inner s) \<le> i"
proof -
  let ?ns = "inner s"
  note sl = bset_invD(3) [OF inv]
  obtain n where n: "ft_index_of (dep_ftree D) (index s) idx = Inr n" "n \<le> length ?ns"
    "offset ?ns n \<le> idx" "n < length ?ns \<Longrightarrow> idx \<le> offset ?ns (Suc n)"
    using index_of [of "index s" idx] sl by (auto simp: offset_def take_map)
  have off: "(if n \<noteq> 0 then ft_prefix_sum (dep_ftree D) (index s) n 0 else Inr 0) = Inr (offset ?ns n)"
    using prefix_sum_offset [OF inv n(2)] by simp
  let ?p = "idx - offset ?ns n"
  have loc: "bset_locate_ith D s idx =
      Inr (if n < length ?ns \<and> ?p = length (?ns ! n) then (n + 1, 0) else (n, ?p))"
    using n(1,3) off by (simp add: bset_locate_ith_def vec_get_def)
  show thesis
  proof (cases "n < length ?ns")
    case False
    then have "offset ?ns n = length (elems s)"
      using n(2) by (simp add: elems_def)
    then show thesis
      using that(2) [of n ?p] loc False n(3) by simp
  next
    case True
    note os = offset_Suc [OF True]
    show thesis
    proof (cases "?p = length (?ns ! n)")
      case False
      then have "?p < length (?ns ! n)"
        using n(3) n(4) [OF True] os by linarith
      then show thesis
        using that(1) [of n ?p] loc True False n(3) spine_nth(2) [OF True, of ?p]
        by (simp add: elems_def)
    next
      case border: True
      then have g: "idx = offset ?ns (Suc n)"
        using n(3) os by linarith
      show thesis
      proof (cases "Suc n < length ?ns")
        case next_node: True
        then have "?ns ! Suc n \<noteq> []"
          using bset_invD(1) [OF inv] next_node
          by (metis One_nat_def less_one not_less_zero nth_mem wf_spine_def not_less_eq)
        then show thesis
          using that(1) [of "Suc n" 0] loc True border g next_node spine_nth(2) [OF next_node, of 0]
          by (simp add: elems_def)
      next
        case no_next: False
        then have "Suc n = length ?ns"
          using True by simp
        then have "idx = length (elems s)"
          using g by (simp add: elems_def)
        then show thesis
          using that(2) [of "n + 1" 0] loc True border no_next by simp
      qed
    qed
  qed
qed

lemma get_index_eq:
  assumes "bset_inv slots k s"
  shows "bset_get_index D s idx = Inr (vec_get (elems s) idx)"
proof (cases rule: locate_ith_cases [OF assms, of idx])
  case (1 i j)
  then show ?thesis
    using spine_nth(1) [of i "inner s" j] by (auto simp: bset_get_index_def elems_def)
next
  case (2 i j)
  then show ?thesis by (simp add: bset_get_index_def)
qed

end

section \<open>Insertion\<close>

lemma wf_spine_node_sorted:
  assumes "sorted_keys k (concat ns)" and "i < length ns"
  shows "sorted_keys k (ns ! i)"
  using assms(1) unfolding spine_split [OF assms(2)] by simp

lemma ins_key_nonempty [simp]: "ins_key k v xs \<noteq> []"
  by (auto simp: ins_key_def)

lemma bset_invI:
  assumes "wf_spine (inner s)" and "sorted_keys k (elems s)" and "slots (index s) = map length (inner s)"
    and "len s = length (elems s)" and "2 \<le> node_capacity s"
  shows "bset_inv slots k s"
  using assms by (simp add: bset_inv_def)

text \<open>The place of a key: everything before node \<open>i\<close> is smaller, everything after it larger.\<close>

definition node_for :: "('a \<Rightarrow> 'k::linorder) \<Rightarrow> 'k \<Rightarrow> 'a list list \<Rightarrow> nat \<Rightarrow> bool" where
  "node_for k q ns i \<longleftrightarrow> i < length ns \<and> (\<forall>x\<in>set (concat (take i ns)). k x < q) \<and>
     (\<forall>x\<in>set (concat (drop (Suc i) ns)). q < k x)"

lemma spine_pos_node_for:
  assumes "wf_spine ns" and "sorted_keys k (concat ns)"
  shows "node_for k q ns (spine_pos (\<lambda>x. k x < q) d ns)"
proof -
  let ?p = "\<lambda>x. k x < q"
  let ?i = "spine_pos ?p d ns"
  have down: "downward ?p (concat ns)"
    using assms(2) by (simp add: downward_less sorted_keys_sorted)
  note sp = spine_pos_spec [OF assms(1) down refl, where d = d]
  have hi: "\<forall>x\<in>set (concat (drop (Suc ?i) ns)). q < k x"
  proof
    fix x
    assume x: "x \<in> set (concat (drop (Suc ?i) ns))"
    have "Suc ?i \<noteq> length ns"
      using x by auto
    then have "partition_point ?p (ns ! ?i) < length (ns ! ?i)"
      using sp(3) partition_point_le [of ?p "ns ! ?i"] by linarith
    then obtain m where m: "m \<in> set (ns ! ?i)" "q \<le> k m"
      using partition_point_stop [of ?p "ns ! ?i"] nth_mem not_less by metis
    have "sorted_keys k (concat (take ?i ns) @ ns ! ?i @ concat (drop (Suc ?i) ns))"
      using assms(2) unfolding spine_split [OF sp(1)] .
    then have "k m < k x"
      using m(1) x unfolding sorted_keys_append by blast
    with m(2) show "q < k x" by simp
  qed
  show ?thesis
    using sp(1) spine_pos_before [OF assms(1) down refl] hi unfolding node_for_def by blast
qed

lemma node_for_ins:
  assumes "node_for k (k v) ns i"
  shows "ins_key k v (concat ns) = concat (take i ns) @ ins_key k v (ns ! i) @ concat (drop (Suc i) ns)"
    and "has_key k (k v) (concat ns) \<longleftrightarrow> has_key k (k v) (ns ! i)"
proof -
  have i: "i < length ns" and lo: "\<forall>x\<in>set (concat (take i ns)). k x < k v"
    and hi: "\<forall>x\<in>set (concat (drop (Suc i) ns)). k v < k x"
    using assms by (auto simp: node_for_def)
  show "ins_key k v (concat ns) = concat (take i ns) @ ins_key k v (ns ! i) @ concat (drop (Suc i) ns)"
    unfolding spine_split [OF i] by (rule ins_key_mid [OF lo hi])
  have "\<not> has_key k (k v) (concat (take i ns))" "\<not> has_key k (k v) (concat (drop (Suc i) ns))"
    using lo hi by (force simp: has_key_def)+
  then show "has_key k (k v) (concat ns) \<longleftrightarrow> has_key k (k v) (ns ! i)"
    by (simp add: spine_split [OF i])
qed

text \<open>Splitting node \<open>i\<close> in two and choosing the half by its first key keeps the place.\<close>

lemma node_for_split:
  assumes "node_for k (k v) ns i" and "sorted_keys k (concat ns)" and "drop h (ns ! i) \<noteq> []"
  shows "node_for k (k v) (take i ns @ take h (ns ! i) # drop h (ns ! i) # drop (Suc i) ns)
    (if k (drop h (ns ! i) ! 0) \<le> k v then i + 1 else i)"
proof -
  have i: "i < length ns"
    using assms(1) by (simp add: node_for_def)
  let ?old = "take h (ns ! i)" and ?new = "drop h (ns ! i)"
  obtain m new' where new: "?new = m # new'"
    using assms(3) by (cases ?new) auto
  have "sorted_keys k (?old @ ?new)"
    using wf_spine_node_sorted [OF assms(2) i] by simp
  then have "\<forall>x\<in>set ?old. k x < k m" "\<forall>x\<in>set new'. k m < k x"
    by (simp_all add: new)
  then show ?thesis
    using assms(1) i by (auto simp: node_for_def new nth_append min_def)
qed

context btree_deps
begin

lemma rebuild_slots: "slots (rebuild_index D ns) = map length ns"
  by (simp add: rebuild_index_def)

lemma insert_at_no_split:
  assumes inv: "bset_inv slots k s" and nf: "node_for k (k v) (inner s) i"
    and room: "length (inner s ! i) \<noteq> node_capacity s"
  shows "\<exists>s'. bset_insert_at D k s i v = Inr (\<not> has_key k (k v) (elems s), s') \<and>
    bset_step slots k s (ins_key k v (elems s)) s'"
proof -
  let ?ns = "inner s" and ?n = "inner s ! i"
  have i: "i < length ?ns"
    using nf by (simp add: node_for_def)
  note srt = bset_invD(2) [OF inv, unfolded elems_def]
  note ins = node_insert_eq [OF wf_spine_node_sorted [OF srt i], of v]
  let ?ns' = "?ns[i := ins_key k v ?n]"
  have cc: "concat ?ns' = ins_key k v (elems s)"
    using node_for_ins(1) [OF nf] by (simp add: elems_def spine_update [OF i])
  have wf: "wf_spine ?ns'"
    using bset_invD(1) [OF inv] by (simp add: wf_spine_update)
  show ?thesis
  proof (cases "has_key k (k v) ?n")
    case True
    then have "?ns' = ?ns"
      by (simp add: ins_key_def)
    then show ?thesis
      using i room ins True cc node_for_ins(2) [OF nf] inv
      by (simp add: bset_insert_at_def bset_step_def elems_def)
  next
    case False
    obtain t where t: "ft_add_at (dep_ftree D) (index s) i 1 = Inr t"
      "slots t = (slots (index s))[i := slots (index s) ! i + 1]"
      using slots_add_at [of i "index s" 1] bset_invD(3) [OF inv] i by auto
    let ?s' = "s\<lparr> inner := ?ns', index := t, len := len s + 1 \<rparr>"
    have "slots t = map length ?ns'"
      using t(2) bset_invD(3) [OF inv] i False by (simp add: map_update length_ins_key)
    moreover have "len s + 1 = length (ins_key k v (elems s))"
      using bset_invD(4) [OF inv] False node_for_ins(2) [OF nf]
      by (simp add: length_ins_key elems_def)
    ultimately have inv': "bset_inv slots k ?s'"
      using inv wf cc sorted_ins_key [OF bset_invD(2) [OF inv], of v]
      by (simp add: bset_inv_def elems_def)
    have "bset_bounded ?s'" if "bset_bounded s"
    proof -
      have "length (ins_key k v ?n) \<le> node_capacity s"
        using that room i False by (auto simp: bset_bounded_def length_ins_key less_le Suc_le_eq)
      then show ?thesis
        using that by (auto simp: bset_bounded_def dest!: set_update_subset_insert [THEN subsetD])
    qed
    then show ?thesis
      using i room ins False t(1) cc inv' node_for_ins(2) [OF nf]
      by (simp add: bset_insert_at_def bset_step_def elems_def)
  qed
qed

text \<open>Inserting into node \<open>i\<close> of a spine, whatever the index then is rebuilt from.\<close>

lemma insert_into_spine:
  assumes "wf_spine ns" and "sorted_keys k (concat ns)" and nf: "node_for k (k v) ns i"
    and "2 \<le> node_capacity s" and "len s = length (concat ns)"
  defines "ns' \<equiv> ns[i := ins_key k v (ns ! i)]"
    and "s' \<equiv> s\<lparr> inner := ns[i := ins_key k v (ns ! i)],
              index := rebuild_index D (ns[i := ins_key k v (ns ! i)]),
              len := (if has_key k (k v) (concat ns) then len s else len s + 1) \<rparr>"
  shows "bset_inv slots k s' \<and> elems s' = ins_key k v (concat ns)"
proof -
  have i: "i < length ns"
    using nf by (simp add: node_for_def)
  have cc: "concat ns' = ins_key k v (concat ns)"
    using node_for_ins(1) [OF nf] by (simp add: ns'_def spine_update [OF i])
  have "wf_spine ns'"
    using assms(1) by (simp add: ns'_def wf_spine_update)
  then show ?thesis
    using cc assms(4,5) sorted_ins_key [OF assms(2), of v]
    by (simp add: bset_inv_def s'_def ns'_def [symmetric] elems_def rebuild_slots length_ins_key)
qed

lemma insert_at_split:
  assumes inv: "bset_inv slots k s" and nf: "node_for k (k v) (inner s) i"
    and full: "length (inner s ! i) = node_capacity s"
  shows "\<exists>s'. bset_insert_at D k s i v = Inr (\<not> has_key k (k v) (elems s), s') \<and>
    bset_step slots k s (ins_key k v (elems s)) s'"
proof -
  let ?ns = "inner s" and ?n = "inner s ! i" and ?h = "node_capacity s div 2"
  have i: "i < length ?ns"
    using nf by (simp add: node_for_def)
  note srt = bset_invD(2) [OF inv, unfolded elems_def]
  have h: "0 < ?h" "?h < length ?n"
    using full bset_invD(5) [OF inv] by auto
  define P Q where "P = take i ?ns" and "Q = drop (Suc i) ?ns"
  define old new where "old = take ?h ?n" and "new = drop ?h ?n"
  have PQ: "?ns = P @ ?n # Q" "length P = i" and on: "old @ new = ?n" "old \<noteq> []" "new \<noteq> []"
    using i h id_take_nth_drop [OF i] by (auto simp: P_def Q_def old_def new_def)
  define ns1 t where "ns1 = P @ old # new # Q" and "t = (if k (new ! 0) \<le> k v then i + 1 else i)"
  have nf1: "node_for k (k v) ns1 t"
    using node_for_split [OF nf srt, of ?h] on(3)
    by (simp add: ns1_def t_def P_def Q_def old_def new_def)
  have t: "t < length ns1"
    using nf1 by (simp add: node_for_def)
  have cc: "concat ns1 = elems s"
    using arg_cong [OF PQ(1), of concat] on(1) by (simp add: ns1_def elems_def)
  have wf1: "wf_spine ns1"
    using bset_invD(1) [OF inv] PQ(1) on(2,3) by (metis ns1_def wf_spine_split_node)
  have srt1: "sorted_keys k (concat ns1)"
    using bset_invD(2) [OF inv] by (simp only: cc)
  have upd: "vec_insert (?ns[i := old]) (Suc i) new = Inr ns1"
    using i by (simp add: ns1_def P_def Q_def upd_conv_take_nth_drop min_def)
  note ins = node_insert_eq [OF wf_spine_node_sorted [OF srt1 t], of v]
  let ?ns2 = "ns1[t := ins_key k v (ns1 ! t)]"
  let ?s' = "s\<lparr> inner := ?ns2, index := rebuild_index D ?ns2,
               len := (if has_key k (k v) (concat ns1) then len s else len s + 1) \<rparr>"
  have ok: "bset_inv slots k ?s'" "elems ?s' = ins_key k v (elems s)"
    using insert_into_spine [OF wf1 srt1 nf1 bset_invD(5) [OF inv]] bset_invD(4) [OF inv]
    by (simp_all only: cc)
  have run: "bset_insert_at D k s i v = Inr (\<not> has_key k (k v) (elems s), ?s')"
    using i full h on(3) upd ins t node_for_ins(2) [OF nf1] cc
    by (simp add: bset_insert_at_def node_halve_eq old_def [symmetric] new_def [symmetric] Let_def
        t_def [symmetric] del: vec_insert_simps)
  have "bset_bounded ?s'" if b: "bset_bounded s"
  proof -
    have "ns1 ! t = old \<or> ns1 ! t = new"
      using PQ(2) by (simp add: ns1_def t_def nth_append)
    then have "length (ins_key k v (ns1 ! t)) \<le> node_capacity s"
      using full h bset_invD(5) [OF inv] by (auto simp: length_ins_key old_def new_def)
    moreover have "\<forall>n\<in>set ns1. length n \<le> node_capacity s"
      using b full by (auto simp: ns1_def P_def Q_def bset_bounded_def old_def new_def
          dest: in_set_takeD in_set_dropD)
    ultimately show ?thesis
      using set_update_subset_insert [of ns1 t] by (auto simp: bset_bounded_def)
  qed
  with ok run show ?thesis
    by (auto simp: bset_step_def)
qed

lemma insert_at_step:
  assumes "bset_inv slots k s" and "node_for k (k v) (inner s) i"
  shows "\<exists>s'. bset_insert_at D k s i v = Inr (\<not> has_key k (k v) (elems s), s') \<and>
    bset_step slots k s (ins_key k v (elems s)) s'"
  using insert_at_split [OF assms] insert_at_no_split [OF assms] by blast

lemma insert_step:
  assumes "bset_inv slots k s"
  shows "\<exists>s'. bset_insert D k s v = Inr (\<not> has_key k (k v) (elems s), s') \<and>
    bset_step slots k s (ins_key k v (elems s)) s'"
proof -
  have "node_for k (k v) (inner s) (bset_locate_node k s (k v))"
    unfolding locate_node_eq
    using bset_invD(1,2) [OF assms] by (intro spine_pos_node_for) (simp_all add: elems_def)
  then show ?thesis
    unfolding bset_insert_def by (rule insert_at_step [OF assms])
qed

end

section \<open>Deletion\<close>

definition remove_at :: "nat \<Rightarrow> 'a list \<Rightarrow> 'a list" where
  "remove_at g xs = take g xs @ drop (Suc g) xs"

lemma sorted_remove_at: "sorted_keys k xs \<Longrightarrow> sorted_keys k (remove_at g xs)"
proof -
  assume "sorted_keys k xs"
  then have "sorted_keys k (take g xs @ drop g xs)"
    by simp
  then show ?thesis
    unfolding remove_at_def sorted_keys_append
    using sorted_keys_drop [of k "drop g xs" 1] set_drop_subset [of 1 "drop g xs"] by auto
qed

lemma remove_at_last: "Suc g = length xs \<Longrightarrow> remove_at g xs = butlast xs"
  by (cases xs rule: rev_cases) (auto simp: remove_at_def)

lemma length_remove_at: "g < length xs \<Longrightarrow> length (remove_at g xs) = length xs - 1"
  by (simp add: remove_at_def)

context btree_deps
begin

lemma delete_at_step:
  assumes inv: "bset_inv slots k s" and i: "i < length (inner s)" and j: "j < length (inner s ! i)"
  shows "\<exists>s'. bset_delete_at D s i j = Inr (inner s ! i ! j, s') \<and>
    bset_step slots k s (remove_at (offset (inner s) i + j) (elems s)) s'"
proof -
  let ?ns = "inner s" and ?n = "inner s ! i" and ?g = "offset (inner s) i + j"
  let ?n' = "take j ?n @ drop (Suc j) ?n"
  let ?ns' = "?ns[i := ?n']"
  have g: "?g < length (elems s)" and cc: "concat ?ns' = remove_at ?g (elems s)"
    using spine_nth(2) [OF i j] spine_remove [OF i j] by (simp_all add: elems_def remove_at_def)
  have srt: "sorted_keys k (remove_at ?g (elems s))"
    using bset_invD(2) [OF inv] by (rule sorted_remove_at)
  have ln: "1 \<le> len s" "len s - 1 = length (remove_at ?g (elems s))"
    using bset_invD(4) [OF inv] g by (simp_all add: length_remove_at [OF g])
  have bnd: "length ?n' \<le> node_capacity s" if "bset_bounded s"
  proof -
    have "length ?n \<le> node_capacity s"
      using that i by (simp add: bset_bounded_def)
    then show ?thesis
      using j by simp
  qed
  show ?thesis
  proof (cases "?n' = [] \<and> length ?ns > 1")
    case True
    let ?ns2 = "take i ?ns' @ drop (Suc i) ?ns'"
    have cc2: "concat ?ns2 = remove_at ?g (elems s)"
      using spine_drop_empty [of i ?ns'] i True cc by (simp only: length_list_update nth_list_update_eq)
    have sub: "set ?ns2 \<subseteq> set ?ns" "length ?ns2 = length ?ns - 1"
      using i by (auto simp: take_update_cancel drop_update_cancel dest: in_set_takeD in_set_dropD)
    then have "wf_spine ?ns2"
      using bset_invD(1) [OF inv] True by (auto simp: wf_spine_def)
    then have "bset_step slots k s (remove_at ?g (elems s))
        (s\<lparr> inner := ?ns2, len := len s - 1, index := rebuild_index D ?ns2 \<rparr>)"
      using inv srt ln sub(1) cc2
      by (auto simp: bset_step_def bset_inv_def elems_def rebuild_slots bset_bounded_def)
    then show ?thesis
      using i j True ln(1) by (simp add: bset_delete_at_def Let_def)
  next
    case False
    obtain t where t: "ft_sub_at (dep_ftree D) (index s) i 1 = Inr t"
      "slots t = (slots (index s))[i := slots (index s) ! i - 1]"
      using slots_sub_at [of i "index s" 1] bset_invD(3) [OF inv] i j by auto
    have "slots t = map length ?ns'"
      using t(2) bset_invD(3) [OF inv] i j by (simp add: map_update)
    moreover have "wf_spine ?ns'"
    proof (cases "?n' = []")
      case True
      with False i have "length ?ns' = 1"
        by simp
      then show ?thesis
        by (auto simp: wf_spine_def simp del: length_list_update)
    qed (use bset_invD(1) [OF inv] wf_spine_update in blast)
    moreover have "bset_bounded (s\<lparr> inner := ?ns', index := t, len := len s - 1 \<rparr>)" if "bset_bounded s"
      using that bnd set_update_subset_insert [of ?ns i ?n'] by (auto simp: bset_bounded_def)
    ultimately have "bset_step slots k s (remove_at ?g (elems s))
        (s\<lparr> inner := ?ns', index := t, len := len s - 1 \<rparr>)"
      using inv srt ln cc by (auto simp: bset_step_def bset_inv_def elems_def)
    then show ?thesis
      using i j False ln(1) t(1) by (auto simp: bset_delete_at_def Let_def)
  qed
qed

end

lemma find_cmp_eq:
  assumes "bset_inv slots k s" and "downward cmp (elems s)"
    and "i = spine_pos cmp True (inner s)" and "j = partition_point cmp (inner s ! i)"
  shows "bset_find_cmp cmp cmp2 s =
    Inr (case vec_get (elems s) (partition_point cmp (elems s)) of
           Some x \<Rightarrow> if cmp2 x then Exist i j else Empty i | None \<Rightarrow> Empty i)"
proof -
  note wf = bset_invD(1) [OF assms(1)]
  have "i < length (inner s)"
    using spine_pos_spec(1) [OF wf assms(2) [unfolded elems_def] assms(3)] .
  then show ?thesis
    using spine_pos_get [OF wf assms(2) [unfolded elems_def] assms(3)]
    by (simp add: bset_find_cmp_def locate_value_cmp_eq [OF wf assms(2,3)] assms(4) elems_def
        split: option.split)
qed

lemma del_key_remove_at:
  assumes "sorted_keys b xs" and "has_key b v xs" and "g = partition_point (\<lambda>x. b x < v) xs"
  shows "remove_at g xs = del_key b v xs" and "find_key b v xs = Some (xs ! g)"
    and "g < length xs" and "b (xs ! g) = v"
proof -
  show g: "g < length xs" "b (xs ! g) = v"
    using has_key_partition_point [OF assms] by auto
  show "remove_at g xs = del_key b v xs" "find_key b v xs = Some (xs ! g)"
    using del_key_nth [OF assms(1) g(1)] find_key_nth [OF assms(1) g(1)] g(2)
    by (simp_all add: remove_at_def)
qed

context btree_deps
begin

text \<open>Deleting at a located position, the common end of \<open>delete\<close> and \<open>delete_cmp\<close>.\<close>

lemma delete_located:
  assumes inv: "bset_inv slots k s" and ok: "borrow_ok k b"
    and i: "i = spine_pos (\<lambda>x. b x < v) d (inner s)"
    and j: "j = partition_point (\<lambda>x. b x < v) (inner s ! i)" and has: "has_key b v (elems s)"
  shows "\<exists>s'. bset_delete_at D s i j = Inr (inner s ! i ! j, s') \<and>
      find_key b v (elems s) = Some (inner s ! i ! j) \<and> bset_step slots k s (del_key b v (elems s)) s'"
    and "vec_get (inner s ! i) j = Some (inner s ! i ! j)" and "b (inner s ! i ! j) = v"
    and "i < length (inner s)"
proof -
  let ?p = "\<lambda>x. b x < v"
  let ?g = "partition_point ?p (elems s)"
  note down = borrow_downward(1) [OF inv ok, of v, unfolded elems_def]
  note wf = bset_invD(1) [OF inv]
  note sp = spine_pos_spec [OF wf down i]
  note dk = del_key_remove_at [OF borrow_downward(3) [OF inv ok] has refl]
  have get: "vec_get (inner s ! i) j = Some (elems s ! ?g)"
    using spine_pos_get [OF wf down i] dk(3) j by (simp add: elems_def)
  then have jl: "j < length (inner s ! i)" and x: "inner s ! i ! j = elems s ! ?g"
    by (auto simp: vec_get_def split: if_splits)
  have "offset (inner s) i + j = ?g"
    using sp(2) j by (simp add: elems_def)
  then show "\<exists>s'. bset_delete_at D s i j = Inr (inner s ! i ! j, s') \<and>
      find_key b v (elems s) = Some (inner s ! i ! j) \<and> bset_step slots k s (del_key b v (elems s)) s'"
    using delete_at_step [OF inv sp(1) jl] dk x by simp
  show "vec_get (inner s ! i) j = Some (inner s ! i ! j)" "b (inner s ! i ! j) = v"
    "i < length (inner s)"
    using get x dk sp(1) by simp_all
qed

lemma delete_step:
  assumes inv: "bset_inv slots k s" and ok: "borrow_ok k b"
  shows "\<exists>s'. bset_delete D b s v = Inr ((find_key b v (elems s), has_key b v (elems s)), s') \<and>
    bset_step slots k s (del_key b v (elems s)) s'"
proof -
  let ?p = "\<lambda>x. b x < v"
  note wf = bset_invD(1) [OF inv] and down = borrow_downward(1) [OF inv ok, of v]
  let ?i = "spine_pos ?p False (inner s)"
  note loc = locate_value_eq [OF wf down refl]
  show ?thesis
  proof (cases "has_key b v (elems s)")
    case True
    note del = delete_located [OF inv ok refl refl True, where d = False]
    then show ?thesis
      using del(1) True by (auto simp: bset_delete_def loc)
  next
    case False
    have "?i < length (inner s)"
      using spine_pos_spec(1) [OF wf down [unfolded elems_def] refl] .
    moreover have "v \<noteq> b x" if "vec_get (inner s ! ?i) (partition_point ?p (inner s ! ?i)) = Some x" for x
      using False that spine_pos_get [OF wf down [unfolded elems_def] refl]
        vec_get_has_key(2) [OF borrow_downward(3) [OF inv ok], of v]
      by (simp add: elems_def)
    ultimately have "bset_delete D b s v = Inr ((None, False), s)"
      by (auto simp: bset_delete_def loc split: option.splits)
    with False show ?thesis
      using bset_step_refl [OF inv] by (simp add: del_key_absent find_key_None [THEN iffD2])
  qed
qed

lemma delete_cmp_step:
  assumes inv: "bset_inv slots k s" and ok: "borrow_ok k b"
  shows "\<exists>s'. bset_delete_cmp D (\<lambda>x. b x < v) (\<lambda>x. b x = v) s =
      Inr ((find_key b v (elems s), has_key b v (elems s)), s') \<and>
    bset_step slots k s (del_key b v (elems s)) s'"
proof -
  let ?p = "\<lambda>x. b x < v"
  note down = borrow_downward(1) [OF inv ok, of v]
  note fc = find_cmp_eq [OF inv down refl refl, of "\<lambda>x. b x = v"]
  note hk = vec_get_has_key(1) [OF borrow_downward(3) [OF inv ok], of v]
  show ?thesis
  proof (cases "has_key b v (elems s)")
    case True
    then show ?thesis
      using delete_located(1) [OF inv ok refl refl True, where d = True] hk
      by (auto simp: bset_delete_cmp_def fc split: option.splits)
  next
    case False
    then have "bset_delete_cmp D ?p (\<lambda>x. b x = v) s = Inr ((None, False), s)"
      using hk by (auto simp: bset_delete_cmp_def fc split: option.splits)
    with False show ?thesis
      using bset_step_refl [OF inv] by (simp add: del_key_absent find_key_None [THEN iffD2])
  qed
qed

lemma take_step:
  assumes "bset_inv slots k s" and "borrow_ok k b"
  shows "\<exists>s'. bset_take D b s v = Inr (find_key b v (elems s), s') \<and>
    bset_step slots k s (del_key b v (elems s)) s'"
  using delete_step [OF assms, of v] by (auto simp: bset_take_def)

lemma replace_step:
  assumes "bset_inv slots k s"
  shows "\<exists>s'. bset_replace D k s v = Inr (find_key k (k v) (elems s), s') \<and>
    bset_step slots k s (ins_key k v (del_key k (k v) (elems s))) s'"
proof -
  obtain s1 where s1: "bset_take D k s (k v) = Inr (find_key k (k v) (elems s), s1)"
    "bset_step slots k s (del_key k (k v) (elems s)) s1"
    using take_step [OF assms borrow_ok_refl] by blast
  obtain r s2 where s2: "bset_insert D k s1 v = Inr (r, s2)"
    "bset_step slots k s1 (ins_key k v (elems s1)) s2"
    using insert_step [OF bset_stepD(2) [OF s1(2)]] by blast
  show ?thesis
    using s1 s2(1) bset_step_trans [OF s1(2) s2(2)] bset_stepD(1) [OF s1(2)]
    by (simp add: bset_replace_def)
qed

lemma pop_index_step:
  assumes inv: "bset_inv slots k s"
  shows "idx < length (elems s) \<Longrightarrow> \<exists>s'. bset_pop_index D s idx = Inr (elems s ! idx, s') \<and>
      bset_step slots k s (remove_at idx (elems s)) s'"
    and "length (elems s) \<le> idx \<Longrightarrow> bset_pop_index D s idx = Inl IndexOutOfBounds"
proof -
  assume "idx < length (elems s)"
  then show "\<exists>s'. bset_pop_index D s idx = Inr (elems s ! idx, s') \<and>
      bset_step slots k s (remove_at idx (elems s)) s'"
  proof (cases rule: locate_ith_cases [OF inv, of idx])
    case (1 i j)
    then show ?thesis
      using delete_at_step [OF inv 1(3,4)] spine_nth(1) [OF 1(3,4)]
      by (auto simp: bset_pop_index_def elems_def)
  qed simp
next
  assume "length (elems s) \<le> idx"
  then show "bset_pop_index D s idx = Inl IndexOutOfBounds"
    by (cases rule: locate_ith_cases [OF inv, of idx])
      (auto simp: bset_pop_index_def bset_delete_at_def)
qed

lemma pop_first_step:
  assumes inv: "bset_inv slots k s"
  shows "\<exists>s'. bset_pop_first D s = Inr (vec_first (elems s), s') \<and>
    bset_step slots k s (tl (elems s)) s'"
proof (cases "elems s")
  case Nil
  then have "inner s = [[]]"
    using wf_spine_concat_Nil [OF bset_invD(1) [OF inv]] by (simp add: elems_def)
  then show ?thesis
    using bset_step_refl [OF inv] Nil by (simp add: bset_pop_first_def)
next
  case (Cons x xs)
  have l: "0 < length (inner s)"
    using bset_invD(6) [OF inv] by simp
  have "concat (inner s) \<noteq> []"
    using Cons unfolding elems_def by (metis list.distinct(1))
  then have n: "inner s ! 0 \<noteq> []"
    by (rule wf_spine_nonempty_node [OF bset_invD(1) [OF inv] l])
  then have "inner s ! 0 ! 0 = x"
    using spine_nth(1) [OF l, of 0] Cons by (simp add: elems_def)
  then show ?thesis
    using delete_at_step [OF inv l, of 0] n l Cons
    by (auto simp: bset_pop_first_def remove_at_def)
qed

lemma pop_last_step:
  assumes inv: "bset_inv slots k s"
  shows "\<exists>s'. bset_pop_last D s = Inr (vec_last (elems s), s') \<and>
    bset_step slots k s (butlast (elems s)) s'"
proof (cases "elems s = []")
  case True
  then have "inner s = [[]]"
    using wf_spine_concat_Nil [OF bset_invD(1) [OF inv]] by (simp add: elems_def)
  then show ?thesis
    using bset_step_refl [OF inv] True by (simp add: bset_pop_last_def)
next
  case False
  let ?i = "length (inner s) - 1"
  let ?j = "length (inner s ! ?i) - 1"
  have i: "?i < length (inner s)" "Suc ?i = length (inner s)"
    using bset_invD(6) [OF inv] by (simp_all add: Suc_le_eq)
  have n: "inner s ! ?i \<noteq> []"
    using wf_spine_nonempty_node [OF bset_invD(1) [OF inv] i(1)] False by (simp add: elems_def)
  then have j: "?j < length (inner s ! ?i)" "Suc ?j = length (inner s ! ?i)"
    by simp_all
  have "offset (inner s) (Suc ?i) = length (elems s)"
    unfolding i(2) by (simp add: elems_def)
  then have g: "Suc (offset (inner s) ?i + ?j) = length (elems s)"
    using offset_Suc [OF i(1)] j(2) by linarith
  then have "inner s ! ?i ! ?j = last (elems s)"
    using spine_nth(1) [OF i(1) j(1)] False
    by (metis One_nat_def diff_Suc_Suc diff_zero elems_def last_conv_nth)
  moreover have "remove_at (offset (inner s) ?i + ?j) (elems s) = butlast (elems s)"
    using g by (rule remove_at_last)
  ultimately show ?thesis
    using delete_at_step [OF inv i(1) j(1)] i j False by (auto simp: bset_pop_last_def Let_def)
qed

end

end
