(* ===== verification/Btree_Set_Bulk.thy ===== *)
theory Btree_Set_Bulk
  imports Btree_Set_Facts
begin

text \<open>
  The library for the operations of \<open>BTreeSet\<close> that change many elements at once: \<open>split_off\<close>,
  \<open>retain\<close>, \<open>append\<close>, collecting from an iterator, and the constructors.
\<close>

section \<open>Constructors\<close>

context btree_deps
begin

lemma default_step:
  "elems (bset_default D) = []" "bset_inv slots k (bset_default D)" "bset_bounded (bset_default D)"
  by (simp_all add: bset_default_def elems_def bset_inv_def node_with_capacity_def
      DEFAULT_INNER_SIZE_def bset_bounded_def)

lemma with_maximum_node_size_step:
  assumes "2 \<le> n"
  shows "elems (bset_with_maximum_node_size D n) = []"
    "bset_inv slots k (bset_with_maximum_node_size D n)"
    "bset_bounded (bset_with_maximum_node_size D n)"
  using assms
  by (simp_all add: bset_with_maximum_node_size_def bset_default_def elems_def bset_inv_def
      node_with_capacity_def bset_bounded_def)

lemma clear_step: "bset_inv slots k s \<Longrightarrow> bset_step slots k s [] (bset_clear D s)"
  by (simp add: bset_clear_def bset_step_def elems_def bset_inv_def node_with_capacity_def
      bset_bounded_def)

lemma insert_all_step:
  assumes "bset_inv slots k s"
  shows "\<exists>s'. bset_insert_all D k s xs = Inr s' \<and>
    bset_step slots k s (fold (ins_key k) xs (elems s)) s'"
  using assms
proof (induction xs arbitrary: s)
  case Nil
  then show ?case by (simp add: bset_step_refl)
next
  case (Cons x xs)
  obtain r s1 where s1: "bset_insert D k s x = Inr (r, s1)"
    "bset_step slots k s (ins_key k x (elems s)) s1"
    using insert_step [OF Cons.prems] by blast
  obtain s2 where "bset_insert_all D k s1 xs = Inr s2"
    "bset_step slots k s1 (fold (ins_key k) xs (elems s1)) s2"
    using Cons.IH [OF bset_stepD(2) [OF s1(2)]] by blast
  then show ?case
    using s1 bset_stepD(1) [OF s1(2)] bset_step_trans [OF s1(2)] by auto
qed

end

text \<open>What a run of insertions leaves: the keys of both, the elements from either.\<close>

lemma sorted_fold_ins_key: "sorted_keys k ys \<Longrightarrow> sorted_keys k (fold (ins_key k) xs ys)"
  by (induction xs arbitrary: ys) (auto intro: sorted_ins_key)

lemma keys_fold_ins_key: "k ` set (fold (ins_key k) xs ys) = k ` set xs \<union> k ` set ys"
  by (induction xs arbitrary: ys) (auto simp: keys_ins_key)

lemma set_fold_ins_key: "set ys \<subseteq> set (fold (ins_key k) xs ys) \<and>
  set (fold (ins_key k) xs ys) \<subseteq> set xs \<union> set ys"
proof (induction xs arbitrary: ys)
  case (Cons x xs)
  then show ?case
    using Cons [of "ins_key k x ys"] set_ins_key [of k x ys] by (auto split: if_splits)
qed simp

section \<open>Splitting\<close>

lemma drain_back_eq: "drain_back n xs acc = (take n xs, acc @ rev (drop n xs))"
proof (induction n xs acc rule: drain_back.induct)
  case (1 n xs acc)
  show ?case
  proof (cases "length xs > n")
    case True
    then obtain ys y where xs: "xs = ys @ [y]"
      by (cases xs rule: rev_cases) auto
    then show ?thesis
      using 1 [OF True] True by (subst drain_back.simps) simp
  next
    case False
    then show ?thesis
      by (subst drain_back.simps) simp
  qed
qed

context btree_deps
begin

lemma split_at_step:
  assumes inv: "bset_inv slots k s" and i: "i < length (inner s)" and j: "j \<le> length (inner s ! i)"
    and edge: "j = length (inner s ! i) \<Longrightarrow> Suc i = length (inner s)"
  shows "\<exists>t s'. bset_split_at D s i j = Inr (t, s') \<and>
    elems t = drop (offset (inner s) i + j) (elems s) \<and> bset_inv slots k t \<and>
    node_capacity t = DEFAULT_INNER_SIZE \<and>
    bset_step slots k s (take (offset (inner s) i + j) (elems s)) s'"
proof -
  let ?ns = "inner s" and ?n = "inner s ! i" and ?g = "offset (inner s) i + j"
  let ?latter = "drop j ?n # drop (Suc i) ?ns"
  let ?front = "take i ?ns @ [take j ?n]"
  define ns2 where "ns2 = (if take j ?n = [] \<and> i \<noteq> 0 then take i ?ns else ?front)"
  have front: "take (Suc i) (?ns[i := take j ?n]) = ?front" "drop (Suc i) (?ns[i := take j ?n]) = drop (Suc i) ?ns"
    using i by (simp_all add: take_Suc_conv_app_nth take_update_cancel drop_update_cancel)
  have nth: "(take i ?ns @ [take j ?n]) ! i = take j ?n" "length (take i ?ns) = i"
    using i by (simp_all add: nth_append)
  let ?t = "(bset_default D)\<lparr> len := sum_list (map length ?latter), inner := ?latter,
    index := rebuild_index D ?latter \<rparr>"
  let ?s' = "s\<lparr> inner := ns2, index := rebuild_index D ns2, len := sum_list (map length ns2) \<rparr>"
  have run: "bset_split_at D s i j = Inr (?t, ?s')"
    using i j nth
    by (auto simp: bset_split_at_def drain_back_eq front Let_def vec_index_def vec_remove_def ns2_def)
  have cc: "concat ?latter = drop ?g (elems s)" "concat ns2 = take ?g (elems s)"
    using spine_take_drop [OF i j] by (auto simp: elems_def ns2_def)
  have srt: "sorted_keys k (take ?g (elems s))" "sorted_keys k (drop ?g (elems s))"
    using bset_invD(2) [OF inv] by (simp_all add: sorted_keys_take sorted_keys_drop)
  have ne: "[] \<notin> set ?ns \<or> length ?ns = 1"
    using bset_invD(1) [OF inv] by (auto simp: wf_spine_def)
  have "wf_spine ?latter"
    using edge ne i j by (auto simp: wf_spine_def dest: in_set_dropD)
  moreover have "wf_spine ns2"
    using ne i by (auto simp: wf_spine_def ns2_def dest: in_set_takeD)
  ultimately have wf: "wf_spine ?latter" "wf_spine ns2" .
  have t: "elems ?t = drop ?g (elems s)" "bset_inv slots k ?t"
    using wf(1) cc(1) srt(2) length_concat [of ?latter]
    by (simp_all add: elems_def bset_inv_def rebuild_slots bset_default_def DEFAULT_INNER_SIZE_def)
  have "bset_bounded ?s'" if "bset_bounded s"
    using that nth_mem [OF i]
    by (auto simp: bset_bounded_def ns2_def min.coboundedI1 dest: in_set_takeD)
  then have "bset_step slots k s (take ?g (elems s)) ?s'"
    using wf(2) cc(2) srt(1) length_concat [of ns2] bset_invD(5) [OF inv]
    by (simp add: bset_step_def elems_def bset_inv_def rebuild_slots)
  with run t show ?thesis
    by (auto simp: bset_default_def)
qed

lemma split_located:
  assumes inv: "bset_inv slots k s" and down: "downward p (elems s)"
    and i: "i = spine_pos p d (inner s)" and j: "j = partition_point p (inner s ! i)"
  shows "\<exists>t s'. bset_split_at D s i j = Inr (t, s') \<and>
    elems t = dropWhile p (elems s) \<and> bset_inv slots k t \<and>
    node_capacity t = DEFAULT_INNER_SIZE \<and> bset_step slots k s (takeWhile p (elems s)) s'"
proof -
  note sp = spine_pos_spec [OF bset_invD(1) [OF inv] down [unfolded elems_def] i]
  have "offset (inner s) i + j = partition_point p (elems s)"
    using sp(2) j by (simp add: elems_def)
  then show ?thesis
    using split_at_step [OF inv sp(1), of j] sp(3) j
    by (simp add: take_partition_point drop_partition_point)
qed

lemma split_off_cmp_step:
  assumes inv: "bset_inv slots k s" and down: "downward cmp (elems s)"
  shows "\<exists>t s'. bset_split_off_cmp D cmp s = Inr (t, s') \<and>
    elems t = dropWhile cmp (elems s) \<and> bset_inv slots k t \<and>
    node_capacity t = DEFAULT_INNER_SIZE \<and> bset_step slots k s (takeWhile cmp (elems s)) s'"
  using split_located [OF inv down refl refl]
  by (simp add: bset_split_off_cmp_def locate_value_cmp_eq [OF bset_invD(1) [OF inv] down refl])

lemma split_off_step:
  assumes inv: "bset_inv slots k s" and ok: "borrow_ok k b"
  shows "\<exists>t s'. bset_split_off D b s v = Inr (t, s') \<and>
    elems t = dropWhile (\<lambda>x. b x < v) (elems s) \<and> bset_inv slots k t \<and>
    node_capacity t = DEFAULT_INNER_SIZE \<and>
    bset_step slots k s (takeWhile (\<lambda>x. b x < v) (elems s)) s'"
  using split_located [OF inv borrow_downward(1) [OF inv ok] refl refl]
  by (simp add: bset_split_off_def
      locate_value_eq [OF bset_invD(1) [OF inv] borrow_downward(1) [OF inv ok] refl])

end

section \<open>Joining\<close>

definition put_key :: "('a \<Rightarrow> 'k::linorder) \<Rightarrow> 'a \<Rightarrow> 'a list \<Rightarrow> 'a list" where
  "put_key k v xs = ins_key k v (del_key k (k v) xs)"

context btree_deps
begin

lemma append_step:
  assumes "bset_inv slots k s" and "bset_inv slots k t"
  shows "\<exists>s' t'. bset_append D k s t = Inr (s', t') \<and>
    bset_step slots k s (fold (put_key k) (elems t) (elems s)) s' \<and> bset_step slots k t [] t'"
  using assms
proof (induction "elems t" arbitrary: s t)
  case Nil
  obtain t' where "bset_pop_first D t = Inr (None, t')" "bset_step slots k t [] t'"
    using pop_first_step [OF Nil.prems(2)] Nil.hyps by force
  then show ?case
    using bset_step_refl [OF Nil.prems(1)] Nil.hyps
    by (subst bset_append.simps) (simp add: Nil.hyps [symmetric])
next
  case (Cons x xs)
  obtain t1 where t1: "bset_pop_first D t = Inr (Some x, t1)" "bset_step slots k t xs t1"
    using pop_first_step [OF Cons.prems(2)] Cons.hyps(2) [symmetric] by force
  obtain r s1 where s1: "bset_replace D k s x = Inr (r, s1)"
    "bset_step slots k s (put_key k x (elems s)) s1"
    using replace_step [OF Cons.prems(1), of x] by (auto simp: put_key_def)
  obtain s2 t2 where "bset_append D k s1 t1 = Inr (s2, t2)"
    "bset_step slots k s1 (fold (put_key k) (elems t1) (elems s1)) s2" "bset_step slots k t1 [] t2"
    using Cons.hyps(1) bset_stepD(1,2) [OF s1(2)] bset_stepD(1,2) [OF t1(2)] by blast
  then show ?case
    using t1 s1 bset_stepD(1) [OF s1(2)] bset_stepD(1) [OF t1(2)]
      bset_step_trans [OF s1(2)] bset_step_trans [OF t1(2)]
    by (subst bset_append.simps) (auto simp: Cons.hyps(2) [symmetric])
qed

end

text \<open>
  What a run of replacements leaves: on a common key the later element wins.
\<close>

lemma sorted_put_key: "sorted_keys k xs \<Longrightarrow> sorted_keys k (put_key k v xs)"
  by (simp add: put_key_def sorted_ins_key sorted_del_key)

lemma set_put_key: "set (put_key k v xs) = insert v {x \<in> set xs. k x \<noteq> k v}"
  by (auto simp: put_key_def set_ins_key del_key_def has_key_def)

lemma fold_put_key:
  assumes "distinct (map k ys)" and "sorted_keys k xs"
  shows "sorted_keys k (fold (put_key k) ys xs)"
    and "set (fold (put_key k) ys xs) = set ys \<union> {x \<in> set xs. k x \<notin> k ` set ys}"
  using assms
proof (induction ys arbitrary: xs)
  case (Cons y ys)
  {
    case 1
    then show ?case
      using Cons.IH(1) by (simp add: sorted_put_key)
  next
    case 2
    then show ?case
      using Cons.IH(2) [of "put_key k y xs"] by (auto simp: sorted_put_key set_put_key)
  }
qed simp_all

section \<open>Retaining\<close>

text \<open>The list-level reading of \<open>retain\<close>: the predicate's state runs along the elements.\<close>

fun retain_list :: "('st \<Rightarrow> 'a \<Rightarrow> bool \<times> 'st) \<Rightarrow> 'st \<Rightarrow> 'a list \<Rightarrow> 'a list \<times> 'st" where
  "retain_list f st [] = ([], st)"
| "retain_list f st (x # xs) =
     (let (keep, st1) = f st x; (ys, st2) = retain_list f st1 xs
      in (if keep then x # ys else ys, st2))"

text \<open>The positions \<open>retain\<close> drops, counted from \<open>n\<close>.\<close>

fun drop_idx :: "('st \<Rightarrow> 'a \<Rightarrow> bool \<times> 'st) \<Rightarrow> 'st \<Rightarrow> nat \<Rightarrow> 'a list \<Rightarrow> nat list" where
  "drop_idx f st n [] = []"
| "drop_idx f st n (x # xs) =
     (let (keep, st1) = f st x; ps = drop_idx f st1 (Suc n) xs in if keep then ps else n # ps)"

lemma drop_idx_range: "\<forall>g\<in>set (drop_idx f st n xs). n \<le> g \<and> g < n + length xs"
proof (induction xs arbitrary: st n)
  case (Cons x xs)
  have "\<forall>g\<in>set (drop_idx f st1 (Suc n) xs). n \<le> g \<and> g < n + length (x # xs)" for st1
    using Cons [of st1 "Suc n"] by auto
  then show ?case
    by (auto simp add: Let_def split_def)
qed simp

lemma sorted_drop_idx: "sorted_wrt (<) (drop_idx f st n xs)"
proof (induction xs arbitrary: st n)
  case (Cons x xs)
  have "\<forall>g\<in>set (drop_idx f st1 (Suc n) xs). n < g" for st1
    using drop_idx_range [of f st1 "Suc n" xs] by auto
  with Cons show ?case
    by (simp add: Let_def split_def)
qed simp

lemma drop_idx_append:
  "drop_idx f st n (xs @ ys) =
     drop_idx f st n xs @ drop_idx f (snd (retain_list f st xs)) (n + length xs) ys"
  by (induction xs arbitrary: st n) (auto simp: Let_def split: prod.splits)

lemma retain_list_append:
  "retain_list f st (xs @ ys) =
     (let (as, st1) = retain_list f st xs; (bs, st2) = retain_list f st1 ys in (as @ bs, st2))"
  by (induction xs arbitrary: st) (auto simp: Let_def split: prod.splits)

lemma fold_remove_drop_idx:
  "fold remove_at (rev (drop_idx f st (length ys) xs)) (ys @ xs) = ys @ fst (retain_list f st xs)"
proof (induction xs arbitrary: st ys)
  case (Cons x xs)
  have "fold remove_at (rev (drop_idx f st1 (Suc (length ys)) xs)) (ys @ x # xs)
      = ys @ x # fst (retain_list f st1 xs)" for st1
    using Cons [of st1 "ys @ [x]"] by simp
  moreover have "remove_at (length ys) (ys @ x # zs) = ys @ zs" for zs
    by (simp add: remove_at_def)
  ultimately show ?case
    by (simp add: Let_def split_def)
qed simp

lemma scan_node_eq:
  "retain_scan_node f st i p xs = (map (Pair i) (drop_idx f st p xs), snd (retain_list f st xs))"
  by (induction xs arbitrary: st p) (auto simp: Let_def split: prod.splits)

definition glob :: "'a list list \<Rightarrow> nat \<times> nat \<Rightarrow> nat" where
  "glob ns p = offset ns (fst p) + snd p"

definition valid_pos :: "'a list list \<Rightarrow> nat \<times> nat \<Rightarrow> bool" where
  "valid_pos ns p \<longleftrightarrow> fst p < length ns \<and> snd p < length (ns ! fst p)"

lemma glob_less:
  assumes "valid_pos ns p" and "valid_pos ns q" and "glob ns q < glob ns p"
  shows "fst q < fst p \<or> fst q = fst p \<and> snd q < snd p"
proof (cases "fst p < fst q")
  case True
  have "glob ns p < offset ns (Suc (fst p))"
    using assms(1) by (simp add: glob_def valid_pos_def offset_Suc)
  also have "\<dots> \<le> glob ns q"
    using offset_mono [of "Suc (fst p)" "fst q" ns] True by (simp add: glob_def)
  finally show ?thesis
    using assms(3) by simp
next
  case False
  then show ?thesis
    using assms(3) by (auto simp: glob_def)
qed

lemma scan_state: "snd (retain_scan f st m ns) = snd (retain_list f st (concat ns))"
  by (induction ns arbitrary: st m)
    (simp_all add: Let_def scan_node_eq retain_list_append split_def)

lemma drop_idx_shift: "map ((+) m) (drop_idx f st l xs) = drop_idx f st (m + l) xs"
  by (induction xs arbitrary: st l) (auto simp: Let_def split: prod.splits)

lemma scan_positions:
  "map (glob (pre @ ns)) (fst (retain_scan f st (length pre) ns)) =
     drop_idx f st (length (concat pre)) (concat ns)"
proof (induction ns arbitrary: st pre)
  case (Cons n ns)
  have "map (glob (pre @ n # ns)) (map (Pair (length pre)) gs) = map ((+) (length (concat pre))) gs" for gs
    by (simp add: glob_def offset_def length_concat)
  then show ?case
    using Cons [of "pre @ [n]" "snd (retain_list f st n)"]
    by (simp add: Let_def scan_node_eq split_def drop_idx_append drop_idx_shift del: map_map)
qed simp

lemma scan_valid: "\<forall>p\<in>set (fst (retain_scan f st (length pre) ns)). valid_pos (pre @ ns) p"
proof (induction ns arbitrary: st pre)
  case (Cons n ns)
  then show ?case
    using Cons [of "snd (retain_list f st n)" "pre @ [n]"] drop_idx_range [of f st 0 n]
    by (auto simp: Let_def scan_node_eq split_def valid_pos_def nth_append)
qed simp

text \<open>A deletion leaves every smaller position where it was.\<close>

lemma delete_at_before:
  assumes "bset_delete_at D s i j = Inr (x, s')" and "valid_pos (inner s) q"
    and "fst q < i \<or> fst q = i \<and> snd q < j"
  shows "valid_pos (inner s') q" and "glob (inner s') q = glob (inner s) q"
proof -
  note di = delete_at_inner [OF assms(1) refl refl]
  have "valid_pos (inner s') q \<and> take (fst q) (inner s') = take (fst q) (inner s)"
    using di assms(2,3) by (auto simp: valid_pos_def nth_append nth_list_update min_def)
  then show "valid_pos (inner s') q" "glob (inner s') q = glob (inner s) q"
    by (simp_all add: glob_def offset_def)
qed

context btree_deps
begin

lemma delete_positions_step:
  assumes "bset_inv slots k s" and "sorted_wrt (<) (map (glob (inner s)) ps)"
    and "\<forall>p\<in>set ps. valid_pos (inner s) p"
  shows "\<exists>s'. bset_delete_positions D s (rev ps) = Inr s' \<and>
    bset_step slots k s (fold remove_at (rev (map (glob (inner s)) ps)) (elems s)) s'"
  using assms
proof (induction ps arbitrary: s rule: rev_induct)
  case Nil
  then show ?case by (simp add: bset_step_refl)
next
  case (snoc p ps)
  obtain i j where p: "p = (i, j)" by (cases p)
  have v: "i < length (inner s)" "j < length (inner s ! i)"
    using snoc.prems(3) by (simp_all add: p valid_pos_def)
  obtain s1 where s1: "bset_delete_at D s i j = Inr (inner s ! i ! j, s1)"
    "bset_step slots k s (remove_at (glob (inner s) p) (elems s)) s1"
    using delete_at_step [OF snoc.prems(1) v] by (auto simp: glob_def p)
  have keep: "valid_pos (inner s1) q \<and> glob (inner s1) q = glob (inner s) q" if "q \<in> set ps" for q
  proof -
    have "fst q < i \<or> fst q = i \<and> snd q < j"
      using glob_less [of "inner s" p q] snoc.prems(2,3) that by (auto simp: sorted_wrt_append p)
    then show ?thesis
      using delete_at_before [OF s1(1)] snoc.prems(3) that by auto
  qed
  then have same: "map (glob (inner s1)) ps = map (glob (inner s)) ps"
    by simp
  obtain s2 where "bset_delete_positions D s1 (rev ps) = Inr s2"
    "bset_step slots k s1 (fold remove_at (rev (map (glob (inner s1)) ps)) (elems s1)) s2"
    using snoc.IH [of s1] bset_stepD(2) [OF s1(2)] keep snoc.prems(2)
    by (auto simp: same sorted_wrt_append)
  then show ?case
    using s1 bset_step_trans [OF s1(2)] bset_stepD(1) [OF s1(2)] same by (simp add: p)
qed

lemma retain_step:
  assumes inv: "bset_inv slots k s"
  shows "\<exists>s'. bset_retain D f st s = Inr (s', snd (retain_list f st (elems s))) \<and>
    bset_step slots k s (fst (retain_list f st (elems s))) s'"
proof -
  obtain ps st' where scan: "retain_scan f st 0 (inner s) = (ps, st')"
    by (cases "retain_scan f st 0 (inner s)")
  have sc: "st' = snd (retain_list f st (elems s))"
    "map (glob (inner s)) ps = drop_idx f st 0 (elems s)" "\<forall>p\<in>set ps. valid_pos (inner s) p"
    using scan_positions [where pre = "[]" and f = f and st = st and ns = "inner s"]
      scan_valid [where pre = "[]" and f = f and st = st and ns = "inner s"]
      scan_state [of f st 0 "inner s"] by (simp_all add: scan elems_def)
  obtain s' where s': "bset_delete_positions D s (rev ps) = Inr s'"
    "bset_step slots k s (fold remove_at (rev (drop_idx f st 0 (elems s))) (elems s)) s'"
    using delete_positions_step [OF inv _ sc(3)] sorted_drop_idx [of f st 0 "elems s"]
    by (auto simp: sc(2))
  then show ?thesis
    using fold_remove_drop_idx [of f st "[]" "elems s"] sc(1)
    by (simp add: bset_retain_def scan)
qed

end

end
