(* ===== verification/Btree_Set_Iter_Facts.thy ===== *)
theory Btree_Set_Iter_Facts
  imports Btree_Set_Iter Btree_Set_Bulk
begin

text \<open>
  The iterators of \<open>BTreeSet\<close> satisfy the iterator contracts: \<open>Iter\<close> and \<open>Range\<close> over the
  global interval between their two counters, \<open>IntoIter\<close> over the contents of the tree it
  consumes, and the merging iterators over the merge of two sorted lists.
\<close>

section \<open>Iter\<close>

definition front_ok :: "('a, 'f) iter \<Rightarrow> bool" where
  "front_ok it \<longleftrightarrow> (let ns = inner (it_btree it); i = front_node_idx it in
     i < length ns \<and> (\<exists>j\<le>length (ns ! i). front_iterator it = Some (drop j (ns ! i)) \<and>
       front_idx it = offset ns i + j))"

definition back_ok :: "('a, 'f) iter \<Rightarrow> bool" where
  "back_ok it \<longleftrightarrow> (let ns = inner (it_btree it); i = back_node_idx it in
     i < length ns \<and> (\<exists>j\<le>length (ns ! i). back_iterator it = Some (take j (ns ! i)) \<and>
       back_idx it = offset ns i + j))"

definition iter_ok :: "('a, 'f) iter \<Rightarrow> bool" where
  "iter_ok it \<longleftrightarrow> front_idx it = back_idx it \<or>
     front_idx it < back_idx it \<and> front_ok it \<and> back_ok it"

definition iter_rest :: "('a, 'f) iter \<Rightarrow> 'a list" where
  "iter_rest it = window (front_idx it) (back_idx it) (concat (inner (it_btree it)))"

lemma front_okE:
  assumes "front_ok it"
  obtains j where "front_node_idx it < length (inner (it_btree it))"
    "j \<le> length (inner (it_btree it) ! front_node_idx it)"
    "front_iterator it = Some (drop j (inner (it_btree it) ! front_node_idx it))"
    "front_idx it = offset (inner (it_btree it)) (front_node_idx it) + j"
  using assms by (auto simp: front_ok_def Let_def)

lemma back_okE:
  assumes "back_ok it"
  obtains j where "back_node_idx it < length (inner (it_btree it))"
    "j \<le> length (inner (it_btree it) ! back_node_idx it)"
    "back_iterator it = Some (take j (inner (it_btree it) ! back_node_idx it))"
    "back_idx it = offset (inner (it_btree it)) (back_node_idx it) + j"
  using assms by (auto simp: back_ok_def Let_def)

lemma back_ok_bound: "back_ok it \<Longrightarrow> back_idx it \<le> length (concat (inner (it_btree it)))"
  by (elim back_okE) (metis add_left_mono le_trans offset_Suc offset_le)

text \<open>
  Going forward only, the back counter may lie anywhere: past the end of the tree, or before the
  front counter, and then the iterator runs to the end of the tree.
\<close>

definition front_done :: "('a, 'f) iter \<Rightarrow> bool" where
  "front_done it \<longleftrightarrow> length (inner (it_btree it)) \<le> front_node_idx it \<and>
     slice_next (front_iterator it) = None \<and> length (concat (inner (it_btree it))) \<le> front_idx it"

definition forward_ok :: "('a, 'f) iter \<Rightarrow> bool" where
  "forward_ok it \<longleftrightarrow> front_idx it = back_idx it \<or> front_ok it \<or> front_done it"

definition forward_rest :: "('a, 'f) iter \<Rightarrow> 'a list" where
  "forward_rest it = (let xs = concat (inner (it_btree it)) in
     if front_idx it \<le> back_idx it then window (front_idx it) (back_idx it) xs
     else drop (front_idx it) xs)"

text \<open>A forward step touches the front half of the state only.\<close>

definition same_back :: "('a, 'f) iter \<Rightarrow> ('a, 'f) iter \<Rightarrow> bool" where
  "same_back it it' \<longleftrightarrow> it_btree it' = it_btree it \<and> back_node_idx it' = back_node_idx it \<and>
     back_idx it' = back_idx it \<and> back_iterator it' = back_iterator it"

lemma forward_rest_done: "front_done it \<Longrightarrow> forward_rest it = []"
  by (simp add: front_done_def forward_rest_def window_def Let_def)

lemma forward_rest_Cons:
  assumes "front_idx it \<noteq> back_idx it" and "front_idx it < length (concat (inner (it_btree it)))"
  shows "forward_rest it = concat (inner (it_btree it)) ! front_idx it #
    forward_rest (it\<lparr> front_iterator := l, front_idx := front_idx it + 1 \<rparr>)"
proof (cases "front_idx it < back_idx it")
  case True
  let ?xs = "concat (inner (it_btree it))"
  have "window (front_idx it) (back_idx it) ?xs =
      window (front_idx it) (min (back_idx it) (length ?xs)) ?xs" for F
    by (auto simp: window_def min_def)
  moreover have "window (Suc (front_idx it)) (back_idx it) ?xs =
      window (Suc (front_idx it)) (min (back_idx it) (length ?xs)) ?xs" for F
    by (auto simp: window_def min_def)
  ultimately show ?thesis
    using True assms(2) window_Cons [of "front_idx it" "min (back_idx it) (length ?xs)" ?xs]
    by (simp add: forward_rest_def Let_def)
next
  case False
  then show ?thesis
    using assms by (simp add: forward_rest_def Let_def Cons_nth_drop_Suc)
qed

lemma iter_next_forward:
  assumes "front_idx it \<noteq> back_idx it" and "front_ok it \<or> front_done it"
  shows "\<exists>it'. iter_next it = Inr (vec_first (forward_rest it), it') \<and>
    (front_ok it' \<or> front_done it') \<and> forward_rest it' = tl (forward_rest it) \<and> same_back it it' \<and>
    front_idx it' = front_idx it + (if forward_rest it = [] then 0 else 1)"
  using assms
proof (induction it rule: iter_next.induct)
  case (1 it)
  let ?ns = "inner (it_btree it)" and ?i = "front_node_idx it"
  note neq = "1.prems"(1)
  show ?case
  proof (cases "front_done it")
    case True
    then have "iter_next it = Inr (None, it\<lparr> front_node_idx := Suc ?i \<rparr>)"
      "front_done (it\<lparr> front_node_idx := Suc ?i \<rparr>)" "forward_rest it = []"
      using neq forward_rest_done [OF True] by (auto simp: front_done_def iter_next.simps [of it])
    then show ?thesis
      using forward_rest_done by (auto simp: same_back_def)
  next
    case False
    then obtain j where j: "?i < length ?ns" "j \<le> length (?ns ! ?i)"
      "front_iterator it = Some (drop j (?ns ! ?i))" "front_idx it = offset ?ns ?i + j"
      using "1.prems"(2) front_okE by blast
    show ?thesis
    proof (cases "j < length (?ns ! ?i)")
      case True
      let ?it' = "it\<lparr> front_iterator := Some (drop (Suc j) (?ns ! ?i)), front_idx := front_idx it + 1 \<rparr>"
      have "iter_next it = Inr (Some (?ns ! ?i ! j), ?it')"
        using neq j True
        by (subst iter_next.simps) (simp add: slice_next_def Cons_nth_drop_Suc [symmetric])
      moreover have "front_ok ?it'"
        using j True by (auto simp: front_ok_def Let_def intro!: exI [of _ "Suc j"])
      moreover have "forward_rest it = ?ns ! ?i ! j # forward_rest ?it'"
        using forward_rest_Cons [OF neq, of "Some (drop (Suc j) (?ns ! ?i))"] spine_nth [OF j(1) True] j(4)
        by simp
      ultimately show ?thesis
        by (auto simp: same_back_def)
    next
      case False
      then have F: "front_idx it = offset ?ns (Suc ?i)" and none: "slice_next (front_iterator it) = None"
        using j by (simp_all add: offset_Suc slice_next_def)
      show ?thesis
      proof (cases "Suc ?i < length ?ns")
        case True
        let ?it1 = "it\<lparr> front_node_idx := Suc ?i, front_iterator := Some (?ns ! Suc ?i) \<rparr>"
        have "front_ok ?it1"
          using True F by (auto simp: front_ok_def Let_def intro!: exI [of _ 0])
        moreover have "iter_next it = iter_next ?it1"
          using neq none True by (subst iter_next.simps) simp
        moreover have "forward_rest ?it1 = forward_rest it" "same_back ?it1 it' = same_back it it'" for it'
          by (simp_all add: forward_rest_def same_back_def Let_def)
        ultimately show ?thesis
          using "1.IH" [OF neq none refl] neq True by (simp split del: if_split)
      next
        case False
        then have "Suc ?i = length ?ns"
          using j(1) by simp
        then have total: "front_idx it = length (concat ?ns)"
          using F by simp
        let ?it' = "it\<lparr> front_node_idx := Suc ?i \<rparr>"
        have "front_done ?it'"
          using total none False by (simp add: front_done_def)
        moreover have "iter_next it = Inr (None, ?it')"
          using neq none False by (subst iter_next.simps) simp
        moreover have "forward_rest it = []"
          using total by (simp add: forward_rest_def window_def Let_def)
        ultimately show ?thesis
          using forward_rest_done by (auto simp: same_back_def)
      qed
    qed
  qed
qed

lemma iter_next_ok:
  assumes "front_idx it < back_idx it" and "front_ok it" and "back_ok it"
  shows "\<exists>it'. iter_next it = Inr (vec_first (iter_rest it), it') \<and> iter_ok it' \<and>
    iter_rest it' = tl (iter_rest it) \<and> it_btree it' = it_btree it"
proof -
  have rest: "forward_rest it = iter_rest it"
    using assms(1) by (simp add: forward_rest_def iter_rest_def Let_def)
  have ne: "iter_rest it \<noteq> []"
    using window_Cons [OF assms(1) back_ok_bound [OF assms(3)]] by (simp add: iter_rest_def)
  obtain it' where it': "iter_next it = Inr (vec_first (iter_rest it), it')"
    "front_ok it' \<or> front_done it'" "forward_rest it' = tl (iter_rest it)" "same_back it it'"
    "front_idx it' = front_idx it + 1"
    using iter_next_forward [of it] assms(1,2) rest ne by auto
  have "back_ok it'"
    using it'(4) assms(3) by (simp add: same_back_def back_ok_def)
  moreover have "\<not> front_done it'" if "front_idx it' < back_idx it'"
    using that back_ok_bound [OF \<open>back_ok it'\<close>] by (auto simp: front_done_def)
  ultimately have "iter_ok it'"
    using it'(2,4,5) assms(1) by (auto simp: iter_ok_def same_back_def)
  moreover have "forward_rest it' = iter_rest it'"
    using it'(4,5) assms(1) by (simp add: forward_rest_def iter_rest_def Let_def same_back_def)
  ultimately show ?thesis
    using it' by (auto simp: same_back_def)
qed

lemma iter_next_back_ok:
  assumes "front_idx it < back_idx it" and "front_ok it" and "back_ok it"
  shows "\<exists>it'. iter_next_back it = Inr (vec_last (iter_rest it), it') \<and> iter_ok it' \<and>
    iter_rest it' = butlast (iter_rest it) \<and> it_btree it' = it_btree it"
  using assms
proof (induction it rule: iter_next_back.induct)
  case (1 it)
  let ?ns = "inner (it_btree it)" and ?i = "back_node_idx it"
  note lt = "1.prems"(1) and bnd = back_ok_bound [OF "1.prems"(3)]
  obtain j where j: "?i < length ?ns" "j \<le> length (?ns ! ?i)"
    "back_iterator it = Some (take j (?ns ! ?i))" "back_idx it = offset ?ns ?i + j"
    using "1.prems"(3) by (rule back_okE)
  show ?case
  proof (cases "j = 0")
    case False
    let ?it' = "it\<lparr> back_iterator := Some (take (j - 1) (?ns ! ?i)), back_idx := back_idx it - 1 \<rparr>"
    have l: "last (take j (?ns ! ?i)) = ?ns ! ?i ! (j - 1)" "butlast (take j (?ns ! ?i)) = take (j - 1) (?ns ! ?i)"
      using False j(2) by (auto simp: butlast_take) (subst last_conv_nth; auto simp: min_def)
    have run: "iter_next_back it = Inr (Some (?ns ! ?i ! (j - 1)), ?it')"
      using lt j False l
      by (subst iter_next_back.simps) (auto simp: slice_next_back_def)
    have "front_ok ?it'" "back_ok ?it'"
      using j False "1.prems"(2) by (auto simp: front_ok_def back_ok_def Let_def intro!: exI [of _ "j - 1"])
    then have "iter_ok ?it'"
      using lt by (auto simp: iter_ok_def)
    moreover have "iter_rest it = iter_rest ?it' @ [?ns ! ?i ! (j - 1)]"
      using window_snoc [OF lt bnd] spine_nth(1) [OF j(1), of "j - 1"] j(2,4) False
      by (simp add: iter_rest_def)
    ultimately show ?thesis
      using run by auto
  next
    case True
    then have B: "back_idx it = offset ?ns ?i" and none: "slice_next_back (back_iterator it) = None"
      using j by (simp_all add: slice_next_back_def)
    have i: "?i \<noteq> 0"
    proof
      assume "?i = 0"
      then show False
        using B lt by simp
    qed
    let ?it1 = "it\<lparr> back_node_idx := ?i - 1, back_iterator := Some (?ns ! (?i - 1)) \<rparr>"
    have off: "offset ?ns ?i = offset ?ns (?i - 1) + length (?ns ! (?i - 1))"
      using offset_Suc [of "?i - 1" ?ns] i j(1) by simp
    have "front_ok ?it1" "back_ok ?it1"
      using i j(1) B off "1.prems"(2)
      by (auto simp: front_ok_def back_ok_def Let_def intro!: exI [of _ "length (?ns ! (?i - 1))"])
    moreover have "iter_next_back it = iter_next_back ?it1"
      using lt none i j(1) by (subst iter_next_back.simps) simp
    moreover have "iter_rest ?it1 = iter_rest it"
      by (simp add: iter_rest_def)
    ultimately show ?thesis
      using "1.IH" [OF _ none i refl] lt i j(1) by simp
  qed
qed

interpretation set_iter: double_ended iter_next iter_rest iter_ok iter_next_back
proof
  fix it :: "('a, 'f) iter"
  assume ok: "iter_ok it"
  have fin: "iter_next it = Inr (None, it)" "iter_next_back it = Inr (None, it)" "iter_rest it = []"
    if "front_idx it = back_idx it"
    using that by (simp_all add: iter_next.simps [of it] iter_next_back.simps [of it] iter_rest_def)
  show "\<exists>s'. iter_next it = Inr (vec_first (iter_rest it), s') \<and> iter_ok s' \<and>
      iter_rest s' = tl (iter_rest it)"
    using ok iter_next_ok [of it] fin by (cases "front_idx it = back_idx it") (auto simp: iter_ok_def)
  show "\<exists>s'. iter_next_back it = Inr (vec_last (iter_rest it), s') \<and> iter_ok s' \<and>
      iter_rest s' = butlast (iter_rest it)"
    using ok iter_next_back_ok [of it] fin by (cases "front_idx it = back_idx it") (auto simp: iter_ok_def)
qed

interpretation set_iter_forward: iterator iter_next forward_rest forward_ok
proof
  fix it :: "('a, 'f) iter"
  assume ok: "forward_ok it"
  show "\<exists>s'. iter_next it = Inr (vec_first (forward_rest it), s') \<and> forward_ok s' \<and>
      forward_rest s' = tl (forward_rest it)"
  proof (cases "front_idx it = back_idx it")
    case True
    then show ?thesis
      by (simp add: iter_next.simps [of it] forward_rest_def forward_ok_def)
  next
    case False
    then show ?thesis
      using iter_next_forward [OF False] ok by (auto simp: forward_ok_def)
  qed
qed

lemma bset_iter_ok:
  assumes inv: "bset_inv slots k s"
  shows "\<exists>it. bset_iter s = Inr it \<and> iter_ok it \<and> iter_rest it = elems s \<and> it_btree it = s"
proof -
  let ?n = "length (inner s) - 1"
  have n: "?n < length (inner s)" "Suc ?n = length (inner s)"
    using bset_invD(6) [OF inv] by (simp_all add: Suc_le_eq)
  have "offset (inner s) (Suc ?n) = length (elems s)"
    unfolding n(2) by (simp add: elems_def)
  then have total: "len s = offset (inner s) ?n + length (inner s ! ?n)"
    using bset_invD(4) [OF inv] offset_Suc [OF n(1)] by simp
  let ?it = "\<lparr> it_btree = s, front_node_idx = 0, front_idx = 0, back_node_idx = ?n, back_idx = len s,
    front_iterator = Some (inner s ! 0), back_iterator = Some (inner s ! ?n) \<rparr>"
  have "front_ok ?it" "back_ok ?it"
    using n total by (auto simp: front_ok_def back_ok_def intro!: exI [of _ 0] exI [of _ "length (inner s ! ?n)"])
  then have "iter_ok ?it"
    by (auto simp: iter_ok_def)
  moreover have "iter_rest ?it = elems s"
    using bset_invD(4) [OF inv] by (simp add: iter_rest_def elems_def)
  ultimately show ?thesis
    using n by (auto simp: bset_iter_def bset_len_def usize_sub_def vec_index_def)
qed

section \<open>IntoIter\<close>

locale btree_order = btree_deps D slots
  for D :: "('a, 'f) deps" and slots :: "'f \<Rightarrow> nat list" +
  fixes k :: "'a \<Rightarrow> 'k::linorder"

sublocale btree_order \<subseteq> into_iter: double_ended "into_iter_next D" "\<lambda>it. elems (into_btree it)"
  "\<lambda>it. bset_inv slots k (into_btree it)" "into_iter_next_back D"
proof
  fix it :: "('a, 'f) into_iter"
  assume inv: "bset_inv slots k (into_btree it)"
  obtain s1 where "bset_pop_first D (into_btree it) = Inr (vec_first (elems (into_btree it)), s1)"
    "bset_step slots k (into_btree it) (tl (elems (into_btree it))) s1"
    using pop_first_step [OF inv] by blast
  then show "\<exists>s'. into_iter_next D it = Inr (vec_first (elems (into_btree it)), s') \<and>
      bset_inv slots k (into_btree s') \<and> elems (into_btree s') = tl (elems (into_btree it))"
    by (auto simp: into_iter_next_def bset_step_def)
  obtain s2 where "bset_pop_last D (into_btree it) = Inr (vec_last (elems (into_btree it)), s2)"
    "bset_step slots k (into_btree it) (butlast (elems (into_btree it))) s2"
    using pop_last_step [OF inv] by blast
  then show "\<exists>s'. into_iter_next_back D it = Inr (vec_last (elems (into_btree it)), s') \<and>
      bset_inv slots k (into_btree s') \<and> elems (into_btree s') = butlast (elems (into_btree it))"
    by (auto simp: into_iter_next_back_def bset_step_def)
qed

context btree_order
begin

lemma into_double_ended: "double_ended (into_iter_next D) (\<lambda>it. elems (into_btree it))
    (\<lambda>it. bset_inv slots k (into_btree it)) (into_iter_next_back D)"
  by (rule into_iter.double_ended_axioms)

lemma into_iter_deque:
  assumes "bset_inv slots k s"
  shows "calls (into_iter_next D) (into_iter_next_back D) bs (bset_into_iter s) = Inr (deque_calls bs (elems s))"
    and "length (elems s) < n \<Longrightarrow> collect (into_iter_next D) n (bset_into_iter s) = Inr (Some (elems s))"
  using into_iter.calls_deque [of "bset_into_iter s" bs] into_iter.collect_rest [of "bset_into_iter s" n] assms
  by (simp_all add: bset_into_iter_def)

end

interpretation ref_order: btree_order ref_deps id "id :: nat \<Rightarrow> nat"
  by (simp add: btree_order_def ref.btree_deps_axioms)

section \<open>Ranges\<close>

lemma range_next_eq:
  "range_next r = rbind (iter_next (spine_iter r)) (\<lambda>(x, it). Inr (x, r\<lparr> spine_iter := it \<rparr>))"
  "range_next_back r = rbind (iter_next_back (spine_iter r)) (\<lambda>(x, it). Inr (x, r\<lparr> spine_iter := it \<rparr>))"
  by (simp_all add: range_next_def range_next_back_def)

interpretation set_range: double_ended range_next "\<lambda>r. iter_rest (spine_iter r)"
  "\<lambda>r. iter_ok (spine_iter r)" range_next_back
proof
  fix r :: "('a, 'f) range"
  assume "iter_ok (spine_iter r)"
  then show "\<exists>s'. range_next r = Inr (vec_first (iter_rest (spine_iter r)), s') \<and>
      iter_ok (spine_iter s') \<and> iter_rest (spine_iter s') = tl (iter_rest (spine_iter r))"
    and "\<exists>s'. range_next_back r = Inr (vec_last (iter_rest (spine_iter r)), s') \<and>
      iter_ok (spine_iter s') \<and> iter_rest (spine_iter s') = butlast (iter_rest (spine_iter r))"
    using set_iter.next_step [of "spine_iter r"] set_iter.next_back_step [of "spine_iter r"]
    by (auto simp: range_next_eq)
qed

interpretation set_range_forward: iterator range_next "\<lambda>r. forward_rest (spine_iter r)"
  "\<lambda>r. forward_ok (spine_iter r)"
proof
  fix r :: "('a, 'f) range"
  assume "forward_ok (spine_iter r)"
  then show "\<exists>s'. range_next r = Inr (vec_first (forward_rest (spine_iter r)), s') \<and>
      forward_ok (spine_iter s') \<and> forward_rest (spine_iter s') = tl (forward_rest (spine_iter r))"
    using set_iter_forward.next_step [of "spine_iter r"] by (auto simp: range_next_eq)
qed

context btree_deps
begin

text \<open>
  An index range from \<open>a\<close> to \<open>b\<close> inclusive: never a panic, and what it holds forward; within the
  tree it is the window from both ends.
\<close>

lemma range_idx_ok:
  assumes inv: "bset_inv slots k s"
  shows "\<exists>r. bset_range_idx D s (Included a) (Included b) = Inr r \<and> forward_ok (spine_iter r) \<and>
    forward_rest (spine_iter r) = (if a \<le> Suc b then window a (Suc b) (elems s) else drop a (elems s)) \<and>
    (a \<le> Suc b \<longrightarrow> a = Suc b \<or> b < length (elems s) \<longrightarrow>
       iter_ok (spine_iter r) \<and> iter_rest (spine_iter r) = window a (Suc b) (elems s))"
proof -
  let ?ns = "inner s"
  have total: "ft_prefix_sum (dep_ftree D) (index s) (length ?ns) 0 = Inr (length (elems s))"
    using prefix_sum_offset [OF inv, of "length ?ns"] by (simp add: elems_def)
  obtain fi fj fl where f: "bset_locate_ith D s a = Inr (fi, fj)"
    "(if fi < length ?ns then rbind (slice_from (?ns ! fi) fj) (\<lambda>xs. Inr (Some xs)) else Inr None) = Inr fl"
    "if a < length (elems s) then fi < length ?ns \<and> fj < length (?ns ! fi) \<and> offset ?ns fi + fj = a \<and>
       fl = Some (drop fj (?ns ! fi)) else length ?ns \<le> fi \<and> fl = None"
    by (cases rule: locate_ith_cases [OF inv, of a]) (auto simp: slice_from_def)
  obtain bi bj bl where b: "bset_locate_ith D s b = Inr (bi, bj)"
    "(if bi < length ?ns then rbind (slice_to_inclusive (?ns ! bi) bj) (\<lambda>xs. Inr (Some xs)) else Inr None)
       = Inr bl"
    "b < length (elems s) \<Longrightarrow> bi < length ?ns \<and> bj < length (?ns ! bi) \<and> offset ?ns bi + bj = b \<and>
       bl = Some (take (Suc bj) (?ns ! bi))"
    by (cases rule: locate_ith_cases [OF inv, of b]) (auto simp: slice_to_inclusive_def)
  let ?it = "\<lparr> it_btree = s, front_node_idx = fi, front_idx = a, back_node_idx = bi, back_idx = b + 1,
    front_iterator = fl, back_iterator = bl \<rparr>"
  have run: "bset_range_idx D s (Included a) (Included b) = Inr \<lparr> spine_iter = ?it \<rparr>"
    using f(1,2) b(1,2) by (simp add: bset_range_idx_def resolve_range_def total)
  have front: "if a < length (elems s) then front_ok ?it else front_done ?it"
    using f(3) by (auto simp: front_ok_def front_done_def slice_next_def elems_def intro!: exI [of _ fj])
  have bk: "back_ok ?it" if "b < length (elems s)"
    using b(3) [OF that] by (auto simp: back_ok_def intro!: exI [of _ "Suc bj"])
  have "forward_ok ?it"
    using front by (auto simp: forward_ok_def split: if_splits)
  moreover have "iter_ok ?it" if "a \<le> Suc b" "a = Suc b \<or> b < length (elems s)"
    using that front bk by (auto simp: iter_ok_def le_Suc_eq)
  ultimately show ?thesis
    using run by (auto simp: forward_rest_def iter_rest_def elems_def Let_def)
qed

lemma range_idx_calls:
  assumes inv: "bset_inv slots k s"
  shows "\<exists>r. bset_range_idx D s (Included a) (Included b) = Inr r \<and>
    (a \<le> b + 1 \<longrightarrow> collect range_next (bset_len s + 1) r =
        Inr (Some (take (b + 1 - a) (drop a (elems s))))) \<and>
    (a \<le> b + 1 \<and> b < bset_len s \<longrightarrow> calls range_next range_next_back script r =
        Inr (deque_calls script (take (b + 1 - a) (drop a (elems s)))))"
proof -
  obtain r where r: "bset_range_idx D s (Included a) (Included b) = Inr r" "forward_ok (spine_iter r)"
    "a \<le> Suc b \<Longrightarrow> forward_rest (spine_iter r) = window a (Suc b) (elems s)"
    "a \<le> Suc b \<Longrightarrow> b < length (elems s) \<Longrightarrow>
       iter_ok (spine_iter r) \<and> iter_rest (spine_iter r) = window a (Suc b) (elems s)"
    using range_idx_ok [OF inv, of a b] by auto
  have "length (window a (Suc b) (elems s)) < bset_len s + 1"
    using bset_invD(4) [OF inv] by (simp add: bset_len_def window_def)
  then show ?thesis
    using r(1) r(3,4) set_range_forward.collect_rest [OF r(2)] set_range.calls_deque [of r script]
      bset_invD(4) [OF inv]
    by (simp add: window_def bset_len_def)
qed

end

end
