(* ===== verification/Btree_Set_Algebra.thy ===== *)
theory Btree_Set_Algebra
  imports Btree_Set_Iter_Facts
begin

text \<open>
  The merging iterators \<open>Union\<close>, \<open>Difference\<close>, \<open>SymmetricDifference\<close> and \<open>Intersection\<close>
  satisfy the iterator contract over the merge of two lists, and on sorted lists that merge is
  the set operation.
\<close>

section \<open>The merge of two lists\<close>

text \<open>One advance of \<open>MergeIter\<close>: drop the smaller head, or both when they are equal.\<close>

fun adv :: "('a \<Rightarrow> 'k::linorder) \<Rightarrow> 'a list \<times> 'a list \<Rightarrow> 'a list \<times> 'a list" where
  "adv k (x # xs, y # ys) =
     (if k x < k y then (xs, y # ys) else if k y < k x then (x # xs, ys) else (xs, ys))"
| "adv k (x # xs, []) = (xs, [])"
| "adv k ([], y # ys) = ([], ys)"
| "adv k ([], []) = ([], [])"

fun union_list :: "('a \<Rightarrow> 'k::linorder) \<Rightarrow> 'a list \<times> 'a list \<Rightarrow> 'a list" where
  "union_list k (x # xs, y # ys) =
     (if k y < k x then y # union_list k (x # xs, ys)
      else if k x < k y then x # union_list k (xs, y # ys)
      else x # union_list k (xs, ys))"
| "union_list k (xs, []) = xs"
| "union_list k ([], ys) = ys"

fun difference_list :: "('a \<Rightarrow> 'k::linorder) \<Rightarrow> 'a list \<times> 'a list \<Rightarrow> 'a list" where
  "difference_list k (x # xs, y # ys) =
     (if k x < k y then x # difference_list k (xs, y # ys)
      else if k y < k x then difference_list k (x # xs, ys)
      else difference_list k (xs, ys))"
| "difference_list k (xs, []) = xs"
| "difference_list k ([], ys) = []"

fun symmetric_difference_list :: "('a \<Rightarrow> 'k::linorder) \<Rightarrow> 'a list \<times> 'a list \<Rightarrow> 'a list" where
  "symmetric_difference_list k (x # xs, y # ys) =
     (if k x < k y then x # symmetric_difference_list k (xs, y # ys)
      else if k y < k x then y # symmetric_difference_list k (x # xs, ys)
      else symmetric_difference_list k (xs, ys))"
| "symmetric_difference_list k (xs, []) = xs"
| "symmetric_difference_list k ([], ys) = ys"

fun intersection_list :: "('a \<Rightarrow> 'k::linorder) \<Rightarrow> 'a list \<times> 'a list \<Rightarrow> 'a list" where
  "intersection_list k (x # xs, y # ys) =
     (if k x = k y then x # intersection_list k (xs, ys)
      else if k x < k y then intersection_list k (xs, y # ys)
      else intersection_list k (x # xs, ys))"
| "intersection_list k (xs, []) = []"
| "intersection_list k ([], ys) = []"

section \<open>MergeIter\<close>

definition left_list :: "('a, 'f) merge_iter \<Rightarrow> 'a list" where
  "left_list m = (case current_left m of Some x \<Rightarrow> x # iter_rest (left_iter m) | None \<Rightarrow> [])"

definition right_list :: "('a, 'f) merge_iter \<Rightarrow> 'a list" where
  "right_list m = (case current_right m of Some x \<Rightarrow> x # iter_rest (right_iter m) | None \<Rightarrow> [])"

definition pending :: "('a \<Rightarrow> 'k::linorder) \<Rightarrow> ('a, 'f) merge_iter \<Rightarrow> 'a list \<times> 'a list" where
  "pending k m = (if m_start m then (iter_rest (left_iter m), iter_rest (right_iter m))
                  else adv k (left_list m, right_list m))"

definition merge_ok :: "('a, 'f) merge_iter \<Rightarrow> bool" where
  "merge_ok m \<longleftrightarrow> iter_ok (left_iter m) \<and> iter_ok (right_iter m) \<and>
     (\<not> m_start m \<longrightarrow> (current_left m = None \<longrightarrow> iter_rest (left_iter m) = []) \<and>
        (current_right m = None \<longrightarrow> iter_rest (right_iter m) = []))"

lemma current_lists [simp]:
  "current_left m = Some x \<Longrightarrow> left_list m = x # iter_rest (left_iter m)"
  "current_left m = None \<Longrightarrow> left_list m = []"
  "current_right m = Some x \<Longrightarrow> right_list m = x # iter_rest (right_iter m)"
  "current_right m = None \<Longrightarrow> right_list m = []"
  by (simp_all add: left_list_def right_list_def)

lemma left_listI:
  "current_left m = vec_first xs \<Longrightarrow> iter_rest (left_iter m) = tl xs \<Longrightarrow> left_list m = xs"
  by (cases xs) auto

lemma right_listI:
  "current_right m = vec_first xs \<Longrightarrow> iter_rest (right_iter m) = tl xs \<Longrightarrow> right_list m = xs"
  by (cases xs) auto

lemma advance_left_ok:
  assumes "iter_ok (left_iter m)"
  shows "\<exists>it. advance_left m = Inr (m\<lparr> current_left := vec_first (iter_rest (left_iter m)), left_iter := it \<rparr>) \<and>
    iter_ok it \<and> iter_rest it = tl (iter_rest (left_iter m))"
  using set_iter.next_step [OF assms] by (auto simp: advance_left_def)

lemma advance_right_ok:
  assumes "iter_ok (right_iter m)"
  shows "\<exists>it. advance_right m = Inr (m\<lparr> current_right := vec_first (iter_rest (right_iter m)), right_iter := it \<rparr>) \<and>
    iter_ok it \<and> iter_rest it = tl (iter_rest (right_iter m))"
  using set_iter.next_step [OF assms] by (auto simp: advance_right_def)

lemma vec_first_None [simp]: "vec_first xs = None \<longleftrightarrow> xs = []"
  by (cases xs) auto

text \<open>A step reports the heads of the pending lists and makes them the current ones.\<close>

lemma merge_next_ok:
  assumes ok: "merge_ok m" and pend: "pending k m = (ls, rs)"
  shows "\<exists>p m'. merge_next k m = Inr (p, m') \<and>
    (p = Some (vec_first ls, vec_first rs) \<or> p = None \<and> ls = [] \<and> rs = []) \<and>
    merge_ok m' \<and> \<not> m_start m' \<and> left_list m' = ls \<and> right_list m' = rs"
proof -
  obtain l where l: "advance_left m =
      Inr (m\<lparr> current_left := vec_first (iter_rest (left_iter m)), left_iter := l \<rparr>)"
    "iter_ok l" "iter_rest l = tl (iter_rest (left_iter m))"
    using advance_left_ok ok by (auto simp: merge_ok_def)
  have "\<exists>it. iter_ok it \<and> iter_rest it = tl (iter_rest (right_iter m)) \<and>
      (\<forall>m1. right_iter m1 = right_iter m \<longrightarrow> advance_right m1 =
        Inr (m1\<lparr> current_right := vec_first (iter_rest (right_iter m)), right_iter := it \<rparr>))"
    using set_iter.next_step [of "right_iter m"] ok by (auto simp: merge_ok_def advance_right_def)
  then obtain r where r: "iter_ok r" "iter_rest r = tl (iter_rest (right_iter m))"
    "\<And>m1. right_iter m1 = right_iter m \<Longrightarrow> advance_right m1 =
        Inr (m1\<lparr> current_right := vec_first (iter_rest (right_iter m)), right_iter := r \<rparr>)"
    by blast
  show ?thesis
  proof (cases "m_start m")
    case True
    then show ?thesis
      using ok pend l r by (auto simp: merge_next_def merge_ok_def pending_def Let_def intro!: left_listI right_listI)
  next
    case False
    then have emp: "current_left m = None \<Longrightarrow> iter_rest (left_iter m) = []"
      "current_right m = None \<Longrightarrow> iter_rest (right_iter m) = []"
      using ok by (auto simp: merge_ok_def)
    show ?thesis
      using False ok pend l r emp
      by (cases "current_left m"; cases "current_right m")
        (auto simp: merge_next_def merge_ok_def pending_def Let_def compare_def
          split: if_splits intro!: left_listI right_listI)
  qed
qed

lemma merge_nextE:
  assumes "merge_ok m"
  obtains p m' ls rs where "pending k m = (ls, rs)" "merge_next k m = Inr (p, m')" "merge_ok m'"
    "pending k m' = adv k (ls, rs)"
    "p = Some (vec_first ls, vec_first rs) \<or> p = None \<and> ls = [] \<and> rs = []"
proof -
  obtain ls rs where pend: "pending k m = (ls, rs)"
    by (cases "pending k m")
  obtain p m' where m': "merge_next k m = Inr (p, m')"
    "p = Some (vec_first ls, vec_first rs) \<or> p = None \<and> ls = [] \<and> rs = []"
    "merge_ok m'" "\<not> m_start m'" "left_list m' = ls" "right_list m' = rs"
    using merge_next_ok [OF assms pend] by blast
  then have "pending k m' = adv k (ls, rs)"
    by (simp add: pending_def)
  with pend m' that show thesis by blast
qed

section \<open>The four iterators\<close>

lemma merge_lists_Nil [simp]:
  "union_list k ([], rs) = rs" "difference_list k ([], rs) = []"
  "symmetric_difference_list k ([], rs) = rs" "intersection_list k ([], rs) = []"
  by (cases rs; simp)+

lemma union_list_first:
  "vec_first (union_list k (ls, rs)) = (case (vec_first ls, vec_first rs) of
     (Some l, Some r) \<Rightarrow> if k r < k l then Some r else Some l
   | (Some l, None) \<Rightarrow> Some l | (None, Some r) \<Rightarrow> Some r | (None, None) \<Rightarrow> None)"
  by (cases ls; cases rs) auto

lemma union_list_tl: "tl (union_list k (ls, rs)) = union_list k (adv k (ls, rs))"
  by (cases ls; cases rs) auto

interpretation union_iter: iterator "union_next k" "\<lambda>m. union_list k (pending k m)" merge_ok
  for k :: "'a \<Rightarrow> 'k::linorder"
proof
  fix m :: "('a, 'f) merge_iter"
  assume "merge_ok m"
  then obtain p m' ls rs where m': "pending k m = (ls, rs)" "merge_next k m = Inr (p, m')" "merge_ok m'"
    "pending k m' = adv k (ls, rs)"
    "p = Some (vec_first ls, vec_first rs) \<or> p = None \<and> ls = [] \<and> rs = []"
    by (rule merge_nextE)
  have "union_next k m = Inr (vec_first (union_list k (ls, rs)), m')"
    using m'(2,5) by (auto simp: union_next_def union_list_first split: option.splits)
  then show "\<exists>s'. union_next k m = Inr (vec_first (union_list k (pending k m)), s') \<and>
      merge_ok s' \<and> union_list k (pending k s') = tl (union_list k (pending k m))"
    using m'(1,3,4) by (simp add: union_list_tl)
qed

lemma difference_next_ok:
  assumes "merge_ok m"
  shows "\<exists>m'. difference_next k m = Inr (vec_first (difference_list k (pending k m)), m') \<and>
    merge_ok m' \<and> difference_list k (pending k m') = tl (difference_list k (pending k m))"
  using assms
proof (induction k m rule: difference_next.induct)
  case (1 k m)
  obtain p m' ls rs where m': "pending k m = (ls, rs)" "merge_next k m = Inr (p, m')" "merge_ok m'"
    "pending k m' = adv k (ls, rs)"
    "p = Some (vec_first ls, vec_first rs) \<or> p = None \<and> ls = [] \<and> rs = []"
    using "1.prems" by (rule merge_nextE)
  show ?case
    using m' "1.IH" [OF m'(2) refl]
    by (cases ls; cases rs) (auto simp: difference_next.simps [of k m])
qed

lemma symmetric_difference_next_ok:
  assumes "merge_ok m"
  shows "\<exists>m'. symmetric_difference_next k m =
      Inr (vec_first (symmetric_difference_list k (pending k m)), m') \<and>
    merge_ok m' \<and>
    symmetric_difference_list k (pending k m') = tl (symmetric_difference_list k (pending k m))"
  using assms
proof (induction k m rule: symmetric_difference_next.induct)
  case (1 k m)
  obtain p m' ls rs where m': "pending k m = (ls, rs)" "merge_next k m = Inr (p, m')" "merge_ok m'"
    "pending k m' = adv k (ls, rs)"
    "p = Some (vec_first ls, vec_first rs) \<or> p = None \<and> ls = [] \<and> rs = []"
    using "1.prems" by (rule merge_nextE)
  show ?case
    using m' "1.IH" [OF m'(2) refl]
    by (cases ls; cases rs) (auto simp: symmetric_difference_next.simps [of k m])
qed

lemma intersection_next_ok:
  assumes "merge_ok m"
  shows "\<exists>m'. intersection_next k m = Inr (vec_first (intersection_list k (pending k m)), m') \<and>
    merge_ok m' \<and> intersection_list k (pending k m') = tl (intersection_list k (pending k m))"
  using assms
proof (induction k m rule: intersection_next.induct)
  case (1 k m)
  obtain p m' ls rs where m': "pending k m = (ls, rs)" "merge_next k m = Inr (p, m')" "merge_ok m'"
    "pending k m' = adv k (ls, rs)"
    "p = Some (vec_first ls, vec_first rs) \<or> p = None \<and> ls = [] \<and> rs = []"
    using "1.prems" by (rule merge_nextE)
  show ?case
    using m' "1.IH" [OF m'(2) refl]
    by (cases ls; cases rs) (auto simp: intersection_next.simps [of k m] neq_iff split: if_splits)
qed

interpretation difference_iter: iterator "difference_next k" "\<lambda>m. difference_list k (pending k m)" merge_ok
  for k :: "'a \<Rightarrow> 'k::linorder"
  by unfold_locales (rule difference_next_ok)

interpretation symmetric_difference_iter: iterator "symmetric_difference_next k"
  "\<lambda>m. symmetric_difference_list k (pending k m)" merge_ok
  for k :: "'a \<Rightarrow> 'k::linorder"
  by unfold_locales (rule symmetric_difference_next_ok)

interpretation intersection_iter: iterator "intersection_next k"
  "\<lambda>m. intersection_list k (pending k m)" merge_ok
  for k :: "'a \<Rightarrow> 'k::linorder"
  by unfold_locales (rule intersection_next_ok)

lemma new_merge_iter_ok:
  assumes "bset_inv slots k s" and "bset_inv slots' k t"
  shows "\<exists>m. new_merge_iter s t = Inr m \<and> merge_ok m \<and> pending k m = (elems s, elems t)"
  using bset_iter_ok [OF assms(1)] bset_iter_ok [OF assms(2)]
  by (auto simp: new_merge_iter_def merge_ok_def pending_def)

section \<open>Merges of sorted lists are set operations\<close>

lemma difference_list_filter:
  assumes "sorted_keys k ls" and "sorted_keys k rs"
  shows "difference_list k (ls, rs) = filter (\<lambda>x. k x \<notin> k ` set rs) ls"
  using assms
proof (induction k "(ls, rs)" arbitrary: ls rs rule: difference_list.induct)
  case (1 k x xs y ys)
  have above: "\<forall>z\<in>set xs. k x < k z" "\<forall>z\<in>set ys. k y < k z"
    using "1.prems" by auto
  have "k z \<noteq> k y" if "k y < k x" "z \<in> set xs" for z
    using above(1) that by fastforce
  moreover have "k x \<notin> k ` set ys" if "k x < k y"
    using above(2) that by fastforce
  ultimately show ?case
    using "1.hyps" "1.prems" above by (auto simp: image_iff intro!: filter_cong)
qed simp_all

lemma intersection_list_filter:
  assumes "sorted_keys k ls" and "sorted_keys k rs"
  shows "intersection_list k (ls, rs) = filter (\<lambda>x. k x \<in> k ` set rs) ls"
  using assms
proof (induction k "(ls, rs)" arbitrary: ls rs rule: intersection_list.induct)
  case (1 k x xs y ys)
  have above: "\<forall>z\<in>set xs. k x < k z" "\<forall>z\<in>set ys. k y < k z"
    using "1.prems" by auto
  have "k z \<noteq> k y" if "k y \<le> k x" "z \<in> set xs" for z
    using above(1) that by fastforce
  moreover have "k x \<notin> k ` set ys" if "k x < k y"
    using above(2) that by fastforce
  ultimately show ?case
    using "1.hyps" "1.prems" above by (auto simp: image_iff intro!: filter_cong)
qed (simp_all add: filter_empty_conv)

lemma set_union_list:
  assumes "sorted_keys k ls" and "sorted_keys k rs"
  shows "set (union_list k (ls, rs)) = set ls \<union> {y \<in> set rs. k y \<notin> k ` set ls}"
  using assms
proof (induction k "(ls, rs)" arbitrary: ls rs rule: union_list.induct)
  case (1 k x xs y ys)
  have above: "\<forall>z\<in>set xs. k x < k z" "\<forall>z\<in>set ys. k y < k z"
    using "1.prems" by auto
  have "k y \<notin> k ` set xs" if "k y < k x"
    using above(1) that by fastforce
  moreover have "k z \<noteq> k x" if "k x \<le> k y" "z \<in> set ys" for z
    using above(2) that by fastforce
  ultimately show ?case
    using "1.hyps" "1.prems" above by (auto simp: image_iff)
qed auto

lemma sorted_union_list:
  assumes "sorted_keys k ls" and "sorted_keys k rs"
  shows "sorted_keys k (union_list k (ls, rs))"
  using assms
proof (induction k "(ls, rs)" arbitrary: ls rs rule: union_list.induct)
  case (1 k x xs y ys)
  have srt: "sorted_keys k (x # xs)" "sorted_keys k (y # ys)" "sorted_keys k xs" "sorted_keys k ys"
    using "1.prems" by auto
  have above: "\<And>z. z \<in> set xs \<Longrightarrow> k x < k z" "\<And>z. z \<in> set ys \<Longrightarrow> k y < k z"
    using "1.prems" by auto
  show ?case
  proof (cases "k x" "k y" rule: linorder_cases)
    case less
    then show ?thesis
      using "1.hyps"(2) [OF _ less srt(3,2)]
      by (auto simp: set_union_list [OF srt(3,2)] intro: above less_trans [OF less])
  next
    case equal
    then show ?thesis
      using "1.hyps"(3) [OF _ _ srt(3,4)] above
      by (auto simp: set_union_list [OF srt(3,4)])
  next
    case greater
    then show ?thesis
      using "1.hyps"(1) [OF greater srt(1,4)]
      by (auto simp: set_union_list [OF srt(1,4)] intro: above less_trans [OF greater])
  qed
qed simp_all

lemma set_symmetric_difference_list:
  assumes "sorted_keys k ls" and "sorted_keys k rs"
  shows "set (symmetric_difference_list k (ls, rs)) =
    {x \<in> set ls. k x \<notin> k ` set rs} \<union> {y \<in> set rs. k y \<notin> k ` set ls}"
  using assms
proof (induction k "(ls, rs)" arbitrary: ls rs rule: symmetric_difference_list.induct)
  case (1 k x xs y ys)
  have above: "\<forall>z\<in>set xs. k x < k z" "\<forall>z\<in>set ys. k y < k z"
    using "1.prems" by auto
  have "k y \<notin> k ` set xs" if "k y \<le> k x"
    using above(1) that by fastforce
  moreover have "k x \<notin> k ` set ys" if "k x \<le> k y"
    using above(2) that by fastforce
  ultimately show ?case
    using "1.hyps" "1.prems" by (auto simp: image_iff not_less_iff_gr_or_eq)
qed auto

lemma sorted_symmetric_difference_list:
  assumes "sorted_keys k ls" and "sorted_keys k rs"
  shows "sorted_keys k (symmetric_difference_list k (ls, rs))"
  using assms
proof (induction k "(ls, rs)" arbitrary: ls rs rule: symmetric_difference_list.induct)
  case (1 k x xs y ys)
  have srt: "sorted_keys k (x # xs)" "sorted_keys k (y # ys)" "sorted_keys k xs" "sorted_keys k ys"
    using "1.prems" by auto
  have above: "\<And>z. z \<in> set xs \<Longrightarrow> k x < k z" "\<And>z. z \<in> set ys \<Longrightarrow> k y < k z"
    using "1.prems" by auto
  show ?case
  proof (cases "k x" "k y" rule: linorder_cases)
    case less
    then show ?thesis
      using "1.hyps"(1) [OF less srt(3,2)]
      by (auto simp: set_symmetric_difference_list [OF srt(3,2)] intro: above less_trans [OF less])
  next
    case equal
    then show ?thesis
      using "1.hyps"(3) [OF _ _ srt(3,4)] by simp
  next
    case greater
    then show ?thesis
      using "1.hyps"(2) [OF _ greater srt(1,4)]
      by (auto simp: set_symmetric_difference_list [OF srt(1,4)] intro: above less_trans [OF greater])
  qed
qed simp_all

lemma length_union_list: "length (union_list k (ls, rs)) \<le> length ls + length rs"
  by (induction k "(ls, rs)" arbitrary: ls rs rule: union_list.induct) (auto simp: le_SucI)

lemma length_symmetric_difference_list:
  "length (symmetric_difference_list k (ls, rs)) \<le> length ls + length rs"
  by (induction k "(ls, rs)" arbitrary: ls rs rule: symmetric_difference_list.induct) (auto simp: le_SucI)

end
