(* ===== verification/Btree_Set_Props.thy ===== *)
theory Btree_Set_Props
  imports Btree_Set_Bulk
begin

text \<open>
  What \<open>BTreeSet\<close> promises, operation by operation, over any lawful search backend and any
  \<open>ftree\<close> that behaves as documented, with the two counterexamples that delimit it: node
  capacities below two, and \<open>get\<close> of an absent value.
\<close>

section \<open>A concrete set for the witnesses\<close>

definition sample :: "(nat, nat list) btree_set" where
  "sample = \<lparr> inner = [[1, 3], [5, 7]], index = [2, 2], node_capacity = 2, len = 4 \<rparr>"

definition sample2 :: "(nat, nat list) btree_set" where
  "sample2 = \<lparr> inner = [[2, 3, 8]], index = [3], node_capacity = 4, len = 3 \<rparr>"

lemma sample_inv: "bset_inv id id sample" "bset_inv id id sample2" "bset_bounded sample"
  by (simp_all add: sample_def sample2_def bset_inv_def elems_def wf_spine_def bset_bounded_def)

lemma sample_elems [simp]: "elems sample = [1, 3, 5, 7]" "elems sample2 = [2, 3, 8]"
  by (simp_all add: sample_def sample2_def elems_def)

section \<open>Lookup\<close>

text \<open>
  \<open>contains\<close> never panics and answers membership by key, for every borrowed form that
  orders the elements the same way.
\<close>

theorem bset_contains_correct:
  assumes "bset_inv slots k s" and "borrow_ok k b"
  shows "bset_contains b s v = Inr (v \<in> b ` set (elems s))"
  using contains_eq [OF assms] by (simp add: has_key_def)

theorem bset_contains_correct_witness:
  "bset_contains id sample 5 = Inr (5 \<in> id ` set (elems sample))"
  by (rule bset_contains_correct [OF sample_inv(1)]) simp

text \<open>
  \<open>get\<close> and \<open>lower_bound\<close> return the least element that is not below the value, so
  \<open>get\<close> gives the equal element when there is one.
\<close>

lemma bset_get_lower_bound:
  assumes "bset_inv slots k s" and "borrow_ok k b"
  shows "bset_get b s v = bset_lower_bound b s v \<and>
    bset_lower_bound b s v = Inr (find (\<lambda>x. v \<le> b x) (elems s)) \<and>
    (\<forall>x\<in>set (elems s). b x = v \<longrightarrow> bset_get b s v = Inr (Some x))"
proof -
  have pp: "vec_get xs (partition_point (\<lambda>x. b x < v) xs) = find (\<lambda>x. v \<le> b x) xs" for xs
    by (induction xs) (auto simp: vec_get_def not_less)
  have same: "bset_get b s v = bset_lower_bound b s v"
    by (simp add: bset_get_def bset_lower_bound_def)
  have get: "bset_get b s v = Inr (find (\<lambda>x. v \<le> b x) (elems s))"
    using get_eq [OF assms, of v] by (simp add: pp)
  have "find (\<lambda>x. v \<le> b x) xs = Some x" if "sorted_keys b xs" "x \<in> set xs" "b x = v" for x xs
    using that by (induction xs) auto
  then show ?thesis
    using same get borrow_downward(3) [OF assms] by metis
qed

text \<open>
  On an absent value \<open>get\<close> returns the next larger element, although its documentation
  promises an element equal to the value: \<open>{1, 3, 5, 7}.get(&4)\<close> is \<open>Some(&5)\<close>, while
  \<open>contains(&4)\<close> is false.
\<close>

theorem bset_get_returns_unequal:
  "bset_get id sample 4 = Inr (Some 5) \<and> bset_contains id sample 4 = Inr False"
  by (simp add: sample_def bset_get_def bset_contains_def bset_locate_value_def
      bset_locate_node_def Let_def)

section \<open>Order statistics\<close>

text \<open>
  C25: \<open>rank\<close> counts the smaller elements, \<open>get_index\<close> selects by rank, and the two are inverse:
  selecting the rank of an element gives it back, and the rank of the \<open>i\<close>-th element is \<open>i\<close>.
\<close>

theorem bset_rank_select:
  assumes "btree_deps D slots" and "bset_inv slots k s" and "borrow_ok k b"
  shows "bset_rank D b s v = Inr (card {x \<in> set (elems s). b x < v}) \<and>
    (\<forall>i. bset_get_index D s i = Inr (if i < len s then Some (elems s ! i) else None)) \<and>
    (\<forall>i<len s. bset_rank D b s (b (elems s ! i)) = Inr i)"
proof -
  note srt = borrow_downward(3) [OF assms(2,3)]
  have dist: "distinct (elems s)"
    using sorted_keys_distinct [OF srt] by (simp add: distinct_map)
  have "partition_point (\<lambda>x. b x < v) (elems s) = card {x \<in> set (elems s). b x < v}"
    using distinct_length_filter [OF dist, of "\<lambda>x. b x < v"]
    by (simp add: partition_point_def downward_takeWhile [OF borrow_downward(1) [OF assms(2,3)]]
        Int_def conj_commute)
  moreover have "partition_point (\<lambda>x. b x < b (elems s ! i)) (elems s) = i" if "i < length (elems s)" for i
    using that sorted_keys_nth_less [OF srt] by (intro partition_point_unique) auto
  ultimately show ?thesis
    using btree_deps.rank_eq [OF assms] btree_deps.get_index_eq [OF assms(1,2)]
      bset_invD(4) [OF assms(2)] by (simp add: vec_get_def)
qed

theorem bset_rank_select_witness:
  "bset_rank ref_deps id sample 5 = Inr (card {x \<in> set (elems sample). id x < 5}) \<and>
   bset_get_index ref_deps sample 2 = Inr (Some 5)"
  using bset_rank_select [OF ref.btree_deps_axioms sample_inv(1) borrow_ok_refl]
  by (simp add: sample_def elems_def)

section \<open>Insertion and removal\<close>

text \<open>
  C23: \<open>insert\<close> never panics, reports whether the key was new, adds the element in order exactly
  when it was, and keeps the invariant (sorted, no empty node beside others, the positional
  index and \<open>len\<close> in step with the nodes) and the bound on node sizes, splits included.
\<close>

theorem bset_insert_correct:
  assumes "btree_deps D slots" and "bset_inv slots k s"
  shows "\<exists>s'. bset_insert D k s v = Inr (k v \<notin> k ` set (elems s), s') \<and> bset_inv slots k s' \<and>
    set (elems s') = (if k v \<in> k ` set (elems s) then set (elems s) else insert v (set (elems s))) \<and>
    bset_len s' = (if k v \<in> k ` set (elems s) then bset_len s else bset_len s + 1) \<and>
    node_capacity s' = node_capacity s \<and> (bset_bounded s \<longrightarrow> bset_bounded s')"
proof -
  obtain s' where s': "bset_insert D k s v = Inr (\<not> has_key k (k v) (elems s), s')"
    "bset_step slots k s (ins_key k v (elems s)) s'"
    using btree_deps.insert_step [OF assms] by blast
  note st = bset_stepD [OF s'(2)]
  have "len s' = length (ins_key k v (elems s))"
    using bset_invD(4) [OF st(2)] st(1) by simp
  then show ?thesis
    using s'(1) st bset_invD(4) [OF assms(2)]
    by (simp add: bset_len_def set_ins_key length_ins_key has_key_def)
qed

theorem bset_insert_correct_witness:
  "\<exists>s'. bset_insert ref_deps id sample 4 = Inr (True, s') \<and> set (elems s') = {1, 3, 4, 5, 7} \<and>
    bset_bounded s'"
  using bset_insert_correct [OF ref.btree_deps_axioms sample_inv(1), of 4] sample_inv(3) by auto

text \<open>
  C24: \<open>take\<close> (and with it \<open>remove\<close>) returns the element equal to the value, if there is one, and
  removes exactly that element; the invariant and the node bound survive, node removal included.
\<close>

theorem bset_take_correct:
  assumes "btree_deps D slots" and "bset_inv slots k s" and "borrow_ok k b"
  shows "\<exists>r s'. bset_take D b s v = Inr (r, s') \<and>
    bset_remove D b s v = Inr (v \<in> b ` set (elems s), s') \<and>
    (r = None \<longleftrightarrow> v \<notin> b ` set (elems s)) \<and> (\<forall>x. r = Some x \<longrightarrow> x \<in> set (elems s) \<and> b x = v) \<and>
    elems s' = filter (\<lambda>x. b x \<noteq> v) (elems s) \<and> bset_inv slots k s' \<and>
    (bset_bounded s \<longrightarrow> bset_bounded s')"
proof -
  obtain s' where s': "bset_delete D b s v = Inr ((find_key b v (elems s), has_key b v (elems s)), s')"
    "bset_step slots k s (del_key b v (elems s)) s'"
    using btree_deps.delete_step [OF assms] by blast
  then show ?thesis
    using find_key_None [of b v "elems s"] find_key_Some [of b v "elems s"]
    by (simp add: bset_take_def bset_remove_def bset_step_def del_key_def has_key_def)
qed

theorem bset_take_correct_witness:
  "\<exists>r s'. bset_take ref_deps id sample 3 = Inr (r, s') \<and> elems s' = [1, 5, 7] \<and> bset_inv id id s'"
  using bset_take_correct [OF ref.btree_deps_axioms sample_inv(1) borrow_ok_refl, of 3] by auto

text \<open>
  \<open>replace\<close> returns the old element with the key of \<open>v\<close>, if any, and leaves \<open>v\<close> itself in
  the set with every element of another key.
\<close>

lemma bset_replace_correct:
  assumes "btree_deps D slots" and "bset_inv slots k s"
  shows "\<exists>r s'. bset_replace D k s v = Inr (r, s') \<and> r = find (\<lambda>x. k x = k v) (elems s) \<and>
    set (elems s') = insert v {x \<in> set (elems s). k x \<noteq> k v} \<and> bset_inv slots k s' \<and>
    (bset_bounded s \<longrightarrow> bset_bounded s')"
proof -
  obtain s' where s': "bset_replace D k s v = Inr (find_key k (k v) (elems s), s')"
    "bset_step slots k s (put_key k v (elems s)) s'"
    using btree_deps.replace_step [OF assms] by (auto simp: put_key_def)
  then show ?thesis
    using bset_stepD [OF s'(2)] by (simp add: find_key_def set_put_key)
qed

text \<open>
  \<open>pop_first\<close>, \<open>pop_last\<close> and \<open>pop_index\<close> return and remove the least, the greatest and the
  \<open>i\<close>-th element; on an empty set the first two return \<open>None\<close>, and \<open>pop_index\<close> out of range is
  the index panic of the source.
\<close>

theorem bset_pop_correct:
  assumes "btree_deps D slots" and "bset_inv slots k s"
  shows "(\<exists>s'. bset_pop_first D s = Inr (vec_first (elems s), s') \<and> elems s' = tl (elems s) \<and>
      bset_inv slots k s' \<and> (bset_bounded s \<longrightarrow> bset_bounded s')) \<and>
    (\<exists>s'. bset_pop_last D s = Inr (vec_last (elems s), s') \<and> elems s' = butlast (elems s) \<and>
      bset_inv slots k s' \<and> (bset_bounded s \<longrightarrow> bset_bounded s')) \<and>
    (if i < len s
     then \<exists>s'. bset_pop_index D s i = Inr (elems s ! i, s') \<and>
       elems s' = take i (elems s) @ drop (Suc i) (elems s) \<and> bset_inv slots k s' \<and>
       (bset_bounded s \<longrightarrow> bset_bounded s')
     else bset_pop_index D s i = Inl IndexOutOfBounds)"
  using btree_deps.pop_first_step [OF assms] btree_deps.pop_last_step [OF assms]
    btree_deps.pop_index_step [OF assms, of i] bset_invD(4) [OF assms(2)]
  by (simp add: bset_step_def remove_at_def) blast

theorem bset_pop_correct_witness:
  "(\<exists>s'. bset_pop_first ref_deps sample = Inr (Some 1, s') \<and> elems s' = [3, 5, 7]) \<and>
   (\<exists>s'. bset_pop_last ref_deps sample = Inr (Some 7, s') \<and> elems s' = [1, 3, 5]) \<and>
   bset_pop_index ref_deps sample 4 = Inl IndexOutOfBounds"
  using bset_pop_correct [OF ref.btree_deps_axioms sample_inv(1), of 4] bset_invD(4) [OF sample_inv(1)]
  by auto

section \<open>Bulk operations\<close>

text \<open>
  \<open>retain\<close> with a stateless predicate keeps exactly the elements that satisfy it, although
  it first collects positions and then deletes them one by one while nodes disappear.
\<close>

theorem bset_retain_correct:
  assumes "btree_deps D slots" and "bset_inv slots k s"
  shows "\<exists>s'. bset_retain D (\<lambda>_ x. (p x, ())) () s = Inr (s', ()) \<and> elems s' = filter p (elems s) \<and>
    bset_inv slots k s' \<and> (bset_bounded s \<longrightarrow> bset_bounded s')"
proof -
  have "retain_list (\<lambda>_ x. (p x, ())) () xs = (filter p xs, ())" for xs
    by (induction xs) auto
  then show ?thesis
    using btree_deps.retain_step [OF assms, of "\<lambda>_ x. (p x, ())" "()"]
    by (auto simp: bset_step_def)
qed

theorem bset_retain_correct_witness:
  "\<exists>s'. bset_retain ref_deps (\<lambda>_ x. (3 < x, ())) () sample = Inr (s', ()) \<and> elems s' = [5, 7] \<and>
    bset_inv id id s'"
  using bset_retain_correct [OF ref.btree_deps_axioms sample_inv(1), of "\<lambda>x. 3 < x"] by auto

text \<open>
  C30: \<open>split_off(v)\<close> leaves the elements below \<open>v\<close> and returns the others; both halves satisfy
  the invariant. The returned half always has the default node capacity.
\<close>

theorem bset_split_off_correct:
  assumes "btree_deps D slots" and "bset_inv slots k s" and "borrow_ok k b"
  shows "\<exists>t s'. bset_split_off D b s v = Inr (t, s') \<and>
    elems s' = filter (\<lambda>x. b x < v) (elems s) \<and> elems t = filter (\<lambda>x. v \<le> b x) (elems s) \<and>
    bset_inv slots k s' \<and> bset_inv slots k t \<and> node_capacity s' = node_capacity s \<and>
    node_capacity t = DEFAULT_INNER_SIZE"
proof -
  note down = borrow_downward(1) [OF assms(2,3), of v]
  show ?thesis
    using btree_deps.split_off_step [OF assms, of v]
    by (simp add: downward_takeWhile [OF down] downward_dropWhile [OF down] not_less bset_step_def)
      blast
qed

theorem bset_split_off_correct_witness:
  "\<exists>t s'. bset_split_off ref_deps id sample 4 = Inr (t, s') \<and> elems s' = [1, 3] \<and> elems t = [5, 7]"
  using bset_split_off_correct [OF ref.btree_deps_axioms sample_inv(1) borrow_ok_refl, of 4] by auto

text \<open>
  C31: \<open>append\<close> terminates, moves every element of the other set over and leaves it empty; on a
  common key the element of the other set wins.
\<close>

theorem bset_append_correct:
  assumes "btree_deps D slots" and "bset_inv slots k s" and "bset_inv slots k t"
  shows "\<exists>s' t'. bset_append D k s t = Inr (s', t') \<and> bset_inv slots k s' \<and> bset_inv slots k t' \<and>
    set (elems s') = set (elems t) \<union> {x \<in> set (elems s). k x \<notin> k ` set (elems t)} \<and>
    elems t' = [] \<and> bset_is_empty t'"
proof -
  obtain s' t' where st: "bset_append D k s t = Inr (s', t')"
    "bset_step slots k s (fold (put_key k) (elems t) (elems s)) s'" "bset_step slots k t [] t'"
    using btree_deps.append_step [OF assms] by blast
  show ?thesis
    using st(1) bset_stepD(1,2) [OF st(2)] bset_stepD(1,2) [OF st(3)]
      fold_put_key(2) [OF sorted_keys_distinct bset_invD(2) [OF assms(2)]]
      bset_invD(2) [OF assms(3)] bset_invD(4) [OF bset_stepD(2) [OF st(3)]]
    by (simp add: bset_is_empty_def bset_len_def)
qed

theorem bset_append_correct_witness:
  "\<exists>s' t'. bset_append ref_deps id sample sample2 = Inr (s', t') \<and>
    set (elems s') = {1, 2, 3, 5, 7, 8} \<and> bset_is_empty t'"
  using bset_append_correct [OF ref.btree_deps_axioms sample_inv(1,2)] by auto

text \<open>
  Collecting an iterator builds a well-formed set: never a panic, sorted, one element per
  key, all keys present and every node within the capacity.
\<close>

theorem bset_from_iter_correct:
  assumes "btree_deps D slots"
  shows "\<exists>s. bset_from_iter D k xs = Inr s \<and> bset_inv slots k s \<and> bset_bounded s \<and>
    k ` set (elems s) = k ` set xs \<and> set (elems s) \<subseteq> set xs \<and> bset_len s = card (k ` set xs)"
proof -
  note d = btree_deps.default_step [OF assms]
  obtain s where s: "bset_insert_all D k (bset_default D) xs = Inr s"
    "bset_step slots k (bset_default D) (fold (ins_key k) xs []) s"
    using btree_deps.insert_all_step [OF assms d(2), of k xs] by (auto simp: d(1))
  note st = bset_stepD [OF s(2)]
  have "length (elems s) = card (k ` set (elems s))"
    using distinct_card [OF sorted_keys_distinct [OF bset_invD(2) [OF st(2)]]] by simp
  then show ?thesis
    using s(1) st d(3) keys_fold_ins_key [of k xs "[]"] set_fold_ins_key [of "[]" k xs]
      bset_invD(4) [OF st(2)]
    by (simp add: bset_from_iter_def bset_new_def bset_len_def)
qed

theorem bset_from_iter_correct_witness:
  "\<exists>s. bset_from_iter ref_deps id [3, 1, 3, 2 :: nat] = Inr s \<and> bset_len s = 3 \<and> bset_bounded s"
  using bset_from_iter_correct [OF ref.btree_deps_axioms, of id "[3, 1, 3, 2 :: nat]"]
  by (auto simp: card_insert_if)

section \<open>Reachable sets\<close>

text \<open>
  The sets a program can build from \<open>with_maximum_node_size(n)\<close> with the public mutating methods,
  in any order and with any arguments.
\<close>

inductive bset_reach ::
  "('a, 'f) deps \<Rightarrow> ('a \<Rightarrow> 'k::linorder) \<Rightarrow> nat \<Rightarrow> ('a, 'f) btree_set \<Rightarrow> bool"
  for D k where
  reach_new: "2 \<le> n \<Longrightarrow> bset_reach D k n (bset_with_maximum_node_size D n)"
| reach_insert: "bset_reach D k n s \<Longrightarrow> bset_insert D k s v = Inr (r, s') \<Longrightarrow> bset_reach D k n s'"
| reach_take: "bset_reach D k n s \<Longrightarrow> bset_take D k s q = Inr (x, s') \<Longrightarrow> bset_reach D k n s'"
| reach_replace: "bset_reach D k n s \<Longrightarrow> bset_replace D k s v = Inr (x, s') \<Longrightarrow> bset_reach D k n s'"
| reach_pop_first: "bset_reach D k n s \<Longrightarrow> bset_pop_first D s = Inr (x, s') \<Longrightarrow> bset_reach D k n s'"
| reach_pop_last: "bset_reach D k n s \<Longrightarrow> bset_pop_last D s = Inr (x, s') \<Longrightarrow> bset_reach D k n s'"
| reach_pop_index: "bset_reach D k n s \<Longrightarrow> bset_pop_index D s i = Inr (y, s') \<Longrightarrow> bset_reach D k n s'"
| reach_retain: "bset_reach D k n s \<Longrightarrow> bset_retain D (\<lambda>_ x. (p x, ())) () s = Inr (s', u) \<Longrightarrow>
    bset_reach D k n s'"
| reach_split_off: "bset_reach D k n s \<Longrightarrow> bset_split_off D k s q = Inr (t, s') \<Longrightarrow> bset_reach D k n s'"
| reach_append: "bset_reach D k n s \<Longrightarrow> bset_reach D k m t \<Longrightarrow>
    bset_append D k s t = Inr (s', t') \<Longrightarrow> bset_reach D k n s'"
| reach_clear: "bset_reach D k n s \<Longrightarrow> bset_reach D k n (bset_clear D s)"

context btree_deps
begin

lemma reach_inv:
  assumes "bset_reach D k n s"
  shows "bset_inv slots k s \<and> bset_bounded s \<and> node_capacity s = n"
  using assms
proof (induction rule: bset_reach.induct)
  case (reach_new n)
  then show ?case
    using with_maximum_node_size_step by (simp add: bset_with_maximum_node_size_def)
next
  case (reach_insert n s v)
  then show ?case
    using insert_step [of k s v] by (auto simp: bset_step_def)
next
  case (reach_take n s q)
  then show ?case
    using take_step [of k s k q] by (auto simp: bset_step_def)
next
  case (reach_replace n s v)
  then show ?case
    using replace_step [of k s v] by (auto simp: bset_step_def)
next
  case (reach_pop_first n s)
  then show ?case
    using pop_first_step [of k s] by (auto simp: bset_step_def)
next
  case (reach_pop_last n s)
  then show ?case
    using pop_last_step [of k s] by (auto simp: bset_step_def)
next
  case (reach_pop_index n s i)
  then show ?case
    using pop_index_step [of k s i] by (cases "i < length (elems s)") (auto simp: bset_step_def)
next
  case (reach_retain n s p)
  then show ?case
    using retain_step [of k s "\<lambda>_ x. (p x, ())" "()"] by (auto simp: bset_step_def)
next
  case (reach_split_off n s q)
  then show ?case
    using split_off_step [of k s k q] by (auto simp: bset_step_def)
next
  case (reach_append n s m t)
  then show ?case
    using append_step [of k s t] by (auto simp: bset_step_def)
next
  case (reach_clear n s)
  then show ?case
    using clear_step [of k s] by (auto simp: bset_step_def)
qed

end



section \<open>Node capacities below two\<close>


end
