(* ===== verification/Btree_Set_Iter_Props.thy ===== *)
theory Btree_Set_Iter_Props
  imports Btree_Set_Algebra Btree_Set_Props
begin

text \<open>
  What the iterators, ranges, set operations and cursors of \<open>BTreeSet\<close> promise, and the range
  queries on which the code departs from its documentation.
\<close>

section \<open>Iteration from both ends\<close>

text \<open>
  C27: an \<open>iter()\<close> called from both ends in any order answers like a double-ended queue of the
  sorted elements: no element twice or lost where the ends meet, no panic, \<open>None\<close> for ever after;
  a \<open>for\<close> loop over it ends and sees the elements in order.
\<close>

theorem bset_iter_deque:
  assumes "bset_inv slots k s"
  shows "\<exists>it. bset_iter s = Inr it \<and>
    calls iter_next iter_next_back script it = Inr (deque_calls script (elems s)) \<and>
    collect iter_next (bset_len s + 1) it = Inr (Some (elems s)) \<and>
    collect iter_next_back (bset_len s + 1) it = Inr (Some (rev (elems s)))"
proof -
  obtain it where it: "bset_iter s = Inr it" "iter_ok it" "iter_rest it = elems s"
    using bset_iter_ok [OF assms] by blast
  have "length (elems s) < bset_len s + 1"
    using bset_invD(4) [OF assms] by (simp add: bset_len_def)
  then show ?thesis
    using it set_iter.calls_deque [OF it(2), of script] set_iter.collect_rest [OF it(2)]
      set_iter.reversed.collect_rest [OF it(2)]
    by simp
qed

theorem bset_iter_deque_witness:
  "\<exists>it. bset_iter sample = Inr it \<and>
    calls iter_next iter_next_back [True, False, True, True, True] it =
      Inr [Some 1, Some 7, Some 3, Some 5, None]"
  using bset_iter_deque [OF sample_inv(1), of "[True, False, True, True, True]"] by auto

text \<open>
  the owning \<open>into_iter()\<close>, which pops the tree from either end and removes nodes as they
  empty, answers like a double-ended queue of the sorted elements.
\<close>

lemma bset_into_iter_deque:
  assumes "btree_deps D slots" and "bset_inv slots k s"
  shows "calls (into_iter_next D) (into_iter_next_back D) script (bset_into_iter s) =
      Inr (deque_calls script (elems s)) \<and>
    collect (into_iter_next D) (bset_len s + 1) (bset_into_iter s) = Inr (Some (elems s))"
proof -
  have loc: "btree_order D slots"
    using assms(1) by (simp add: btree_order_def)
  show ?thesis
    using btree_order.into_iter_deque [OF loc assms(2)] bset_invD(4) [OF assms(2)]
    by (simp add: bset_len_def)
qed

section \<open>Ranges\<close>

text \<open>
  \<open>range_idx(a..=b)\<close> with \<open>b\<close> inside the set holds the elements of ranks \<open>a\<close> to \<open>b\<close>, from both
  ends in any order; it never panics whatever the indices, and forward it also handles an end
  past the last element.
\<close>

lemma bset_range_idx_window:
  assumes "btree_deps D slots" and "bset_inv slots k s"
  shows "\<exists>r. bset_range_idx D s (Included a) (Included b) = Inr r \<and>
    (a \<le> b + 1 \<longrightarrow> collect range_next (bset_len s + 1) r =
        Inr (Some (take (b + 1 - a) (drop a (elems s))))) \<and>
    (a \<le> b + 1 \<and> b < bset_len s \<longrightarrow> calls range_next range_next_back script r =
        Inr (deque_calls script (take (b + 1 - a) (drop a (elems s)))))"
  by (rule btree_deps.range_idx_calls [OF assms])

text \<open>The documented meaning of a range of values, and when the code follows it.\<close>

definition below_start :: "('a \<Rightarrow> 'q::linorder) \<Rightarrow> 'q bound \<Rightarrow> 'a \<Rightarrow> bool" where
  "below_start b start x = (case start of Included v \<Rightarrow> b x < v | Excluded v \<Rightarrow> b x \<le> v | Unbounded \<Rightarrow> False)"

definition within_end :: "('a \<Rightarrow> 'q::linorder) \<Rightarrow> 'q bound \<Rightarrow> 'a \<Rightarrow> bool" where
  "within_end b stop x = (case stop of Included v \<Rightarrow> b x \<le> v | Excluded v \<Rightarrow> b x < v | Unbounded \<Rightarrow> True)"

definition bounds_met :: "('a \<Rightarrow> 'q::linorder) \<Rightarrow> 'a list \<Rightarrow> 'q bound \<Rightarrow> 'q bound \<Rightarrow> bool" where
  "bounds_met b xs start stop \<longleftrightarrow>
     (case start of Excluded v \<Rightarrow> has_key b v xs | _ \<Rightarrow> True) \<and>
     (case stop of Included v \<Rightarrow> has_key b v xs | Excluded v \<Rightarrow> (\<exists>x\<in>set xs. b x < v) | Unbounded \<Rightarrow> xs \<noteq> []) \<and>
     (\<forall>x\<in>set xs. below_start b start x \<longrightarrow> within_end b stop x)"

lemma partition_point_present:
  assumes "sorted_keys b xs" and "has_key b v xs"
  shows "partition_point (\<lambda>x. b x \<le> v) xs = Suc (partition_point (\<lambda>x. b x < v) xs)"
proof -
  let ?n = "partition_point (\<lambda>x. b x < v) xs"
  note n = has_key_partition_point [OF assms refl]
  show ?thesis
  proof (rule partition_point_unique)
    show "\<forall>i<Suc ?n. b (xs ! i) \<le> v"
      using partition_point_nth [of _ "\<lambda>x. b x < v" xs] n by (auto simp: less_Suc_eq intro: less_imp_le)
    show "Suc ?n < length xs \<longrightarrow> \<not> b (xs ! Suc ?n) \<le> v"
      using sorted_keys_nth_less [OF assms(1), of ?n "Suc ?n"] n by auto
  qed (use n in simp)
qed

lemma partition_point_const: "partition_point (\<lambda>x. c) xs = (if c then length xs else 0)"
  by (induction xs) auto

lemma partition_point_positive: "downward p xs \<Longrightarrow> \<exists>x\<in>set xs. p x \<Longrightarrow> 0 < partition_point p xs"
  by (cases xs) auto

context btree_deps
begin

lemma range_indices:
  assumes inv: "bset_inv slots k s" and ok: "borrow_ok k b" and met: "bounds_met b (elems s) start stop"
  shows "\<exists>i j. bset_range D b s start stop = bset_range_idx D s (Included i) (Included j) \<and>
    i = partition_point (below_start b start) (elems s) \<and>
    Suc j = partition_point (within_end b stop) (elems s)"
proof -
  note rank = rank_eq [OF inv ok] and srt = borrow_downward(3) [OF inv ok]
    and down = borrow_downward(1) [OF inv ok]
  let ?start = "case start of Included v \<Rightarrow> bset_rank D b s v
    | Excluded v \<Rightarrow> rbind (bset_rank D b s v) (\<lambda>r. Inr (r + 1)) | Unbounded \<Rightarrow> Inr 0"
  let ?stop = "case stop of Included v \<Rightarrow> bset_rank D b s v
    | Excluded v \<Rightarrow> rbind (bset_rank D b s v) (\<lambda>r. Inr (r - 1)) | Unbounded \<Rightarrow> Inr (bset_len s - 1)"
  have start: "?start = Inr (partition_point (below_start b start) (elems s))"
    using met partition_point_present [OF srt]
    by (cases start) (simp_all add: rank below_start_def [abs_def] bounds_met_def partition_point_const)
  have "\<exists>j. ?stop = Inr j \<and> Suc j = partition_point (within_end b stop) (elems s)"
  proof (cases stop)
    case (Included v)
    then show ?thesis
      using met partition_point_present [OF srt] by (simp add: rank within_end_def [abs_def] bounds_met_def)
  next
    case (Excluded v)
    then show ?thesis
      using met partition_point_positive [OF down, of v]
      by (simp add: rank within_end_def [abs_def] bounds_met_def)
  next
    case Unbounded
    then show ?thesis
      using met bset_invD(4) [OF inv]
      by (simp add: within_end_def [abs_def] bounds_met_def partition_point_const bset_len_def)
  qed
  then show ?thesis
    using start by (auto simp: bset_range_def)
qed

end

lemma bounds_downward:
  assumes "sorted_keys b xs"
  shows "downward (below_start b start) xs" and "downward (within_end b stop) xs"
proof -
  have "sorted (map b xs)"
    using assms by (rule sorted_keys_sorted)
  moreover have "downward (\<lambda>x. c) xs" for c
    by (induction xs) auto
  ultimately show "downward (below_start b start) xs" "downward (within_end b stop) xs"
    by (cases start; cases stop;
        simp add: below_start_def [abs_def] within_end_def [abs_def] downward_less downward_le)+
qed

text \<open>
  C28: a range of values holds exactly the elements inside its bounds, from both ends, provided an
  excluded start and an included end are present in the set, an excluded end has an element
  below it, and the range is not inverted.
\<close>

theorem bset_range_values:
  assumes "btree_deps D slots" and "bset_inv slots k s" and "borrow_ok k b"
    and "bounds_met b (elems s) start stop"
  shows "\<exists>r. bset_range D b s start stop = Inr r \<and>
    calls range_next range_next_back script r =
      Inr (deque_calls script (filter (\<lambda>x. \<not> below_start b start x \<and> within_end b stop x) (elems s)))"
proof -
  let ?xs = "elems s"
  note srt = borrow_downward(3) [OF assms(2,3)]
  obtain i j where ij: "bset_range D b s start stop = bset_range_idx D s (Included i) (Included j)"
    "i = partition_point (below_start b start) ?xs" "Suc j = partition_point (within_end b stop) ?xs"
    using btree_deps.range_indices [OF assms] by blast
  have sub: "\<forall>x\<in>set ?xs. below_start b start x \<longrightarrow> within_end b stop x"
    using assms(4) by (simp add: bounds_met_def)
  have "i \<le> j + 1" "j < length ?xs"
    using partition_point_mono [OF sub] ij(2,3) partition_point_le [of "within_end b stop" ?xs]
    by (simp_all del: partition_point_le)
  then show ?thesis
    using ij btree_deps.range_idx_calls [OF assms(1,2), of i j script] window_filter [OF bounds_downward [OF srt] sub]
      bset_invD(4) [OF assms(2)]
    by (auto simp: window_def bset_len_def)
qed

theorem bset_range_values_witness:
  "\<exists>r. bset_range ref_deps id sample (Included 2) (Excluded 7) = Inr r \<and>
    calls range_next range_next_back [True, False, True] r = Inr [Some 3, Some 5, None]"
  using bset_range_values [OF ref.btree_deps_axioms sample_inv(1) borrow_ok_refl,
      of "Included 2" "Excluded 7" "[True, False, True]"]
  by (simp add: bounds_met_def below_start_def within_end_def)


text \<open>
  \<open>range_idx\<close> with an excluded end of 0 (such as \<open>range_idx(0..0)\<close>) panics on \<open>*bound - 1\<close>.
\<close>

theorem bset_range_idx_zero_panics:
  assumes "btree_deps D slots" and "bset_inv slots k s"
  shows "bset_range_idx D s start (Excluded 0) = Inl SubtractOverflow"
  using btree_deps.prefix_sum_offset [OF assms, of "length (inner s)"]
  by (simp add: bset_range_idx_def resolve_range_def)

theorem bset_range_idx_zero_panics_witness:
  "bset_range_idx ref_deps sample (Included 0) (Excluded 0) = Inl SubtractOverflow"
  by (rule bset_range_idx_zero_panics [OF ref.btree_deps_axioms sample_inv(1)])

section \<open>Set algebra\<close>

text \<open>
  C29: \<open>union\<close> yields every key of either set once, in order, taking the left element on a common
  key; \<open>difference\<close>, \<open>intersection\<close> and \<open>symmetric_difference\<close> yield, in order, the elements of the
  left set whose keys are missing from the right one, present in it, and the elements whose keys are in
  exactly one of the two. Each of these loops ends.
\<close>

theorem bset_algebra:
  assumes "bset_inv slots k s" and "bset_inv slots k t" and "n = bset_len s + bset_len t + 1"
  shows "(\<exists>us. rbind (bset_union s t) (collect (union_next k) n) = Inr (Some us) \<and> sorted_keys k us \<and>
      set us = set (elems s) \<union> {y \<in> set (elems t). k y \<notin> k ` set (elems s)}) \<and>
    rbind (bset_difference s t) (collect (difference_next k) n) =
      Inr (Some (filter (\<lambda>x. k x \<notin> k ` set (elems t)) (elems s))) \<and>
    rbind (bset_intersection s t) (collect (intersection_next k) n) =
      Inr (Some (filter (\<lambda>x. k x \<in> k ` set (elems t)) (elems s))) \<and>
    (\<exists>ds. rbind (bset_symmetric_difference s t) (collect (symmetric_difference_next k) n) = Inr (Some ds) \<and>
      sorted_keys k ds \<and> set ds = {x \<in> set (elems s). k x \<notin> k ` set (elems t)} \<union>
        {y \<in> set (elems t). k y \<notin> k ` set (elems s)})"
proof -
  obtain m where m: "new_merge_iter s t = Inr m" "merge_ok m" "pending k m = (elems s, elems t)"
    using new_merge_iter_ok [OF assms(1,2)] by blast
  note srt = bset_invD(2) [OF assms(1)] bset_invD(2) [OF assms(2)]
  have n: "n = length (elems s) + length (elems t) + 1"
    using assms(3) bset_invD(4) [OF assms(1)] bset_invD(4) [OF assms(2)] by (simp add: bset_len_def)
  have u: "length (union_list k (elems s, elems t)) < n"
    using length_union_list [of k "elems s" "elems t"] n by simp
  have d: "length (symmetric_difference_list k (elems s, elems t)) < n"
    using length_symmetric_difference_list [of k "elems s" "elems t"] n by simp
  have f: "length (filter p (elems s)) < n" for p
    using n by (simp add: le_imp_less_Suc trans_le_add1)
  show ?thesis
    using m u d f union_iter.collect_rest [OF m(2), of k n] difference_iter.collect_rest [OF m(2), of k n]
      intersection_iter.collect_rest [OF m(2), of k n] symmetric_difference_iter.collect_rest [OF m(2), of k n]
    by (simp add: bset_union_def bset_difference_def bset_intersection_def bset_symmetric_difference_def
        sorted_union_list [OF srt] set_union_list [OF srt] difference_list_filter [OF srt]
        intersection_list_filter [OF srt] sorted_symmetric_difference_list [OF srt]
        set_symmetric_difference_list [OF srt])
qed

theorem bset_algebra_witness:
  "rbind (bset_difference sample sample2) (collect (difference_next id) 8) = Inr (Some [1, 5, 7])"
  using bset_algebra [OF sample_inv(1,2), of 8] by (simp add: bset_len_def sample_def sample2_def elems_def)

text \<open>
  \<open>is_subset\<close>, \<open>is_superset\<close> and \<open>is_disjoint\<close> decide inclusion and disjointness of the keys.
\<close>

theorem bset_comparisons:
  assumes "bset_inv slots k s" and "bset_inv slots k t"
  shows "bset_is_subset k s t = Inr (k ` set (elems s) \<subseteq> k ` set (elems t)) \<and>
    bset_is_superset k s t = Inr (k ` set (elems t) \<subseteq> k ` set (elems s)) \<and>
    bset_is_disjoint k s t = Inr (k ` set (elems s) \<inter> k ` set (elems t) = {})"
proof -
  obtain m where m: "new_merge_iter s t = Inr m" "merge_ok m" "pending k m = (elems s, elems t)"
    using new_merge_iter_ok [OF assms] by blast
  obtain m' where m': "new_merge_iter t s = Inr m'" "merge_ok m'" "pending k m' = (elems t, elems s)"
    using new_merge_iter_ok [OF assms(2,1)] by blast
  note srt = bset_invD(2) [OF assms(1)] bset_invD(2) [OF assms(2)]
  have empty: "filter (\<lambda>x. k x \<notin> k ` B) xs = [] \<longleftrightarrow> k ` set xs \<subseteq> k ` B"
    "filter (\<lambda>x. k x \<in> k ` B) xs = [] \<longleftrightarrow> k ` set xs \<inter> k ` B = {}" for B xs
    by (auto simp: filter_empty_conv)
  obtain m1 m2 m3 where "difference_next k m = Inr (vec_first (difference_list k (elems s, elems t)), m1)"
    "difference_next k m' = Inr (vec_first (difference_list k (elems t, elems s)), m2)"
    "intersection_next k m = Inr (vec_first (intersection_list k (elems s, elems t)), m3)"
    using difference_next_ok [OF m(2), of k] difference_next_ok [OF m'(2), of k]
      intersection_next_ok [OF m(2), of k] m(3) m'(3) by auto
  then show ?thesis
    by (simp add: bset_is_subset_def bset_is_superset_def bset_is_disjoint_def bset_difference_def
        bset_intersection_def m m' difference_list_filter [OF srt] difference_list_filter [OF srt(2,1)]
        intersection_list_filter [OF srt] empty)
qed

theorem bset_comparisons_witness:
  "bset_is_subset id sample sample2 = Inr False \<and> bset_is_disjoint id sample sample2 = Inr False"
  using bset_comparisons [OF sample_inv(1,2)] by simp

section \<open>Cursors\<close>

text \<open>
  A cursor walks the elements in a cycle with one ghost position past the end: moving forward
  and back returns to the same position, \<open>item\<close> is the element at the position, \<open>peek_next\<close> before
  the ghost position is what \<open>item\<close> shows after \<open>move_next\<close>, and at it the first element.
\<close>

theorem cursor_walk:
  assumes "btree_deps D slots" and "bset_inv slots k (cursor_set c)"
    and "cursor_idx c \<le> bset_len (cursor_set c)"
  shows "cursor_move_prev (cursor_move_next c) = c \<and> cursor_move_next (cursor_move_prev c) = c \<and>
    cursor_item D c = Inr (vec_get (elems (cursor_set c)) (cursor_idx c)) \<and>
    cursor_peek_next D c = cursor_item D (cursor_move_next c) \<and>
    (cursor_idx c \<noteq> 0 \<longrightarrow> cursor_peek_prev D c = cursor_item D (cursor_move_prev c))"
proof -
  have "cursor_move_prev (cursor_move_next c) = c" "cursor_move_next (cursor_move_prev c) = c"
    using assms(3) by (auto simp: cursor_move_prev_def cursor_move_next_def)
  moreover have "bset_get_index D (cursor_set c) 0 = Inr (bset_first (cursor_set c))"
    using btree_deps.get_index_eq [OF assms(1,2), of 0] first_eq [OF assms(2)]
    by (cases "elems (cursor_set c)") auto
  ultimately show ?thesis
    using btree_deps.get_index_eq [OF assms(1,2)]
    by (simp add: cursor_item_def cursor_peek_next_def cursor_peek_prev_def cursor_move_next_def
        cursor_move_prev_def)
qed

theorem cursor_walk_witness:
  "cursor_item ref_deps (cursor_move_next \<lparr> cursor_set = sample, cursor_idx = 1 \<rparr>) = Inr (Some 5)"
  using cursor_walk [OF ref.btree_deps_axioms, of id "cursor_move_next \<lparr> cursor_set = sample, cursor_idx = 1 \<rparr>"]
    sample_inv(1)
  by (simp add: cursor_move_next_def bset_len_def sample_def elems_def)

end
