(* ===== verification/Btree_Map.thy ===== *)
theory Btree_Map
  imports Btree_Set_Iter
begin

text \<open>
  \<open>src/core/pair.rs\<close> and \<open>src/lib.rs\<close>, \<open>BTreeMap\<close>: a set of key-value pairs compared by key, its
  methods, the entry API and the map cursor. Keys are looked up through a borrowed form given by
  a projection \<open>c\<close> of the key type. A \<open>&mut V\<close> handed to the caller is the function \<open>g\<close> that the
  caller applies to the value; the operation returns the value the reference showed and the map after
  the write.
\<close>

section \<open>Pairs\<close>

datatype ('k, 'v) pair = MkPair (pair_key: 'k) (pair_value: 'v)

text \<open>\<open>Ord\<close> and \<open>Eq\<close> of a pair look at the key only.\<close>

definition pair_cmp :: "('k::linorder, 'v) pair \<Rightarrow> ('k, 'v) pair \<Rightarrow> ordering" where
  "pair_cmp p q = compare (pair_key p) (pair_key q)"

definition pair_eq :: "('k::linorder, 'v) pair \<Rightarrow> ('k, 'v) pair \<Rightarrow> bool" where
  "pair_eq p q \<longleftrightarrow> pair_key p = pair_key q"

definition pair_tuple :: "('k, 'v) pair \<Rightarrow> 'k \<times> 'v" where
  "pair_tuple p = (pair_key p, pair_value p)"

section \<open>State and construction\<close>

record ('k, 'v, 'f) btree_map =
  map_set :: "(('k, 'v) pair, 'f) btree_set"

type_synonym ('k, 'v, 'f) map_deps = "(('k, 'v) pair, 'f) deps"

definition bmap_default :: "('k, 'v, 'f) map_deps \<Rightarrow> ('k, 'v, 'f) btree_map" where
  "bmap_default D = \<lparr> map_set = bset_default D \<rparr>"

definition bmap_new :: "('k, 'v, 'f) map_deps \<Rightarrow> ('k, 'v, 'f) btree_map" where
  "bmap_new D = bmap_default D"

definition bmap_with_maximum_node_size :: "('k, 'v, 'f) map_deps \<Rightarrow> nat \<Rightarrow> ('k, 'v, 'f) btree_map" where
  "bmap_with_maximum_node_size D n = \<lparr> map_set = bset_with_maximum_node_size D n \<rparr>"

definition bmap_clear :: "('k, 'v, 'f) map_deps \<Rightarrow> ('k, 'v, 'f) btree_map \<Rightarrow> ('k, 'v, 'f) btree_map" where
  "bmap_clear D m = m\<lparr> map_set := bset_clear D (map_set m) \<rparr>"

definition bmap_append ::
  "('k::linorder, 'v, 'f) map_deps \<Rightarrow> ('k, 'v, 'f) btree_map \<Rightarrow> ('k, 'v, 'f) btree_map \<Rightarrow>
     (('k, 'v, 'f) btree_map \<times> ('k, 'v, 'f) btree_map) res" where
  "bmap_append D m other =
     rbind (bset_append D pair_key (map_set m) (map_set other)) (\<lambda>(s, t).
     Inr (m\<lparr> map_set := s \<rparr>, other\<lparr> map_set := t \<rparr>))"

section \<open>Lookup\<close>

text \<open>The comparator closures \<open>item.key.borrow() < key\<close> and \<open>item.key.borrow() == key\<close>.\<close>

definition key_lt :: "('k \<Rightarrow> 'q::linorder) \<Rightarrow> 'q \<Rightarrow> ('k, 'v) pair \<Rightarrow> bool" where
  "key_lt c q p \<longleftrightarrow> c (pair_key p) < q"

definition key_le :: "('k \<Rightarrow> 'q::linorder) \<Rightarrow> 'q \<Rightarrow> ('k, 'v) pair \<Rightarrow> bool" where
  "key_le c q p \<longleftrightarrow> c (pair_key p) \<le> q"

definition key_eq :: "('k \<Rightarrow> 'q::linorder) \<Rightarrow> 'q \<Rightarrow> ('k, 'v) pair \<Rightarrow> bool" where
  "key_eq c q p \<longleftrightarrow> c (pair_key p) = q"

definition bmap_contains_key :: "('k \<Rightarrow> 'q::linorder) \<Rightarrow> ('k, 'v, 'f) btree_map \<Rightarrow> 'q \<Rightarrow> bool res" where
  "bmap_contains_key c m q = bset_contains_cmp (key_lt c q) (key_eq c q) (map_set m)"

definition bmap_first_key_value :: "('k, 'v, 'f) btree_map \<Rightarrow> ('k \<times> 'v) option" where
  "bmap_first_key_value m = (case bset_first (map_set m) of Some p \<Rightarrow> Some (pair_tuple p) | None \<Rightarrow> None)"

definition bmap_last_key_value :: "('k, 'v, 'f) btree_map \<Rightarrow> ('k \<times> 'v) option" where
  "bmap_last_key_value m = (case bset_last (map_set m) of Some p \<Rightarrow> Some (pair_tuple p) | None \<Rightarrow> None)"

definition bmap_get_key_value ::
  "('k \<Rightarrow> 'q::linorder) \<Rightarrow> ('k, 'v, 'f) btree_map \<Rightarrow> 'q \<Rightarrow> ('k \<times> 'v) option res" where
  "bmap_get_key_value c m q =
     (let node_idx = bset_locate_node_cmp (key_lt c q) (map_set m) in
      case vec_get (inner (map_set m)) node_idx of
        None \<Rightarrow> Inr None
      | Some candidate_node \<Rightarrow>
          (case search_by candidate_node (\<lambda>p. compare (c (pair_key p)) q) of
             Err _ \<Rightarrow> Inr None
           | Ok position \<Rightarrow>
               rbind (vec_index candidate_node position) (\<lambda>candidate. Inr (Some (pair_tuple candidate)))))"

definition bmap_get :: "('k \<Rightarrow> 'q::linorder) \<Rightarrow> ('k, 'v, 'f) btree_map \<Rightarrow> 'q \<Rightarrow> 'v option res" where
  "bmap_get c m q = rbind (bmap_get_key_value c m q) (\<lambda>r. Inr (map_option snd r))"

definition bmap_index :: "('k \<Rightarrow> 'q::linorder) \<Rightarrow> ('k, 'v, 'f) btree_map \<Rightarrow> 'q \<Rightarrow> 'v res" where
  "bmap_index c m q = rbind (bmap_get c m q) unwrap"

definition bmap_get_index ::
  "('k, 'v, 'f) map_deps \<Rightarrow> ('k, 'v, 'f) btree_map \<Rightarrow> nat \<Rightarrow> ('k \<times> 'v) option res" where
  "bmap_get_index D m i = rbind (bset_get_index D (map_set m) i) (\<lambda>r. Inr (map_option pair_tuple r))"

definition set_value :: "('v \<Rightarrow> 'v) \<Rightarrow> ('k, 'v) pair \<Rightarrow> ('k, 'v) pair" where
  "set_value g p = MkPair (pair_key p) (g (pair_value p))"

definition bmap_get_mut ::
  "('k \<Rightarrow> 'q::linorder) \<Rightarrow> ('k, 'v, 'f) btree_map \<Rightarrow> 'q \<Rightarrow> ('v \<Rightarrow> 'v) \<Rightarrow>
     ('v option \<times> ('k, 'v, 'f) btree_map) res" where
  "bmap_get_mut c m q g =
     rbind (bset_locate_value_cmp (key_lt c q) (map_set m)) (\<lambda>(node_idx, position).
     Inr (case vec_get (inner (map_set m)) node_idx of
            None \<Rightarrow> (None, m)
          | Some node \<Rightarrow> (case vec_get node position of
                None \<Rightarrow> (None, m)
              | Some entry \<Rightarrow>
                  if q = c (pair_key entry) then
                    (Some (pair_value entry),
                     m\<lparr> map_set := (map_set m)\<lparr> inner :=
                         (inner (map_set m))[node_idx := node[position := set_value g entry]] \<rparr> \<rparr>)
                  else (None, m))))"

definition bmap_get_mut_index ::
  "('k, 'v, 'f) map_deps \<Rightarrow> ('k, 'v, 'f) btree_map \<Rightarrow> nat \<Rightarrow> ('v \<Rightarrow> 'v) \<Rightarrow>
     ('v option \<times> ('k, 'v, 'f) btree_map) res" where
  "bmap_get_mut_index D m i g =
     rbind (bset_get_mut_index D (map_set m) i (set_value g)) (\<lambda>(r, s).
     Inr (map_option pair_value r, m\<lparr> map_set := s \<rparr>))"

definition bmap_len :: "('k, 'v, 'f) btree_map \<Rightarrow> nat" where
  "bmap_len m = bset_len (map_set m)"

definition bmap_is_empty :: "('k, 'v, 'f) btree_map \<Rightarrow> bool" where
  "bmap_is_empty m = bset_is_empty (map_set m)"

definition bmap_rank ::
  "('k, 'v, 'f) map_deps \<Rightarrow> ('k \<Rightarrow> 'q::linorder) \<Rightarrow> ('k, 'v, 'f) btree_map \<Rightarrow> 'q \<Rightarrow> nat res" where
  "bmap_rank D c m q = bset_rank_cmp D (key_lt c q) (map_set m)"

section \<open>Insertion and removal\<close>

definition bmap_insert ::
  "('k::linorder, 'v, 'f) map_deps \<Rightarrow> ('k, 'v, 'f) btree_map \<Rightarrow> 'k \<Rightarrow> 'v \<Rightarrow>
     ('v option \<times> ('k, 'v, 'f) btree_map) res" where
  "bmap_insert D m key value =
     rbind (bset_find_cmp (key_lt id key) (key_eq id key) (map_set m)) (\<lambda>entry. case entry of
        Exist node_idx position \<Rightarrow>
          rbind (vec_index (inner (map_set m)) node_idx) (\<lambda>node.
          rbind (vec_index node position) (\<lambda>p.
          Inr (Some (pair_value p), m\<lparr> map_set := (map_set m)\<lparr> inner :=
            (inner (map_set m))[node_idx := node[position := set_value (\<lambda>_. value) p]] \<rparr> \<rparr>)))
      | Empty node_idx \<Rightarrow>
          rbind (bset_insert_at D pair_key (map_set m) node_idx (MkPair key value)) (\<lambda>(_, s).
          Inr (None, m\<lparr> map_set := s \<rparr>)))"

definition bmap_remove ::
  "('k, 'v, 'f) map_deps \<Rightarrow> ('k \<Rightarrow> 'q::linorder) \<Rightarrow> ('k, 'v, 'f) btree_map \<Rightarrow> 'q \<Rightarrow>
     ('v option \<times> ('k, 'v, 'f) btree_map) res" where
  "bmap_remove D c m q =
     rbind (bset_delete_cmp D (key_lt c q) (key_eq c q) (map_set m)) (\<lambda>((old, removed), s).
     Inr (if removed then map_option pair_value old else None, m\<lparr> map_set := s \<rparr>))"

definition bmap_remove_entry ::
  "('k, 'v, 'f) map_deps \<Rightarrow> ('k \<Rightarrow> 'q::linorder) \<Rightarrow> ('k, 'v, 'f) btree_map \<Rightarrow> 'q \<Rightarrow>
     (('k \<times> 'v) option \<times> ('k, 'v, 'f) btree_map) res" where
  "bmap_remove_entry D c m q =
     rbind (bset_delete_cmp D (key_lt c q) (key_eq c q) (map_set m)) (\<lambda>((old, removed), s).
     Inr (if removed then map_option pair_tuple old else None, m\<lparr> map_set := s \<rparr>))"

definition bmap_pop_first ::
  "('k, 'v, 'f) map_deps \<Rightarrow> ('k, 'v, 'f) btree_map \<Rightarrow> (('k \<times> 'v) option \<times> ('k, 'v, 'f) btree_map) res" where
  "bmap_pop_first D m =
     rbind (bset_pop_first D (map_set m)) (\<lambda>(p, s). Inr (map_option pair_tuple p, m\<lparr> map_set := s \<rparr>))"

definition bmap_pop_index ::
  "('k, 'v, 'f) map_deps \<Rightarrow> ('k, 'v, 'f) btree_map \<Rightarrow> nat \<Rightarrow> (('k \<times> 'v) \<times> ('k, 'v, 'f) btree_map) res" where
  "bmap_pop_index D m i =
     rbind (bset_pop_index D (map_set m) i) (\<lambda>(p, s). Inr (pair_tuple p, m\<lparr> map_set := s \<rparr>))"

definition bmap_pop_last ::
  "('k, 'v, 'f) map_deps \<Rightarrow> ('k, 'v, 'f) btree_map \<Rightarrow> (('k \<times> 'v) option \<times> ('k, 'v, 'f) btree_map) res" where
  "bmap_pop_last D m =
     rbind (bset_pop_last D (map_set m)) (\<lambda>(p, s). Inr (map_option pair_tuple p, m\<lparr> map_set := s \<rparr>))"

text \<open>
  \<open>retain\<close> gives the caller's \<open>FnMut\<close> the borrowed key and a \<open>&mut V\<close>: one call returns the
  verdict, the value it left and the closure's next state. A closure over the borrowed form is
  given here as its composition with the borrow.
\<close>

fun map_retain_scan_node ::
  "('st \<Rightarrow> 'k \<Rightarrow> 'v \<Rightarrow> (bool \<times> 'v) \<times> 'st) \<Rightarrow> 'st \<Rightarrow> nat \<Rightarrow> nat \<Rightarrow> ('k, 'v) pair list \<Rightarrow>
     ((nat \<times> nat) list \<times> ('k, 'v) pair list) \<times> 'st" where
  "map_retain_scan_node f st i j [] = (([], []), st)"
| "map_retain_scan_node f st i j (p # ps) =
     (let ((keep, v), st1) = f st (pair_key p) (pair_value p);
          ((del, qs), st2) = map_retain_scan_node f st1 i (Suc j) ps
      in ((if keep then del else (i, j) # del, MkPair (pair_key p) v # qs), st2))"

fun map_retain_scan ::
  "('st \<Rightarrow> 'k \<Rightarrow> 'v \<Rightarrow> (bool \<times> 'v) \<times> 'st) \<Rightarrow> 'st \<Rightarrow> nat \<Rightarrow> ('k, 'v) pair list list \<Rightarrow>
     ((nat \<times> nat) list \<times> ('k, 'v) pair list list) \<times> 'st" where
  "map_retain_scan f st i [] = (([], []), st)"
| "map_retain_scan f st i (n # ns) =
     (let ((del, n'), st1) = map_retain_scan_node f st i 0 n;
          ((dels, ns'), st2) = map_retain_scan f st1 (Suc i) ns
      in ((del @ dels, n' # ns'), st2))"

definition bmap_retain ::
  "('k, 'v, 'f) map_deps \<Rightarrow> ('st \<Rightarrow> 'k \<Rightarrow> 'v \<Rightarrow> (bool \<times> 'v) \<times> 'st) \<Rightarrow> 'st \<Rightarrow> ('k, 'v, 'f) btree_map \<Rightarrow>
     (('k, 'v, 'f) btree_map \<times> 'st) res" where
  "bmap_retain D f st m =
     (let ((positions, inner'), st') = map_retain_scan f st 0 (inner (map_set m)) in
      rbind (bset_delete_positions D ((map_set m)\<lparr> inner := inner' \<rparr>) (rev positions)) (\<lambda>s.
      Inr (m\<lparr> map_set := s \<rparr>, st')))"

definition bmap_split_off ::
  "('k, 'v, 'f) map_deps \<Rightarrow> ('k \<Rightarrow> 'q::linorder) \<Rightarrow> ('k, 'v, 'f) btree_map \<Rightarrow> 'q \<Rightarrow>
     (('k, 'v, 'f) btree_map \<times> ('k, 'v, 'f) btree_map) res" where
  "bmap_split_off D c m q =
     rbind (bset_split_off_cmp D (key_lt c q) (map_set m)) (\<lambda>(t, s).
     Inr (\<lparr> map_set = t \<rparr>, m\<lparr> map_set := s \<rparr>))"

fun bmap_insert_all ::
  "('k::linorder, 'v, 'f) map_deps \<Rightarrow> ('k, 'v, 'f) btree_map \<Rightarrow> ('k \<times> 'v) list \<Rightarrow> ('k, 'v, 'f) btree_map res"
  where
  "bmap_insert_all D m [] = Inr m"
| "bmap_insert_all D m ((k, v) # kvs) =
     rbind (bmap_insert D m k v) (\<lambda>(_, m'). bmap_insert_all D m' kvs)"

definition bmap_from_iter ::
  "('k::linorder, 'v, 'f) map_deps \<Rightarrow> ('k \<times> 'v) list \<Rightarrow> ('k, 'v, 'f) btree_map res" where
  "bmap_from_iter D kvs = bmap_insert_all D (bmap_new D) kvs"

definition bmap_from_array ::
  "('k::linorder, 'v, 'f) map_deps \<Rightarrow> ('k \<times> 'v) list \<Rightarrow> ('k, 'v, 'f) btree_map res" where
  "bmap_from_array D kvs = bmap_insert_all D (bmap_default D) kvs"

section \<open>Entries\<close>

record ('k, 'v, 'f) vacant_entry =
  vacant_map :: "('k, 'v, 'f) btree_map"
  vacant_key :: 'k

record ('k, 'v, 'f) occupied_entry =
  occupied_map :: "('k, 'v, 'f) btree_map"
  occupied_idx :: nat

datatype ('k, 'v, 'f) entry =
    Vacant "('k, 'v, 'f) vacant_entry"
  | Occupied "('k, 'v, 'f) occupied_entry"

definition bmap_entry ::
  "('k::linorder, 'v, 'f) map_deps \<Rightarrow> ('k, 'v, 'f) btree_map \<Rightarrow> 'k \<Rightarrow> ('k, 'v, 'f) entry res" where
  "bmap_entry D m key =
     rbind (bmap_contains_key id m key) (\<lambda>found.
     if found then
       rbind (bset_rank_cmp D (key_lt id key) (map_set m)) (\<lambda>idx.
       Inr (Occupied \<lparr> occupied_map = m, occupied_idx = idx \<rparr>))
     else Inr (Vacant \<lparr> vacant_map = m, vacant_key = key \<rparr>))"

definition bmap_first_entry :: "('k, 'v, 'f) btree_map \<Rightarrow> ('k, 'v, 'f) occupied_entry option" where
  "bmap_first_entry m =
     (if \<not> bmap_is_empty m then Some \<lparr> occupied_map = m, occupied_idx = 0 \<rparr> else None)"

definition bmap_last_entry :: "('k, 'v, 'f) btree_map \<Rightarrow> ('k, 'v, 'f) occupied_entry option" where
  "bmap_last_entry m =
     (if bmap_len m > 0 then Some \<lparr> occupied_map = m, occupied_idx = bmap_len m - 1 \<rparr> else None)"

definition occupied_key :: "('k, 'v, 'f) map_deps \<Rightarrow> ('k, 'v, 'f) occupied_entry \<Rightarrow> 'k res" where
  "occupied_key D e =
     rbind (bset_get_index D (map_set (occupied_map e)) (occupied_idx e)) (\<lambda>r.
     rbind (unwrap r) (\<lambda>p. Inr (pair_key p)))"

definition occupied_get :: "('k, 'v, 'f) map_deps \<Rightarrow> ('k, 'v, 'f) occupied_entry \<Rightarrow> 'v res" where
  "occupied_get D e =
     rbind (bmap_get_index D (occupied_map e) (occupied_idx e)) (\<lambda>r.
     rbind (unwrap r) (\<lambda>kv. Inr (snd kv)))"

definition occupied_get_mut ::
  "('k, 'v, 'f) map_deps \<Rightarrow> ('k, 'v, 'f) occupied_entry \<Rightarrow> ('v \<Rightarrow> 'v) \<Rightarrow>
     ('v \<times> ('k, 'v, 'f) occupied_entry) res" where
  "occupied_get_mut D e g =
     rbind (bmap_get_mut_index D (occupied_map e) (occupied_idx e) g) (\<lambda>(r, m).
     rbind (unwrap r) (\<lambda>v. Inr (v, e\<lparr> occupied_map := m \<rparr>)))"

definition occupied_into_mut ::
  "('k, 'v, 'f) map_deps \<Rightarrow> ('k, 'v, 'f) occupied_entry \<Rightarrow> ('v \<Rightarrow> 'v) \<Rightarrow>
     ('v \<times> ('k, 'v, 'f) btree_map) res" where
  "occupied_into_mut D e g =
     rbind (bmap_get_mut_index D (occupied_map e) (occupied_idx e) g) (\<lambda>(r, m).
     rbind (unwrap r) (\<lambda>v. Inr (v, m)))"

definition occupied_insert ::
  "('k, 'v, 'f) map_deps \<Rightarrow> ('k, 'v, 'f) occupied_entry \<Rightarrow> 'v \<Rightarrow>
     ('v \<times> ('k, 'v, 'f) occupied_entry) res" where
  "occupied_insert D e value = occupied_get_mut D e (\<lambda>_. value)"

definition occupied_remove_entry ::
  "('k, 'v, 'f) map_deps \<Rightarrow> ('k, 'v, 'f) occupied_entry \<Rightarrow> (('k \<times> 'v) \<times> ('k, 'v, 'f) btree_map) res" where
  "occupied_remove_entry D e = bmap_pop_index D (occupied_map e) (occupied_idx e)"

definition occupied_remove ::
  "('k, 'v, 'f) map_deps \<Rightarrow> ('k, 'v, 'f) occupied_entry \<Rightarrow> ('v \<times> ('k, 'v, 'f) btree_map) res" where
  "occupied_remove D e =
     rbind (bmap_pop_index D (occupied_map e) (occupied_idx e)) (\<lambda>(kv, m). Inr (snd kv, m))"

definition vacant_entry_key :: "('k, 'v, 'f) vacant_entry \<Rightarrow> 'k" where
  "vacant_entry_key e = vacant_key e"

definition vacant_into_key :: "('k, 'v, 'f) vacant_entry \<Rightarrow> 'k" where
  "vacant_into_key e = vacant_key e"

definition vacant_insert ::
  "('k::linorder, 'v, 'f) map_deps \<Rightarrow> ('k, 'v, 'f) vacant_entry \<Rightarrow> 'v \<Rightarrow> ('v \<Rightarrow> 'v) \<Rightarrow>
     ('v \<times> ('k, 'v, 'f) btree_map) res" where
  "vacant_insert D e value g =
     rbind (bset_rank_cmp D (key_lt id (vacant_key e)) (map_set (vacant_map e))) (\<lambda>rank.
     rbind (bmap_insert D (vacant_map e) (vacant_key e) value) (\<lambda>(_, m).
     rbind (bmap_get_mut_index D m rank g) (\<lambda>(r, m').
     rbind (unwrap r) (\<lambda>v. Inr (v, m')))))"

definition entry_key :: "('k, 'v, 'f) map_deps \<Rightarrow> ('k, 'v, 'f) entry \<Rightarrow> 'k res" where
  "entry_key D e = (case e of Occupied oe \<Rightarrow> occupied_key D oe | Vacant ve \<Rightarrow> Inr (vacant_entry_key ve))"

definition entry_or_insert ::
  "('k::linorder, 'v, 'f) map_deps \<Rightarrow> ('k, 'v, 'f) entry \<Rightarrow> 'v \<Rightarrow> ('v \<Rightarrow> 'v) \<Rightarrow>
     ('v \<times> ('k, 'v, 'f) btree_map) res" where
  "entry_or_insert D e dflt g =
     (case e of Vacant ve \<Rightarrow> vacant_insert D ve dflt g | Occupied oe \<Rightarrow> occupied_into_mut D oe g)"

definition entry_or_insert_with ::
  "('k::linorder, 'v, 'f) map_deps \<Rightarrow> ('k, 'v, 'f) entry \<Rightarrow> (unit \<Rightarrow> 'v) \<Rightarrow> ('v \<Rightarrow> 'v) \<Rightarrow>
     ('v \<times> ('k, 'v, 'f) btree_map) res" where
  "entry_or_insert_with D e dflt g =
     (case e of Vacant ve \<Rightarrow> vacant_insert D ve (dflt ()) g | Occupied oe \<Rightarrow> occupied_into_mut D oe g)"

definition entry_or_insert_with_key ::
  "('k::linorder, 'v, 'f) map_deps \<Rightarrow> ('k, 'v, 'f) entry \<Rightarrow> ('k \<Rightarrow> 'v) \<Rightarrow> ('v \<Rightarrow> 'v) \<Rightarrow>
     ('v \<times> ('k, 'v, 'f) btree_map) res" where
  "entry_or_insert_with_key D e dflt g =
     (case e of
        Vacant ve \<Rightarrow> (let value = dflt (vacant_entry_key ve) in vacant_insert D ve value g)
      | Occupied oe \<Rightarrow> occupied_into_mut D oe g)"

definition entry_and_modify ::
  "('k, 'v, 'f) map_deps \<Rightarrow> ('k, 'v, 'f) entry \<Rightarrow> ('v \<Rightarrow> 'v) \<Rightarrow> ('k, 'v, 'f) entry res" where
  "entry_and_modify D e f =
     (case e of
        Occupied oe \<Rightarrow> rbind (occupied_get_mut D oe f) (\<lambda>(_, oe'). Inr (Occupied oe'))
      | Vacant ve \<Rightarrow> Inr (Vacant ve))"

text \<open>\<open>V::default()\<close> is the argument \<open>dflt\<close>.\<close>

definition entry_or_default ::
  "('k::linorder, 'v, 'f) map_deps \<Rightarrow> ('k, 'v, 'f) entry \<Rightarrow> 'v \<Rightarrow> ('v \<Rightarrow> 'v) \<Rightarrow>
     ('v \<times> ('k, 'v, 'f) btree_map) res" where
  "entry_or_default D e dflt g =
     (case e of Occupied oe \<Rightarrow> occupied_into_mut D oe g | Vacant ve \<Rightarrow> vacant_insert D ve dflt g)"

section \<open>Ranges\<close>

definition range_to_idx ::
  "('k, 'v, 'f) map_deps \<Rightarrow> ('k \<Rightarrow> 'q::linorder) \<Rightarrow> ('k, 'v, 'f) btree_map \<Rightarrow> 'q bound \<Rightarrow> 'q bound \<Rightarrow>
     (nat \<times> nat) res" where
  "range_to_idx D c m start stop =
     rbind (case start of
         Included v \<Rightarrow> bset_rank_cmp D (key_lt c v) (map_set m)
       | Excluded v \<Rightarrow> bset_rank_cmp D (key_le c v) (map_set m)
       | Unbounded \<Rightarrow> Inr 0) (\<lambda>start_idx.
     case stop of
       Included v \<Rightarrow> rbind (bset_rank_cmp D (key_lt c v) (map_set m)) (\<lambda>end_idx. Inr (start_idx, end_idx))
     | Excluded v \<Rightarrow>
         rbind (bset_rank_cmp D (key_lt c v) (map_set m)) (\<lambda>rank.
         if rank = 0 then Inr (1, 0) else Inr (start_idx, rank - 1))
     | Unbounded \<Rightarrow>
         if bmap_is_empty m then Inr (1, 0)
         else rbind (usize_sub (bmap_len m) 1) (\<lambda>end_idx. Inr (start_idx, end_idx)))"

type_synonym ('k, 'v, 'f) range_map = "(('k, 'v) pair, 'f) range"

definition bmap_range ::
  "('k, 'v, 'f) map_deps \<Rightarrow> ('k \<Rightarrow> 'q::linorder) \<Rightarrow> ('k, 'v, 'f) btree_map \<Rightarrow> 'q bound \<Rightarrow> 'q bound \<Rightarrow>
     ('k, 'v, 'f) range_map res" where
  "bmap_range D c m start stop =
     rbind (range_to_idx D c m start stop) (\<lambda>(start_idx, end_idx).
     bset_range_idx D (map_set m) (Included start_idx) (Included end_idx))"

definition bmap_range_idx ::
  "('k, 'v, 'f) map_deps \<Rightarrow> ('k, 'v, 'f) btree_map \<Rightarrow> nat bound \<Rightarrow> nat bound \<Rightarrow>
     ('k, 'v, 'f) range_map res" where
  "bmap_range_idx D m start stop = bset_range_idx D (map_set m) start stop"

section \<open>Cursors\<close>

type_synonym ('k, 'v, 'f) cursor_map = "(('k, 'v) pair, 'f) cursor"

definition bmap_lower_bound ::
  "('k, 'v, 'f) map_deps \<Rightarrow> ('k \<Rightarrow> 'q::linorder) \<Rightarrow> ('k, 'v, 'f) btree_map \<Rightarrow> 'q bound \<Rightarrow>
     ('k, 'v, 'f) cursor_map res" where
  "bmap_lower_bound D c m bound =
     rbind (case bound of
         Included v \<Rightarrow> bset_rank_cmp D (key_lt c v) (map_set m)
       | Excluded v \<Rightarrow> rbind (bset_rank_cmp D (key_lt c v) (map_set m)) (\<lambda>r. Inr (r + 1))
       | Unbounded \<Rightarrow> Inr 0) (\<lambda>start_idx.
     Inr \<lparr> cursor_set = map_set m, cursor_idx = start_idx \<rparr>)"

definition cursor_map_move_next :: "('k, 'v, 'f) cursor_map \<Rightarrow> ('k, 'v, 'f) cursor_map" where
  "cursor_map_move_next cm = cursor_move_next cm"

definition cursor_map_move_index :: "('k, 'v, 'f) cursor_map \<Rightarrow> nat \<Rightarrow> ('k, 'v, 'f) cursor_map" where
  "cursor_map_move_index cm i = cursor_move_index cm i"

definition cursor_map_move_prev :: "('k, 'v, 'f) cursor_map \<Rightarrow> ('k, 'v, 'f) cursor_map" where
  "cursor_map_move_prev cm = cursor_move_prev cm"

definition cursor_map_key :: "('k, 'v, 'f) map_deps \<Rightarrow> ('k, 'v, 'f) cursor_map \<Rightarrow> 'k option res" where
  "cursor_map_key D cm = rbind (cursor_item D cm) (\<lambda>r. Inr (map_option pair_key r))"

definition cursor_map_value :: "('k, 'v, 'f) map_deps \<Rightarrow> ('k, 'v, 'f) cursor_map \<Rightarrow> 'v option res" where
  "cursor_map_value D cm = rbind (cursor_item D cm) (\<lambda>r. Inr (map_option pair_value r))"

definition cursor_map_key_value ::
  "('k, 'v, 'f) map_deps \<Rightarrow> ('k, 'v, 'f) cursor_map \<Rightarrow> ('k \<times> 'v) option res" where
  "cursor_map_key_value D cm = rbind (cursor_item D cm) (\<lambda>r. Inr (map_option pair_tuple r))"

definition cursor_map_peek_next ::
  "('k, 'v, 'f) map_deps \<Rightarrow> ('k, 'v, 'f) cursor_map \<Rightarrow> ('k \<times> 'v) option res" where
  "cursor_map_peek_next D cm = rbind (cursor_peek_next D cm) (\<lambda>r. Inr (map_option pair_tuple r))"

definition cursor_map_peek_index ::
  "('k, 'v, 'f) map_deps \<Rightarrow> ('k, 'v, 'f) cursor_map \<Rightarrow> nat \<Rightarrow> ('k \<times> 'v) option res" where
  "cursor_map_peek_index D cm i = rbind (cursor_peek_index D cm i) (\<lambda>r. Inr (map_option pair_tuple r))"

definition cursor_map_peek_prev ::
  "('k, 'v, 'f) map_deps \<Rightarrow> ('k, 'v, 'f) cursor_map \<Rightarrow> ('k \<times> 'v) option res" where
  "cursor_map_peek_prev D cm = rbind (cursor_peek_prev D cm) (\<lambda>r. Inr (map_option pair_tuple r))"

end
