(* ===== verification/Btree_Map_Iter.thy ===== *)
theory Btree_Map_Iter
  imports Btree_Map
begin

text \<open>
  \<open>src/lib.rs\<close>: the iterators of \<open>BTreeMap\<close>. The shared and owning ones wrap an iterator of the
  underlying set and project its entries; each is a struct with the single field \<open>inner\<close>, modelled
  by that field. \<open>IterMut\<close> walks the nodes itself, with the front and the back slice and
  the nodes between them; what it yields is the entry whose value it lends out.
\<close>

section \<open>Projecting iterators\<close>

type_synonym ('k, 'v, 'f) iter_map = "(('k, 'v) pair, 'f) iter"
type_synonym ('k, 'v, 'f) into_iter_map = "(('k, 'v) pair, 'f) into_iter"

definition bmap_iter :: "('k, 'v, 'f) btree_map \<Rightarrow> ('k, 'v, 'f) iter_map res" where
  "bmap_iter m = bset_iter (map_set m)"

definition iter_map_next :: "(('k, 'v, 'f) iter_map, 'k \<times> 'v) step_fn" where
  "iter_map_next = map_item pair_tuple iter_next"

definition iter_map_next_back :: "(('k, 'v, 'f) iter_map, 'k \<times> 'v) step_fn" where
  "iter_map_next_back = map_item pair_tuple iter_next_back"

definition bmap_keys :: "('k, 'v, 'f) btree_map \<Rightarrow> ('k, 'v, 'f) iter_map res" where
  "bmap_keys m = bset_iter (map_set m)"

definition keys_next :: "(('k, 'v, 'f) iter_map, 'k) step_fn" where
  "keys_next = map_item pair_key iter_next"

definition keys_next_back :: "(('k, 'v, 'f) iter_map, 'k) step_fn" where
  "keys_next_back = map_item pair_key iter_next_back"

definition bmap_values :: "('k, 'v, 'f) btree_map \<Rightarrow> ('k, 'v, 'f) iter_map res" where
  "bmap_values m = bset_iter (map_set m)"

definition values_next :: "(('k, 'v, 'f) iter_map, 'v) step_fn" where
  "values_next = map_item pair_value iter_next"

definition values_next_back :: "(('k, 'v, 'f) iter_map, 'v) step_fn" where
  "values_next_back = map_item pair_value iter_next_back"

definition range_map_next :: "(('k, 'v, 'f) range_map, 'k \<times> 'v) step_fn" where
  "range_map_next = map_item pair_tuple range_next"

definition range_map_next_back :: "(('k, 'v, 'f) range_map, 'k \<times> 'v) step_fn" where
  "range_map_next_back = map_item pair_tuple range_next_back"

definition bmap_into_iter :: "('k, 'v, 'f) btree_map \<Rightarrow> ('k, 'v, 'f) into_iter_map" where
  "bmap_into_iter m = bset_into_iter (map_set m)"

definition into_iter_map_next :: "('k, 'v, 'f) map_deps \<Rightarrow> (('k, 'v, 'f) into_iter_map, 'k \<times> 'v) step_fn" where
  "into_iter_map_next D = map_item pair_tuple (into_iter_next D)"

definition into_iter_map_next_back ::
  "('k, 'v, 'f) map_deps \<Rightarrow> (('k, 'v, 'f) into_iter_map, 'k \<times> 'v) step_fn" where
  "into_iter_map_next_back D = map_item pair_tuple (into_iter_next_back D)"

definition bmap_into_keys :: "('k, 'v, 'f) btree_map \<Rightarrow> ('k, 'v, 'f) into_iter_map" where
  "bmap_into_keys m = bmap_into_iter m"

definition into_keys_next :: "('k, 'v, 'f) map_deps \<Rightarrow> (('k, 'v, 'f) into_iter_map, 'k) step_fn" where
  "into_keys_next D = map_item fst (into_iter_map_next D)"

definition into_keys_next_back :: "('k, 'v, 'f) map_deps \<Rightarrow> (('k, 'v, 'f) into_iter_map, 'k) step_fn" where
  "into_keys_next_back D = map_item fst (into_iter_map_next_back D)"

definition bmap_into_values :: "('k, 'v, 'f) btree_map \<Rightarrow> ('k, 'v, 'f) into_iter_map" where
  "bmap_into_values m = bmap_into_iter m"

definition into_values_next :: "('k, 'v, 'f) map_deps \<Rightarrow> (('k, 'v, 'f) into_iter_map, 'v) step_fn" where
  "into_values_next D = map_item snd (into_iter_map_next D)"

definition into_values_next_back :: "('k, 'v, 'f) map_deps \<Rightarrow> (('k, 'v, 'f) into_iter_map, 'v) step_fn" where
  "into_values_next_back D = map_item snd (into_iter_map_next_back D)"

section \<open>IterMut\<close>

text \<open>
  The position counters are \<open>usize\<close> values that may wrap: \<open>len.wrapping_sub(1)\<close> of an empty map is
  \<open>usize::MAX\<close>, and \<open>wrapping_add(1)\<close> brings it back to 0. The width is 64 bits.
\<close>

definition usize_bound :: nat where
  "usize_bound = 2 ^ 64"

definition wrapping_sub :: "nat \<Rightarrow> nat \<Rightarrow> nat" where
  "wrapping_sub a b = (a + usize_bound - b) mod usize_bound"

definition wrapping_add :: "nat \<Rightarrow> nat \<Rightarrow> nat" where
  "wrapping_add a b = (a + b) mod usize_bound"

record ('k, 'v) iter_mut =
  mut_inner :: "('k, 'v) pair list list"  \<comment> \<open>the nodes neither slice has reached\<close>
  mut_front_node_idx :: nat
  mut_front_idx :: nat
  mut_back_node_idx :: nat
  mut_back_idx :: nat
  mut_front :: "('k, 'v) pair list"
  mut_back :: "('k, 'v) pair list"

definition bmap_iter_mut :: "('k, 'v, 'f) btree_map \<Rightarrow> ('k, 'v) iter_mut res" where
  "bmap_iter_mut m =
     (let ns = inner (map_set m); n = bmap_len m in
      rbind (usize_sub (length ns) 1) (\<lambda>last_node_idx.
      if length ns = 1 then
        rbind (unwrap (vec_first ns)) (\<lambda>node.
        Inr \<lparr> mut_inner = tl ns, mut_front_node_idx = 0, mut_front_idx = 0, mut_back_node_idx = 0,
             mut_back_idx = wrapping_sub n 1, mut_front = node, mut_back = [] \<rparr>)
      else
        (let (front, ns1) = (case ns of [] \<Rightarrow> ([], []) | node # rest \<Rightarrow> (node, rest));
             (back, ns2) = (if ns1 = [] then ([], []) else (last ns1, butlast ns1))
         in Inr \<lparr> mut_inner = ns2, mut_front_node_idx = 0, mut_front_idx = 0,
                 mut_back_node_idx = last_node_idx, mut_back_idx = wrapping_sub n 1,
                 mut_front = front, mut_back = back \<rparr>)))"

text \<open>
  \<open>next\<close> calls itself after advancing to the next node. When it advances past the nodes that are
  left it need not stop, so a call that does not return is the value \<open>None\<close>.
\<close>

partial_function (option) iter_mut_next ::
  "('k, 'v) iter_mut \<Rightarrow> (('k, 'v) pair option \<times> ('k, 'v) iter_mut) res option" where
  "iter_mut_next it =
     (if mut_front_idx it = wrapping_add (mut_back_idx it) 1 then Some (Inr (None, it))
      else case mut_front it of
        entry # rest \<Rightarrow>
          Some (Inr (Some entry, it\<lparr> mut_front := rest, mut_front_idx := mut_front_idx it + 1 \<rparr>))
      | [] \<Rightarrow>
          if mut_front_node_idx it = length (mut_inner it) then Some (Inr (None, it))
          else if mut_back_node_idx it = 0 then Some (Inl SubtractOverflow)
          else if mut_front_node_idx it = mut_back_node_idx it - 1 then
            (case mut_back it of
               entry # rest \<Rightarrow>
                 Some (Inr (Some entry, it\<lparr> mut_back := rest, mut_front_idx := mut_front_idx it + 1 \<rparr>))
             | [] \<Rightarrow> Some (Inr (None, it)))
          else
            (let it1 = it\<lparr> mut_front_node_idx := mut_front_node_idx it + 1 \<rparr> in
             case mut_inner it1 of
               node # nodes \<Rightarrow> iter_mut_next (it1\<lparr> mut_front := node, mut_inner := nodes \<rparr>)
             | [] \<Rightarrow> iter_mut_next it1))"

partial_function (option) iter_mut_next_back ::
  "('k, 'v) iter_mut \<Rightarrow> (('k, 'v) pair option \<times> ('k, 'v) iter_mut) res option" where
  "iter_mut_next_back it =
     (if mut_front_idx it = wrapping_add (mut_back_idx it) 1 then Some (Inr (None, it))
      else if mut_back it \<noteq> [] then
        Some (rbind (usize_sub (mut_back_idx it) 1) (\<lambda>idx.
          Inr (Some (last (mut_back it)), it\<lparr> mut_back := butlast (mut_back it), mut_back_idx := idx \<rparr>)))
      else if mut_back_node_idx it = 0 \<and> mut_front_node_idx it \<noteq> 0 then Some (Inr (None, it))
      else if mut_front_node_idx it = mut_back_node_idx it \<or>
              mut_front_node_idx it = mut_back_node_idx it - 1 then
        (if mut_front it \<noteq> [] then
           Some (Inr (Some (last (mut_front it)),
             it\<lparr> mut_front := butlast (mut_front it), mut_back_idx := mut_back_idx it - 1 \<rparr>))
         else Some (Inr (None, it)))
      else
        (let it1 = it\<lparr> mut_back_node_idx := mut_back_node_idx it - 1 \<rparr> in
         if mut_inner it1 \<noteq> [] then
           iter_mut_next_back (it1\<lparr> mut_back := last (mut_inner it1), mut_inner := butlast (mut_inner it1) \<rparr>)
         else iter_mut_next_back it1))"

text \<open>\<open>ValuesMut\<close> and \<open>RangeMut\<close> wrap an \<open>IterMut\<close>.\<close>

definition bmap_values_mut :: "('k, 'v, 'f) btree_map \<Rightarrow> ('k, 'v) iter_mut res" where
  "bmap_values_mut m = bmap_iter_mut m"

definition mut_item ::
  "('p \<Rightarrow> 'y) \<Rightarrow> ('p option \<times> 's) res option \<Rightarrow> ('y option \<times> 's) res option" where
  "mut_item g r = map_option (\<lambda>x. rbind x (\<lambda>(p, it). Inr (map_option g p, it))) r"

definition values_mut_next :: "('k, 'v) iter_mut \<Rightarrow> ('v option \<times> ('k, 'v) iter_mut) res option" where
  "values_mut_next it = mut_item pair_value (iter_mut_next it)"

definition values_mut_next_back :: "('k, 'v) iter_mut \<Rightarrow> ('v option \<times> ('k, 'v) iter_mut) res option" where
  "values_mut_next_back it = mut_item pair_value (iter_mut_next_back it)"

text \<open>\<open>Iterator::nth\<close> on the node iterator: the element, and what is left after it.\<close>

definition slice_nth :: "'n list \<Rightarrow> nat \<Rightarrow> 'n option \<times> 'n list" where
  "slice_nth ns i = (vec_get ns i, drop (Suc i) ns)"

definition drop_back :: "nat \<Rightarrow> 'a list \<Rightarrow> 'a list" where
  "drop_back n xs = take (length xs - n) xs"

definition bmap_range_mut_idx ::
  "('k, 'v, 'f) map_deps \<Rightarrow> ('k, 'v, 'f) btree_map \<Rightarrow> nat bound \<Rightarrow> nat bound \<Rightarrow> ('k, 'v) iter_mut res" where
  "bmap_range_mut_idx D m start stop =
     rbind (resolve_range D (map_set m) start stop)
       (\<lambda>((global_front_idx, front_node_idx, front_start_idx), (global_back_idx, back_node_idx, back_start_idx)).
     rbind (vec_index (inner (map_set m)) back_node_idx) (\<lambda>back_node.
     let node_end = length back_node;
         (front_node, inner1) = slice_nth (inner (map_set m)) front_node_idx;
         front_iter = (case front_node of Some node \<Rightarrow> node | None \<Rightarrow> []) in
     rbind (usize_sub back_node_idx front_node_idx) (\<lambda>offset.
     let (back_node', inner2) = slice_nth inner1 offset;
         back_iter = (case back_node' of Some node \<Rightarrow> node | None \<Rightarrow> []);
         front_iter1 = drop front_start_idx front_iter;
         (front_iter2, back_iter2) =
           (if offset > 0 then (front_iter1, drop_back (node_end - back_start_idx) back_iter)
            else (drop_back (node_end - back_start_idx) front_iter1, back_iter))
     in Inr \<lparr> mut_inner = inner2, mut_front_node_idx = front_node_idx, mut_front_idx = global_front_idx,
             mut_back_node_idx = back_node_idx, mut_back_idx = global_back_idx,
             mut_front = front_iter2, mut_back = back_iter2 \<rparr>)))"

definition bmap_range_mut ::
  "('k, 'v, 'f) map_deps \<Rightarrow> ('k \<Rightarrow> 'q::linorder) \<Rightarrow> ('k, 'v, 'f) btree_map \<Rightarrow> 'q bound \<Rightarrow> 'q bound \<Rightarrow>
     ('k, 'v) iter_mut res" where
  "bmap_range_mut D c m start stop =
     rbind (range_to_idx D c m start stop) (\<lambda>(start_idx, end_idx).
     bmap_range_mut_idx D m (Included start_idx) (Included end_idx))"

text \<open>\<open>RangeMut\<close> hands every call to its \<open>IterMut\<close>.\<close>

definition range_mut_next :: "('k, 'v) iter_mut \<Rightarrow> (('k, 'v) pair option \<times> ('k, 'v) iter_mut) res option" where
  "range_mut_next it = iter_mut_next it"

definition range_mut_next_back ::
  "('k, 'v) iter_mut \<Rightarrow> (('k, 'v) pair option \<times> ('k, 'v) iter_mut) res option" where
  "range_mut_next_back it = iter_mut_next_back it"

end
