(* ===== verification/Btree_Map_Facts.thy ===== *)
theory Btree_Map_Facts
  imports Btree_Map Btree_Set_Bulk
begin

text \<open>
  The library for \<open>BTreeMap\<close>: a map is the sorted list of its pairs, what it stands for is the
  finite function \<open>lookup\<close>, and every method is related to it. The contract that a client of a
  map relies on is the locale \<open>map_provider\<close>, interpreted on the operations of \<open>BTreeMap\<close>.
\<close>

section \<open>Abstraction\<close>

definition entries :: "('k, 'v, 'f) btree_map \<Rightarrow> ('k, 'v) pair list" where
  "entries m = elems (map_set m)"

definition lookup :: "('k, 'v, 'f) btree_map \<Rightarrow> 'k \<Rightarrow> 'v option" where
  "lookup m = map_of (map pair_tuple (entries m))"

definition bmap_inv :: "('f \<Rightarrow> nat list) \<Rightarrow> ('k::linorder, 'v, 'f) btree_map \<Rightarrow> bool" where
  "bmap_inv slots m \<longleftrightarrow> bset_inv slots pair_key (map_set m)"

lemma bmap_invD:
  assumes "bmap_inv slots m"
  shows "bset_inv slots pair_key (map_set m)" and "sorted_keys pair_key (entries m)"
    and "bmap_len m = length (entries m)"
  using assms bset_invD [of slots pair_key "map_set m"]
  by (simp_all add: bmap_inv_def entries_def bmap_len_def bset_len_def)

lemma lookup_Some:
  assumes "sorted_keys pair_key (entries m)"
  shows "lookup m k = Some v \<longleftrightarrow> MkPair k v \<in> set (entries m)"
proof -
  have "distinct (map fst (map pair_tuple (entries m)))"
    using sorted_keys_distinct [OF assms] by (simp add: pair_tuple_def comp_def)
  then have "lookup m k = Some v \<longleftrightarrow> (k, v) \<in> pair_tuple ` set (entries m)"
    by (simp add: lookup_def map_of_eq_Some_iff)
  also have "\<dots> \<longleftrightarrow> MkPair k v \<in> set (entries m)"
    by (metis (no_types, lifting) image_iff pair.collapse pair.sel pair_tuple_def prod.inject)
  finally show ?thesis .
qed

lemma lookup_eqI:
  assumes "sorted_keys pair_key (entries m)"
    and "\<And>k v. MkPair k v \<in> set (entries m) \<longleftrightarrow> f k = Some v"
  shows "lookup m = f"
proof
  fix k
  show "lookup m k = f k"
    using lookup_Some [OF assms(1), of k] assms(2) [of k] by (cases "f k") (metis option.exhaust)+
qed

lemma lookup_dom: "sorted_keys pair_key (entries m) \<Longrightarrow> dom (lookup m) = pair_key ` set (entries m)"
  by (auto simp: lookup_Some dom_def image_iff) (metis pair.sel(1), metis pair.collapse)

lemma find_key_lookup:
  assumes "sorted_keys pair_key (entries m)"
  shows "map_option pair_value (find_key pair_key k (entries m)) = lookup m k"
proof (cases "find_key pair_key k (entries m)")
  case None
  then have "k \<notin> dom (lookup m)"
    by (simp add: find_key_None has_key_def lookup_dom [OF assms])
  then show ?thesis
    using None by (simp add: domIff)
next
  case (Some p)
  then have "MkPair k (pair_value p) \<in> set (entries m)"
    using find_key_Some by (metis pair.collapse)
  then show ?thesis
    using Some lookup_Some [OF assms, of k "pair_value p"] by simp
qed

section \<open>Borrowed keys\<close>

lemma key_preds:
  "key_lt c q = (\<lambda>p. (c \<circ> pair_key) p < q)" "key_le c q = (\<lambda>p. (c \<circ> pair_key) p \<le> q)"
  "key_eq c q = (\<lambda>p. (c \<circ> pair_key) p = q)"
  by (auto simp: key_lt_def key_le_def key_eq_def)

lemma borrow_key: "borrow_ok id c \<Longrightarrow> borrow_ok pair_key (c \<circ> pair_key)"
  by (simp add: borrow_ok_def)

lemma borrow_key_inj: "borrow_ok id c \<Longrightarrow> c x = c y \<longleftrightarrow> x = y"
  using borrow_ok_eq [of id c x y] by simp

text \<open>What a borrowed key selects: the entry of the key it borrows from.\<close>

definition lookup_by :: "('k \<Rightarrow> 'q) \<Rightarrow> ('k, 'v, 'f) btree_map \<Rightarrow> 'q \<Rightarrow> ('k, 'v) pair option" where
  "lookup_by c m q = find_key (c \<circ> pair_key) q (entries m)"

lemma lookup_by_key:
  assumes "borrow_ok id c" and "sorted_keys pair_key (entries m)"
  shows "map_option pair_value (lookup_by c m (c k)) = lookup m k"
proof -
  have "find_key (c \<circ> pair_key) (c k) (entries m) = find_key pair_key k (entries m)"
    using borrow_key_inj [OF assms(1)] by (simp add: find_key_def comp_def)
  then show ?thesis
    using find_key_lookup [OF assms(2)] by (simp add: lookup_by_def)
qed

section \<open>Writing a value in place\<close>

text \<open>Replacing nodes by nodes with the same keys keeps the invariant.\<close>

lemma same_keys_inv:
  assumes "bset_inv slots k s" and "map (map k) ns = map (map k) (inner s)"
  shows "bset_inv slots k (s\<lparr> inner := ns \<rparr>)" and "bset_bounded s \<Longrightarrow> bset_bounded (s\<lparr> inner := ns \<rparr>)"
proof -
  have lens: "map length ns = map length (inner s)"
    using arg_cong [OF assms(2), of "map length"] by (simp add: comp_def)
  have "map k (concat ns) = map k (concat (inner s))"
    using arg_cong [OF assms(2), of concat] by (simp add: map_concat)
  then have "sorted_keys k (concat ns)" "length (concat ns) = length (concat (inner s))"
    using assms(1) by (metis bset_inv_def elems_def sorted_keys_def, metis length_map)
  moreover have "wf_spine ns"
    using bset_invD(1) [OF assms(1)] unfolding wf_spine_lengths lens .
  ultimately show "bset_inv slots k (s\<lparr> inner := ns \<rparr>)"
    using assms(1) lens by (simp add: bset_inv_def elems_def)
  show "bset_bounded s \<Longrightarrow> bset_bounded (s\<lparr> inner := ns \<rparr>)"
    using arg_cong [OF lens, of "\<lambda>ls. \<forall>l\<in>set ls. l \<le> node_capacity s"] by (simp add: bset_bounded_def)
qed

lemma spine_set:
  assumes "i < length ns" and "j < length (ns ! i)"
  shows "concat (ns[i := (ns ! i)[j := x]]) = (concat ns)[offset ns i + j := x]"
  using assms(2)
  by (simp add: spine_update [OF assms(1)] spine_split [OF assms(1)] offset_concat list_update_append)

lemma set_position_step:
  assumes inv: "bset_inv slots k s" and i: "i < length (inner s)" and j: "j < length (inner s ! i)"
    and key: "k x = k (inner s ! i ! j)" and g: "g = offset (inner s) i + j"
    and s': "s' = s\<lparr> inner := (inner s)[i := (inner s ! i)[j := x]] \<rparr>"
  shows "bset_step slots k s ((elems s)[g := x]) s'"
proof -
  have "map (map k) ((inner s)[i := (inner s ! i)[j := x]]) = map (map k) (inner s)"
    using i j key by (simp add: map_update) (metis list_update_id map_update nth_map)
  then show ?thesis
    using same_keys_inv [OF inv] spine_set [OF i j] by (simp add: bset_step_def elems_def s' g)
qed

section \<open>Updating by key\<close>

definition upd_key :: "('a \<Rightarrow> 'q) \<Rightarrow> 'q \<Rightarrow> ('a \<Rightarrow> 'a) \<Rightarrow> 'a list \<Rightarrow> 'a list" where
  "upd_key b q f xs = map (\<lambda>x. if b x = q then f x else x) xs"

lemma upd_key_nth:
  assumes "sorted_keys b xs" and "i < length xs"
  shows "xs[i := f (xs ! i)] = upd_key b (b (xs ! i)) f xs"
proof (rule nth_equalityI)
  fix j
  assume j: "j < length (xs[i := f (xs ! i)])"
  have "b (xs ! j) = b (xs ! i) \<longleftrightarrow> j = i"
    using sorted_keys_distinct [OF assms(1)] assms(2) j by (simp add: distinct_conv_nth) (metis nth_map)
  then show "xs[i := f (xs ! i)] ! j = upd_key b (b (xs ! i)) f xs ! j"
    using j by (auto simp: upd_key_def nth_list_update)
qed (simp add: upd_key_def)

lemma set_upd_key:
  assumes "sorted_keys b xs" and "x \<in> set xs" and "b x = q"
  shows "set (upd_key b q f xs) = insert (f x) {y \<in> set xs. b y \<noteq> q}"
proof -
  have one: "{y \<in> set xs. b y = q} = {x}"
  proof (intro equalityI subsetI)
    fix y
    assume "y \<in> {y \<in> set xs. b y = q}"
    then show "y \<in> {x}"
      using sorted_keys_inj [OF assms(1) _ assms(2), of y] assms(3) by simp
  qed (use assms(2,3) in simp)
  have "set (upd_key b q f xs) = f ` {y \<in> set xs. b y = q} \<union> {y \<in> set xs. b y \<noteq> q}"
    by (auto simp: upd_key_def)
  then show ?thesis
    by (simp add: one)
qed

lemma upd_key_absent: "\<not> has_key b q xs \<Longrightarrow> upd_key b q f xs = xs"
  unfolding upd_key_def by (rule map_idI) (auto simp: has_key_def)

definition bmap_step ::
  "('f \<Rightarrow> nat list) \<Rightarrow> ('k::linorder, 'v, 'f) btree_map \<Rightarrow> ('k, 'v) pair list \<Rightarrow>
     ('k, 'v, 'f) btree_map \<Rightarrow> bool" where
  "bmap_step slots m xs m' \<longleftrightarrow> bset_step slots pair_key (map_set m) xs (map_set m')"

lemma bmap_stepD:
  assumes "bmap_step slots m xs m'"
  shows "entries m' = xs" "bmap_inv slots m'"
    "bset_bounded (map_set m) \<Longrightarrow> bset_bounded (map_set m')"
  using assms by (auto simp: bmap_step_def bset_step_def entries_def bmap_inv_def)

lemma bmap_step_refl: "bmap_inv slots m \<Longrightarrow> bmap_step slots m (entries m) m"
  by (simp add: bmap_step_def bmap_inv_def entries_def bset_step_refl)

section \<open>Lookup\<close>

lemma key_downward:
  assumes "bmap_inv slots m" and "borrow_ok id c"
  shows "downward (key_lt c q) (entries m)" and "downward (key_le c q) (entries m)"
    and "sorted_keys (c \<circ> pair_key) (entries m)"
  using borrow_downward [OF bmap_invD(1) [OF assms(1)] borrow_key [OF assms(2)]]
  by (simp_all only: key_preds entries_def)

lemma contains_key_eq:
  assumes "bmap_inv slots m" and "borrow_ok id c"
  shows "bmap_contains_key c m q = Inr (q \<in> c ` dom (lookup m))"
proof -
  note kd = key_downward(1) [OF assms, of q, unfolded entries_def]
    key_downward(3) [OF assms, unfolded entries_def]
  have "has_key (c \<circ> pair_key) q (elems (map_set m)) \<longleftrightarrow> q \<in> c ` dom (lookup m)"
    using lookup_dom [OF bmap_invD(2) [OF assms(1)]] by (auto simp: has_key_def entries_def)
  then show ?thesis
    using contains_cmp_eq [OF bmap_invD(1) [OF assms(1)] kd(1), of "key_eq c q"]
      vec_get_has_key(1) [OF kd(2), of q]
    by (simp add: bmap_contains_key_def key_preds split: option.splits)
qed

lemma get_key_value_eq:
  assumes "bmap_inv slots m" and "borrow_ok id c"
  shows "bmap_get_key_value c m q = Inr (map_option pair_tuple (lookup_by c m q))"
proof -
  let ?b = "c \<circ> pair_key" and ?ns = "inner (map_set m)"
  let ?p = "\<lambda>x. ?b x < q" and ?i = "spine_pos (\<lambda>x. (c \<circ> pair_key) x < q) True (inner (map_set m))"
  note kd = key_downward(1) [OF assms, of q, unfolded entries_def elems_def key_preds]
    key_downward(3) [OF assms, unfolded entries_def elems_def]
  note wf = bset_invD(1) [OF bmap_invD(1) [OF assms(1)]]
  have i: "?i < length ?ns"
    using spine_pos_spec(1) [OF wf kd(1) refl] .
  have srt: "sorted_keys ?b (?ns ! ?i)"
    using wf_spine_node_sorted [OF kd(2) i] .
  have find: "find_key ?b q (?ns ! ?i) = lookup_by c m q"
    using find_key_partition_point [OF srt, of q] find_key_partition_point [OF kd(2), of q]
      spine_pos_get [OF wf kd(1) refl, where d = True]
    by (simp add: lookup_by_def entries_def elems_def)
  have cmp: "(\<lambda>p. compare (c (pair_key p)) q) = cmp_by ?b q"
    by (auto simp: cmp_by_def)
  show ?thesis
  proof (cases "has_key ?b q (?ns ! ?i)")
    case True
    note n = has_key_partition_point [OF srt True refl]
    show ?thesis
      using True n i find prefix.search_sorted_keys [OF srt, of q] find_key_nth [OF srt n(1)]
      by (simp add: bmap_get_key_value_def locate_node_cmp_eq key_preds cmp [unfolded comp_def] comp_def)
  next
    case False
    then show ?thesis
      using i find prefix.search_sorted_keys [OF srt, of q] find_key_None [of ?b q "?ns ! ?i"]
      by (simp add: bmap_get_key_value_def locate_node_cmp_eq key_preds cmp [unfolded comp_def] comp_def)
  qed
qed

lemma get_eq_lookup:
  assumes "bmap_inv slots m" and "borrow_ok id c"
  shows "bmap_get c m (c k) = Inr (lookup m k)"
  using get_key_value_eq [OF assms, of "c k"] lookup_by_key [OF assms(2) bmap_invD(2) [OF assms(1)], of k]
  by (simp add: bmap_get_def option.map_comp comp_def pair_tuple_def)

section \<open>Operations\<close>

locale btree_map_deps = btree_deps D slots
  for D :: "(('k::linorder, 'v) pair, 'f) deps" and slots :: "'f \<Rightarrow> nat list"

context btree_map_deps
begin

lemma get_mut_step:
  assumes inv: "bmap_inv slots m" and ok: "borrow_ok id c"
  shows "\<exists>m'. bmap_get_mut c m q g = Inr (map_option pair_value (lookup_by c m q), m') \<and>
    bmap_step slots m (upd_key (c \<circ> pair_key) q (set_value g) (entries m)) m'"
proof -
  let ?b = "c \<circ> pair_key" and ?s = "map_set m" and ?ns = "inner (map_set m)"
  let ?i = "spine_pos (key_lt c q) True (inner (map_set m))"
  let ?j = "partition_point (key_lt c q) (?ns ! ?i)" and ?g = "partition_point (key_lt c q) (elems ?s)"
  note sinv = bmap_invD(1) [OF inv]
  note down = key_downward(1) [OF inv ok, of q, unfolded entries_def]
  note srt = key_downward(3) [OF inv ok, unfolded entries_def]
  note sp = spine_pos_spec [OF bset_invD(1) [OF sinv] down [unfolded elems_def] refl, where d = True]
  have get: "vec_get (?ns ! ?i) ?j = vec_get (elems ?s) ?g"
    using spine_pos_get [OF bset_invD(1) [OF sinv] down [unfolded elems_def] refl, where d = True]
    by (simp add: elems_def)
  have loc: "bset_locate_value_cmp (key_lt c q) ?s = Inr (?i, ?j)"
    using locate_value_cmp_eq [OF bset_invD(1) [OF sinv] down refl] .
  have find: "lookup_by c m q = (case vec_get (elems ?s) ?g of
      Some x \<Rightarrow> if ?b x = q then Some x else None | None \<Rightarrow> None)"
    using find_key_partition_point [OF srt, of q] by (simp add: lookup_by_def entries_def key_preds)
  show ?thesis
  proof (cases "lookup_by c m q")
    case None
    then have "\<not> has_key ?b q (entries m)"
      by (simp add: lookup_by_def find_key_None)
    moreover have "bmap_get_mut c m q g = Inr (None, m)"
      using None find sp(1) get by (auto simp: bmap_get_mut_def loc split: option.splits if_splits)
    ultimately show ?thesis
      using None bmap_step_refl [OF inv] by (simp add: upd_key_absent)
  next
    case (Some p)
    then have p: "vec_get (elems ?s) ?g = Some p" "c (pair_key p) = q"
      using find by (auto split: option.splits if_splits)
    then have gl: "?g < length (elems ?s)" "elems ?s ! ?g = p"
      by (auto simp: vec_get_def split: if_splits)
    have jl: "?j < length (?ns ! ?i)" "?ns ! ?i ! ?j = p"
      using get p(1) by (auto simp: vec_get_def split: if_splits)
    let ?m' = "m\<lparr> map_set := ?s\<lparr> inner := ?ns[?i := (?ns ! ?i)[?j := set_value g p]] \<rparr> \<rparr>"
    have "bmap_get_mut c m q g = Inr (Some (pair_value p), ?m')"
      using p sp(1) get by (simp add: bmap_get_mut_def loc)
    moreover have "bset_step slots pair_key ?s ((elems ?s)[?g := set_value g p]) (map_set ?m')"
      using sp(2) jl(2) by (intro set_position_step [OF sinv sp(1) jl(1)]) (simp_all add: set_value_def elems_def)
    moreover have "(elems ?s)[?g := set_value g p] = upd_key ?b q (set_value g) (elems ?s)"
      using upd_key_nth [OF srt gl(1), of "set_value g"] gl(2) p(2) by simp
    ultimately show ?thesis
      using Some by (simp add: bmap_step_def entries_def)
  qed
qed

lemma insert_found:
  assumes inv: "bmap_inv slots m" and has: "has_key pair_key key (entries m)"
  shows "\<exists>m'. bmap_insert D m key v = Inr (lookup m key, m') \<and>
    bmap_step slots m (upd_key pair_key key (set_value (\<lambda>_. v)) (entries m)) m'"
proof -
  let ?s = "map_set m" and ?ns = "inner (map_set m)"
  let ?i = "spine_pos (key_lt id key) True (inner (map_set m))"
  let ?j = "partition_point (key_lt id key) (?ns ! ?i)" and ?g = "partition_point (key_lt id key) (elems ?s)"
  note sinv = bmap_invD(1) [OF inv]
  note down = key_downward(1) [OF inv borrow_ok_refl, of key, unfolded entries_def]
  note srt = bset_invD(2) [OF sinv]
  note sp = spine_pos_spec [OF bset_invD(1) [OF sinv] down [unfolded elems_def] refl, where d = True]
  have g: "?g < length (elems ?s)" "pair_key (elems ?s ! ?g) = key"
    using has_key_partition_point [OF srt has [unfolded entries_def] refl] by (simp_all add: key_preds)
  let ?p = "elems ?s ! ?g"
  have jl: "?j < length (?ns ! ?i)" "?ns ! ?i ! ?j = ?p"
    using spine_pos_get [OF bset_invD(1) [OF sinv] down [unfolded elems_def] refl, where d = True] g(1)
    by (auto simp: vec_get_def elems_def split: if_splits)
  let ?m' = "m\<lparr> map_set := ?s\<lparr> inner := ?ns[?i := (?ns ! ?i)[?j := set_value (\<lambda>_. v) ?p]] \<rparr> \<rparr>"
  have "bset_find_cmp (key_lt id key) (key_eq id key) ?s = Inr (Exist ?i ?j)"
    using find_cmp_eq [OF sinv down refl refl, of "key_eq id key"] g by (simp add: key_eq_def)
  moreover have "lookup m key = Some (pair_value ?p)"
    using find_key_lookup [OF bmap_invD(2) [OF inv], of key] find_key_nth [OF srt g(1)] g(2)
    by (simp add: entries_def)
  ultimately have "bmap_insert D m key v = Inr (lookup m key, ?m')"
    using sp(1) jl by (simp add: bmap_insert_def)
  moreover have "bset_step slots pair_key ?s ((elems ?s)[?g := set_value (\<lambda>_. v) ?p]) (map_set ?m')"
    using sp(2) jl(2) by (intro set_position_step [OF sinv sp(1) jl(1)]) (simp_all add: set_value_def elems_def)
  moreover have "(elems ?s)[?g := set_value (\<lambda>_. v) ?p] = upd_key pair_key key (set_value (\<lambda>_. v)) (elems ?s)"
    using upd_key_nth [OF srt g(1), of "set_value (\<lambda>_. v)"] g(2) by simp
  ultimately show ?thesis
    by (simp add: bmap_step_def entries_def)
qed

lemma insert_new:
  assumes inv: "bmap_inv slots m" and new: "\<not> has_key pair_key key (entries m)"
  shows "\<exists>m'. bmap_insert D m key v = Inr (None, m') \<and>
    bmap_step slots m (ins_key pair_key (MkPair key v) (entries m)) m'"
proof -
  let ?s = "map_set m" and ?i = "spine_pos (key_lt id key) True (inner (map_set m))"
  note sinv = bmap_invD(1) [OF inv]
  note down = key_downward(1) [OF inv borrow_ok_refl, of key, unfolded entries_def]
  have "bset_find_cmp (key_lt id key) (key_eq id key) ?s = Inr (Empty ?i)"
    using find_cmp_eq [OF sinv down refl refl, of "key_eq id key"] new
      vec_get_has_key(1) [OF bset_invD(2) [OF sinv], of key]
    by (auto simp: key_preds entries_def split: option.splits)
  moreover have "node_for pair_key (pair_key (MkPair key v)) (inner ?s) ?i"
    using spine_pos_node_for [OF bset_invD(1) [OF sinv] bset_invD(2) [OF sinv, unfolded elems_def],
        of key True]
    by (simp add: key_preds)
  then obtain r s' where "bset_insert_at D pair_key ?s ?i (MkPair key v) = Inr (r, s')"
    "bset_step slots pair_key ?s (ins_key pair_key (MkPair key v) (elems ?s)) s'"
    using insert_at_step [OF sinv] by blast
  ultimately show ?thesis
    by (auto simp: bmap_insert_def bmap_step_def entries_def intro!: exI [of _ "m\<lparr> map_set := s' \<rparr>"])
qed

end

text \<open>The effect of a step on \<open>lookup\<close> follows from its effect on the set of pairs.\<close>

lemma lookup_put:
  assumes "sorted_keys pair_key (entries m)" and "sorted_keys pair_key (entries m')"
    and "set (entries m') = insert (MkPair key v) {p \<in> set (entries m). pair_key p \<noteq> key}"
  shows "lookup m' = (lookup m)(key \<mapsto> v)"
  using assms by (intro lookup_eqI) (auto simp: lookup_Some)

lemma lookup_filter:
  assumes "sorted_keys pair_key (entries m)" and "sorted_keys pair_key (entries m')"
    and "set (entries m') = {p \<in> set (entries m). P (pair_key p)}"
  shows "lookup m' = (lookup m) |` {k. P k}"
  using assms by (intro lookup_eqI) (auto simp: lookup_Some restrict_map_def)

context btree_map_deps
begin

lemma insert_step_map:
  assumes inv: "bmap_inv slots m"
  shows "\<exists>m'. bmap_insert D m key v = Inr (lookup m key, m') \<and> bmap_inv slots m' \<and>
    lookup m' = (lookup m)(key \<mapsto> v) \<and>
    set (entries m') = insert (MkPair key v) {p \<in> set (entries m). pair_key p \<noteq> key} \<and>
    (bset_bounded (map_set m) \<longrightarrow> bset_bounded (map_set m'))"
proof (cases "has_key pair_key key (entries m)")
  case True
  obtain m' where m': "bmap_insert D m key v = Inr (lookup m key, m')"
    "bmap_step slots m (upd_key pair_key key (set_value (\<lambda>_. v)) (entries m)) m'"
    using insert_found [OF inv True] by blast
  obtain p where "p \<in> set (entries m)" "pair_key p = key"
    using True by (auto simp: has_key_def)
  then have "set (entries m') = insert (MkPair key v) {p \<in> set (entries m). pair_key p \<noteq> key}"
    using bmap_stepD(1) [OF m'(2)] by (auto simp: upd_key_def set_value_def image_iff)
  then show ?thesis
    using m' bmap_stepD [OF m'(2)] lookup_put [OF bmap_invD(2) [OF inv] bmap_invD(2) [OF bmap_stepD(2) [OF m'(2)]]]
    by auto
next
  case False
  obtain m' where m': "bmap_insert D m key v = Inr (None, m')"
    "bmap_step slots m (ins_key pair_key (MkPair key v) (entries m)) m'"
    using insert_new [OF inv False] by blast
  have "lookup m key = None"
    using False lookup_dom [OF bmap_invD(2) [OF inv]] by (auto simp: has_key_def domIff)
  moreover have "set (entries m') = insert (MkPair key v) {p \<in> set (entries m). pair_key p \<noteq> key}"
    using False bmap_stepD(1) [OF m'(2)] by (auto simp: set_ins_key has_key_def)
  ultimately show ?thesis
    using m' bmap_stepD [OF m'(2)] lookup_put [OF bmap_invD(2) [OF inv] bmap_invD(2) [OF bmap_stepD(2) [OF m'(2)]]]
    by auto
qed

lemma remove_step_map:
  assumes inv: "bmap_inv slots m" and ok: "borrow_ok id c"
  shows "\<exists>m'. bmap_remove_entry D c m q = Inr (map_option pair_tuple (lookup_by c m q), m') \<and>
    bmap_remove D c m q = Inr (map_option pair_value (lookup_by c m q), m') \<and>
    bmap_inv slots m' \<and> lookup m' = (lookup m) |` {k. c k \<noteq> q} \<and>
    entries m' = filter (\<lambda>p. c (pair_key p) \<noteq> q) (entries m) \<and>
    (bset_bounded (map_set m) \<longrightarrow> bset_bounded (map_set m'))"
proof -
  let ?b = "c \<circ> pair_key"
  obtain s' where s': "bset_delete_cmp D (\<lambda>x. ?b x < q) (\<lambda>x. ?b x = q) (map_set m) =
      Inr ((find_key ?b q (elems (map_set m)), has_key ?b q (elems (map_set m))), s')"
    "bset_step slots pair_key (map_set m) (del_key ?b q (elems (map_set m))) s'"
    using delete_cmp_step [OF bmap_invD(1) [OF inv] borrow_key [OF ok]] by blast
  let ?m' = "m\<lparr> map_set := s' \<rparr>"
  note run = s'(1) [folded key_preds]
  have step: "bmap_step slots m (filter (\<lambda>p. c (pair_key p) \<noteq> q) (entries m)) ?m'"
    using s'(2) by (simp add: bmap_step_def del_key_def entries_def)
  note st = bmap_stepD [OF step]
  have "find_key ?b q (entries m) = None" if "\<not> has_key ?b q (entries m)"
    using that by (simp add: find_key_None)
  then have "bmap_remove_entry D c m q = Inr (map_option pair_tuple (lookup_by c m q), ?m') \<and>
      bmap_remove D c m q = Inr (map_option pair_value (lookup_by c m q), ?m')"
    by (auto simp: bmap_remove_entry_def bmap_remove_def run lookup_by_def entries_def)
  moreover have "lookup ?m' = (lookup m) |` {k. c k \<noteq> q}"
    using st(1) by (intro lookup_filter bmap_invD(2) [OF inv] bmap_invD(2) [OF st(2)]) auto
  ultimately show ?thesis
    using st by auto
qed

lemma get_index_map:
  assumes "bmap_inv slots m"
  shows "bmap_get_index D m i = Inr (map_option pair_tuple (vec_get (entries m) i))"
  using get_index_eq [OF bmap_invD(1) [OF assms], of i] by (simp add: bmap_get_index_def entries_def)

lemma rank_map:
  assumes "bmap_inv slots m" and "borrow_ok id c"
  shows "bset_rank_cmp D (key_lt c q) (map_set m) = Inr (partition_point (key_lt c q) (entries m))"
    and "bset_rank_cmp D (key_le c q) (map_set m) = Inr (partition_point (key_le c q) (entries m))"
  using rank_cmp_eq [OF bmap_invD(1) [OF assms(1)]] key_downward(1,2) [OF assms, of q]
  by (simp_all add: entries_def)

lemma get_mut_index_step:
  assumes inv: "bmap_inv slots m"
  shows "i < length (entries m) \<Longrightarrow> \<exists>m'. bmap_get_mut_index D m i g = Inr (Some (pair_value (entries m ! i)), m') \<and>
      bmap_step slots m ((entries m)[i := set_value g (entries m ! i)]) m'"
    and "length (entries m) \<le> i \<Longrightarrow> bmap_get_mut_index D m i g = Inr (None, m)"
proof -
  note sinv = bmap_invD(1) [OF inv]
  assume "i < length (entries m)"
  then show "\<exists>m'. bmap_get_mut_index D m i g = Inr (Some (pair_value (entries m ! i)), m') \<and>
      bmap_step slots m ((entries m)[i := set_value g (entries m ! i)]) m'"
  proof (cases rule: locate_ith_cases [OF sinv, of i])
    case (1 a j)
    let ?m' = "m\<lparr> map_set := (map_set m)\<lparr> inner := (inner (map_set m))[a :=
      (inner (map_set m) ! a)[j := set_value g (inner (map_set m) ! a ! j)]] \<rparr> \<rparr>"
    have x: "inner (map_set m) ! a ! j = entries m ! i"
      using spine_nth(1) [OF 1(3,4)] 1(5) by (simp add: entries_def elems_def)
    have "bmap_step slots m ((elems (map_set m))[i := set_value g (inner (map_set m) ! a ! j)]) ?m'"
      unfolding bmap_step_def using 1
      by (intro set_position_step [OF sinv 1(3,4)]) (simp_all add: set_value_def)
    then show ?thesis
      using 1(1,3,4) x by (auto simp: bmap_get_mut_index_def bset_get_mut_index_def entries_def)
  qed (simp add: entries_def)
next
  note sinv = bmap_invD(1) [OF inv]
  assume "length (entries m) \<le> i"
  then show "bmap_get_mut_index D m i g = Inr (None, m)"
    by (cases rule: locate_ith_cases [OF sinv, of i])
      (auto simp: bmap_get_mut_index_def bset_get_mut_index_def entries_def)
qed

lemma split_off_map:
  assumes inv: "bmap_inv slots m" and ok: "borrow_ok id c"
  shows "\<exists>t m'. bmap_split_off D c m q = Inr (t, m') \<and> bmap_inv slots t \<and> bmap_inv slots m' \<and>
    entries m' = takeWhile (key_lt c q) (entries m) \<and> entries t = dropWhile (key_lt c q) (entries m)"
  using split_off_cmp_step [OF bmap_invD(1) [OF inv] key_downward(1) [OF inv ok, unfolded entries_def], of q]
  by (auto simp: bmap_split_off_def bmap_inv_def entries_def bset_step_def)

lemma append_map:
  assumes "bmap_inv slots m" and "bmap_inv slots t"
  shows "\<exists>m' t'. bmap_append D m t = Inr (m', t') \<and> bmap_inv slots m' \<and> bmap_inv slots t' \<and>
    entries m' = fold (put_key pair_key) (entries t) (entries m) \<and> entries t' = []"
  using append_step [OF bmap_invD(1) [OF assms(1)] bmap_invD(1) [OF assms(2)]]
  by (auto simp: bmap_append_def bmap_inv_def entries_def bset_step_def)

lemma pop_map:
  assumes inv: "bmap_inv slots m"
  shows "\<exists>m'. bmap_pop_first D m = Inr (map_option pair_tuple (vec_first (entries m)), m') \<and>
      bmap_step slots m (tl (entries m)) m'"
    and "\<exists>m'. bmap_pop_last D m = Inr (map_option pair_tuple (vec_last (entries m)), m') \<and>
      bmap_step slots m (butlast (entries m)) m'"
    and "i < length (entries m) \<Longrightarrow> \<exists>m'. bmap_pop_index D m i = Inr (pair_tuple (entries m ! i), m') \<and>
      bmap_step slots m (remove_at i (entries m)) m'"
proof -
  note sinv = bmap_invD(1) [OF inv]
  show "\<exists>m'. bmap_pop_first D m = Inr (map_option pair_tuple (vec_first (entries m)), m') \<and>
      bmap_step slots m (tl (entries m)) m'"
    using pop_first_step [OF sinv] by (auto simp: bmap_pop_first_def bmap_step_def entries_def)
  show "\<exists>m'. bmap_pop_last D m = Inr (map_option pair_tuple (vec_last (entries m)), m') \<and>
      bmap_step slots m (butlast (entries m)) m'"
    using pop_last_step [OF sinv] by (auto simp: bmap_pop_last_def bmap_step_def entries_def)
  show "\<exists>m'. bmap_pop_index D m i = Inr (pair_tuple (entries m ! i), m') \<and>
      bmap_step slots m (remove_at i (entries m)) m'" if "i < length (entries m)"
    using pop_index_step(1) [OF sinv, of i] that by (auto simp: bmap_pop_index_def bmap_step_def entries_def)
qed

end

end
