(* ===== verification/Map_Contract.thy ===== *)
theory Map_Contract
  imports Prelude
begin

text \<open>
  What a client of an ordered map relies on: the locale \<open>map_provider\<close> relates lookup, insertion
  and removal to a finite function. A client program is a list of calls; inside the locale every
  program is shown to see the answers of the finite function, whatever the representation.
\<close>

datatype ('k, 'v) map_call = Get 'k | Insert 'k 'v | Remove 'k

text \<open>Running calls on an implementation; every call answers with an optional value.\<close>

fun run_calls ::
  "('m \<Rightarrow> 'k \<Rightarrow> 'v option res) \<Rightarrow> ('m \<Rightarrow> 'k \<Rightarrow> 'v \<Rightarrow> ('v option \<times> 'm) res) \<Rightarrow>
   ('m \<Rightarrow> 'k \<Rightarrow> ('v option \<times> 'm) res) \<Rightarrow> ('k, 'v) map_call list \<Rightarrow> 'm \<Rightarrow> ('v option list \<times> 'm) res" where
  "run_calls get put del [] m = Inr ([], m)"
| "run_calls get put del (call # calls) m =
     rbind (case call of
         Get k \<Rightarrow> rbind (get m k) (\<lambda>r. Inr (r, m))
       | Insert k v \<Rightarrow> put m k v
       | Remove k \<Rightarrow> del m k) (\<lambda>(r, m').
     rbind (run_calls get put del calls m') (\<lambda>(rs, m''). Inr (r # rs, m'')))"

text \<open>Running them on a finite function.\<close>

fun spec_calls :: "('k, 'v) map_call list \<Rightarrow> ('k \<Rightarrow> 'v option) \<Rightarrow> 'v option list \<times> ('k \<Rightarrow> 'v option)" where
  "spec_calls [] f = ([], f)"
| "spec_calls (Get k # calls) f = (let (rs, f') = spec_calls calls f in (f k # rs, f'))"
| "spec_calls (Insert k v # calls) f = (let (rs, f') = spec_calls calls (f(k \<mapsto> v)) in (f k # rs, f'))"
| "spec_calls (Remove k # calls) f = (let (rs, f') = spec_calls calls (f(k := None)) in (f k # rs, f'))"

locale map_provider =
  fixes get :: "'m \<Rightarrow> 'k \<Rightarrow> 'v option res"
    and put :: "'m \<Rightarrow> 'k \<Rightarrow> 'v \<Rightarrow> ('v option \<times> 'm) res"
    and del :: "'m \<Rightarrow> 'k \<Rightarrow> ('v option \<times> 'm) res"
    and abs :: "'m \<Rightarrow> 'k \<Rightarrow> 'v option"
    and inv :: "'m \<Rightarrow> bool"
  assumes get_abs: "inv m \<Longrightarrow> get m k = Inr (abs m k)"
    and put_abs: "inv m \<Longrightarrow> \<exists>m'. put m k v = Inr (abs m k, m') \<and> inv m' \<and> abs m' = (abs m)(k \<mapsto> v)"
    and del_abs: "inv m \<Longrightarrow> \<exists>m'. del m k = Inr (abs m k, m') \<and> inv m' \<and> abs m' = (abs m)(k := None)"
begin

lemma run_refines:
  assumes "inv m"
  shows "\<exists>m'. run_calls get put del calls m = Inr (fst (spec_calls calls (abs m)), m') \<and> inv m' \<and>
    abs m' = snd (spec_calls calls (abs m))"
  using assms
proof (induction calls arbitrary: m)
  case (Cons call calls)
  obtain m1 where m1: "inv m1" "(case call of Get k \<Rightarrow> rbind (get m k) (\<lambda>r. Inr (r, m))
      | Insert k v \<Rightarrow> put m k v | Remove k \<Rightarrow> del m k) = Inr (hd (fst (spec_calls (call # calls) (abs m))), m1)"
    "spec_calls (call # calls) (abs m) =
      (hd (fst (spec_calls (call # calls) (abs m))) # fst (spec_calls calls (abs m1)),
       snd (spec_calls calls (abs m1)))"
    using Cons.prems get_abs put_abs del_abs by (cases call) (fastforce simp: Let_def split_def)+
  obtain m2 where "run_calls get put del calls m1 = Inr (fst (spec_calls calls (abs m1)), m2)" "inv m2"
    "abs m2 = snd (spec_calls calls (abs m1))"
    using Cons.IH [OF m1(1)] by blast
  then show ?case
    using m1(2) by (subst (1 2) m1(3)) simp
qed simp

end

end
