(* ===== verification/Btree_Map_Ops.thy ===== *)
theory Btree_Map_Ops
  imports Btree_Map_Facts Map_Contract
begin

text \<open>
  The library for \<open>BTreeMap\<close>, continued: \<open>BTreeMap\<close> as a map provider, the entry API, \<open>retain\<close>
  with mutable access to the values, collecting, and the index arithmetic of ranges.
\<close>

section \<open>BTreeMap as a map provider\<close>

sublocale btree_map_deps \<subseteq> provider: map_provider "bmap_get id" "bmap_insert D" "bmap_remove D id"
  lookup "bmap_inv slots"
proof
  fix m :: "('k, 'v, 'f) btree_map" and k v
  assume inv: "bmap_inv slots m"
  show "bmap_get id m k = Inr (lookup m k)"
    using get_eq_lookup [OF inv borrow_ok_refl, of k] by simp
  show "\<exists>m'. bmap_insert D m k v = Inr (lookup m k, m') \<and> bmap_inv slots m' \<and> lookup m' = (lookup m)(k \<mapsto> v)"
    using insert_step_map [OF inv] by blast
  have "map_option pair_value (lookup_by id m k) = lookup m k"
    using lookup_by_key [OF borrow_ok_refl bmap_invD(2) [OF inv], of k] by simp
  moreover have "(lookup m) |` {x. id x \<noteq> k} = (lookup m)(k := None)"
    by (auto simp: restrict_map_def)
  ultimately show "\<exists>m'. bmap_remove D id m k = Inr (lookup m k, m') \<and> bmap_inv slots m' \<and>
      lookup m' = (lookup m)(k := None)"
    using remove_step_map [OF inv borrow_ok_refl, of k] by metis
qed

context btree_map_deps
begin

lemmas provider_refines = provider.run_refines

end

interpretation ref_map: btree_map_deps "ref_deps :: (('k::linorder, 'v) pair, nat list) deps" id
  by (simp add: btree_map_deps_def ref.btree_deps_axioms)

section \<open>Entries\<close>

lemma lookup_write:
  assumes srt: "sorted_keys pair_key (entries m)" and i: "i < length (entries m)"
    and key: "pair_key (entries m ! i) = k"
    and m': "entries m' = (entries m)[i := set_value g (entries m ! i)]"
      "sorted_keys pair_key (entries m')"
  shows "lookup m' = (lookup m)(k \<mapsto> g (pair_value (entries m ! i)))"
proof (rule lookup_put [OF srt m'(2)])
  have "entries m' = upd_key pair_key k (set_value g) (entries m)"
    using upd_key_nth [OF srt i, of "set_value g"] m'(1) key by simp
  then show "set (entries m') = insert (MkPair k (g (pair_value (entries m ! i))))
      {p \<in> set (entries m). pair_key p \<noteq> k}"
    using set_upd_key [OF srt nth_mem [OF i] key, of "set_value g"] key by (simp add: set_value_def)
qed

lemma key_position:
  assumes "bmap_inv slots m" and "lookup m k = Some v"
  shows "partition_point (key_lt id k) (entries m) < length (entries m)"
    and "entries m ! partition_point (key_lt id k) (entries m) = MkPair k v"
proof -
  note srt = bmap_invD(2) [OF assms(1)]
  have mem: "MkPair k v \<in> set (entries m)"
    using lookup_Some [OF srt] assms(2) by simp
  then have "has_key pair_key k (entries m)"
    by (force simp: has_key_def)
  note n = has_key_partition_point [OF srt this refl]
  show "partition_point (key_lt id k) (entries m) < length (entries m)"
    using n(1) by (simp add: key_preds)
  show "entries m ! partition_point (key_lt id k) (entries m) = MkPair k v"
    using sorted_keys_inj [OF srt _ mem, of "entries m ! partition_point (\<lambda>x. pair_key x < k) (entries m)"] n
    by (simp add: key_preds)
qed

context btree_map_deps
begin

lemma entry_cases:
  assumes inv: "bmap_inv slots m"
  shows "bmap_entry D m k = Inr (case lookup m k of
      Some _ \<Rightarrow> Occupied \<lparr> occupied_map = m, occupied_idx = partition_point (key_lt id k) (entries m) \<rparr>
    | None \<Rightarrow> Vacant \<lparr> vacant_map = m, vacant_key = k \<rparr>)"
  using contains_key_eq [OF inv borrow_ok_refl, of k] rank_map(1) [OF inv borrow_ok_refl, of k]
  by (auto simp: bmap_entry_def domIff split: option.splits)

lemma into_mut_step:
  assumes inv: "bmap_inv slots m" and v: "lookup m k = Some v"
  shows "\<exists>m'. bmap_get_mut_index D m (partition_point (key_lt id k) (entries m)) g = Inr (Some v, m') \<and>
    bmap_inv slots m' \<and> lookup m' = (lookup m)(k \<mapsto> g v) \<and>
    partition_point (key_lt id k) (entries m') = partition_point (key_lt id k) (entries m)"
proof -
  let ?i = "partition_point (key_lt id k) (entries m)"
  note kp = key_position [OF assms]
  obtain m' where m': "bmap_get_mut_index D m ?i g = Inr (Some (pair_value (entries m ! ?i)), m')"
    "bmap_step slots m ((entries m)[?i := set_value g (entries m ! ?i)]) m'"
    using get_mut_index_step(1) [OF inv kp(1)] by blast
  note st = bmap_stepD [OF m'(2)]
  have "lookup m' = (lookup m)(k \<mapsto> g v)"
    using lookup_write [OF bmap_invD(2) [OF inv] kp(1) _ st(1) bmap_invD(2) [OF st(2)]] kp(2) by simp
  moreover from this have "partition_point (key_lt id k) (entries m') = ?i"
  proof -
    have "map pair_key (entries m') = map pair_key (entries m)"
      using st(1) kp by (simp add: map_update set_value_def list_update_same_conv)
    moreover have "partition_point (key_lt id k) xs = partition_point (\<lambda>x. x < k) (map pair_key xs)" for xs :: "('k, 'v) pair list"
      by (simp add: partition_point_def takeWhile_map key_lt_def [abs_def] comp_def)
    ultimately show ?thesis by simp
  qed
  ultimately show ?thesis
    using m'(1) st(2) kp(2) by auto
qed

lemma vacant_insert_step:
  assumes inv: "bmap_inv slots m" and none: "lookup m k = None"
  shows "\<exists>m'. vacant_insert D \<lparr> vacant_map = m, vacant_key = k \<rparr> v g = Inr (v, m') \<and>
    bmap_inv slots m' \<and> lookup m' = (lookup m)(k \<mapsto> g v)"
proof -
  let ?p = "key_lt id k :: ('k, 'v) pair \<Rightarrow> bool"
  have new: "\<not> has_key pair_key k (entries m)"
    using none lookup_dom [OF bmap_invD(2) [OF inv]] by (auto simp: has_key_def domIff)
  obtain m1 where m1: "bmap_insert D m k v = Inr (None, m1)" "bmap_inv slots m1"
    "lookup m1 = (lookup m)(k \<mapsto> v)" "entries m1 = ins_key pair_key (MkPair k v) (entries m)"
    using insert_new [OF inv new, of v] insert_step_map [OF inv, of k v] bmap_stepD by fastforce
  have "partition_point ?p (entries m1) = partition_point ?p (entries m)"
  proof -
    have "\<forall>x\<in>set (takeWhile ?p (entries m)). ?p x"
      by (auto dest: set_takeWhileD)
    then show ?thesis
      using new m1(4) by (simp add: ins_key_def partition_point_def key_preds takeWhile_append2)
  qed
  then obtain m2 where "bmap_get_mut_index D m1 (partition_point ?p (entries m)) g = Inr (Some v, m2)"
    "bmap_inv slots m2" "lookup m2 = (lookup m1)(k \<mapsto> g v)"
    using into_mut_step [OF m1(2), of k v g] m1(3) by auto
  then show ?thesis
    using m1(1,3) rank_map(1) [OF inv borrow_ok_refl, of k] by (simp add: vacant_insert_def)
qed

lemma entry_or_insert_step:
  assumes inv: "bmap_inv slots m" and v: "v = (case lookup m k of Some x \<Rightarrow> x | None \<Rightarrow> dflt)"
  shows "\<exists>e m'. bmap_entry D m k = Inr e \<and> entry_or_insert D e dflt g = Inr (v, m') \<and>
    bmap_inv slots m' \<and> lookup m' = (lookup m)(k \<mapsto> g v)"
proof (cases "lookup m k")
  case None
  then show ?thesis
    using entry_cases [OF inv, of k] vacant_insert_step [OF inv None, of dflt g] v
    by (auto simp: entry_or_insert_def)
next
  case (Some x)
  then show ?thesis
    using entry_cases [OF inv, of k] into_mut_step [OF inv Some, of g] v
    by (auto simp: entry_or_insert_def occupied_into_mut_def)
qed

lemma and_modify_step:
  assumes inv: "bmap_inv slots m"
  shows "\<exists>e e' m'. bmap_entry D m k = Inr e \<and> entry_and_modify D e f = Inr e' \<and> bmap_inv slots m' \<and>
    bmap_entry D m' k = Inr e' \<and> lookup m' = (lookup m)(k := map_option f (lookup m k))"
proof (cases "lookup m k")
  case None
  then have "(lookup m)(k := map_option f (lookup m k)) = lookup m"
    by (auto simp: fun_eq_iff)
  then show ?thesis
    using None entry_cases [OF inv, of k] inv by (auto simp: entry_and_modify_def)
next
  case (Some x)
  obtain m' where m': "bmap_get_mut_index D m (partition_point (key_lt id k) (entries m)) f = Inr (Some x, m')"
    "bmap_inv slots m'" "lookup m' = (lookup m)(k \<mapsto> f x)"
    "partition_point (key_lt id k) (entries m') = partition_point (key_lt id k) (entries m)"
    using into_mut_step [OF inv Some] by blast
  then show ?thesis
    using Some entry_cases [OF inv, of k] entry_cases [OF m'(2), of k]
    by (auto simp: entry_and_modify_def occupied_get_mut_def)
qed

text \<open>Removing through an occupied entry is removing the key.\<close>

lemma occupied_remove_step:
  assumes inv: "bmap_inv slots m" and v: "lookup m k = Some v"
    and e: "e = \<lparr> occupied_map = m, occupied_idx = partition_point (key_lt id k) (entries m) \<rparr>"
  shows "occupied_key D e = Inr k" and "occupied_get D e = Inr v"
    and "\<exists>m'. occupied_remove_entry D e = Inr ((k, v), m') \<and> occupied_remove D e = Inr (v, m') \<and>
      bmap_inv slots m' \<and> lookup m' = (lookup m)(k := None)"
proof -
  let ?i = "partition_point (key_lt id k) (entries m)"
  note kp = key_position [OF inv v] and srt = bmap_invD(2) [OF inv]
  show "occupied_key D e = Inr k" "occupied_get D e = Inr v"
    using get_index_eq [OF bmap_invD(1) [OF inv], of ?i] kp
    by (simp_all add: occupied_key_def occupied_get_def bmap_get_index_def e entries_def pair_tuple_def)
  obtain m' where m': "bmap_pop_index D m ?i = Inr (pair_tuple (entries m ! ?i), m')"
    "bmap_step slots m (remove_at ?i (entries m)) m'"
    using pop_map(3) [OF inv kp(1)] by blast
  note st = bmap_stepD [OF m'(2)]
  have "entries m' = filter (\<lambda>p. pair_key p \<noteq> k) (entries m)"
    using del_key_nth [OF srt kp(1)] kp(2) st(1) by (simp add: remove_at_def del_key_def)
  then have "lookup m' = (lookup m) |` {x. x \<noteq> k}"
    by (intro lookup_filter [OF srt bmap_invD(2) [OF st(2)]]) auto
  moreover have "(lookup m) |` {x. x \<noteq> k} = (lookup m)(k := None)"
    by (auto simp: restrict_map_def)
  ultimately show "\<exists>m'. occupied_remove_entry D e = Inr ((k, v), m') \<and> occupied_remove D e = Inr (v, m') \<and>
      bmap_inv slots m' \<and> lookup m' = (lookup m)(k := None)"
    using m'(1) st(2) kp(2)
    by (simp add: occupied_remove_entry_def occupied_remove_def e pair_tuple_def)
qed

lemma insert_all_map:
  assumes "bmap_inv slots m"
  shows "\<exists>m'. bmap_insert_all D m kvs = Inr m' \<and> bmap_inv slots m' \<and> lookup m' = lookup m ++ map_of (rev kvs) \<and>
    (bset_bounded (map_set m) \<longrightarrow> bset_bounded (map_set m'))"
  using assms
proof (induction kvs arbitrary: m)
  case (Cons kv kvs)
  obtain k v where kv: "kv = (k, v)" by (cases kv)
  obtain m1 where m1: "bmap_insert D m k v = Inr (lookup m k, m1)" "bmap_inv slots m1"
    "lookup m1 = (lookup m)(k \<mapsto> v)" "bset_bounded (map_set m) \<longrightarrow> bset_bounded (map_set m1)"
    using insert_step_map [OF Cons.prems] by blast
  have sum: "lookup m1 ++ map_of (rev kvs) = lookup m ++ map_of (rev (kv # kvs))"
    by (simp add: kv m1(3) map_add_assoc)
  obtain m2 where "bmap_insert_all D m1 kvs = Inr m2" "bmap_inv slots m2"
    "lookup m2 = lookup m1 ++ map_of (rev kvs)" "bset_bounded (map_set m1) \<longrightarrow> bset_bounded (map_set m2)"
    using Cons.IH [OF m1(2)] by blast
  then show ?case
    using m1(1,4) sum by (simp add: kv del: rev.simps)
qed simp

end

section \<open>Retaining with mutable values\<close>

text \<open>The list-level reading: each value is rewritten, then the entry is kept or dropped.\<close>

fun map_retain_list ::
  "('st \<Rightarrow> 'k \<Rightarrow> 'v \<Rightarrow> (bool \<times> 'v) \<times> 'st) \<Rightarrow> 'st \<Rightarrow> ('k, 'v) pair list \<Rightarrow> ('k, 'v) pair list \<times> 'st" where
  "map_retain_list f st [] = ([], st)"
| "map_retain_list f st (p # ps) =
     (let ((keep, v), st1) = f st (pair_key p) (pair_value p); (qs, st2) = map_retain_list f st1 ps
      in (if keep then MkPair (pair_key p) v # qs else qs, st2))"

fun rewritten ::
  "('st \<Rightarrow> 'k \<Rightarrow> 'v \<Rightarrow> (bool \<times> 'v) \<times> 'st) \<Rightarrow> 'st \<Rightarrow> ('k, 'v) pair list \<Rightarrow> ('k, 'v) pair list" where
  "rewritten f st [] = []"
| "rewritten f st (p # ps) =
     (let ((keep, v), st1) = f st (pair_key p) (pair_value p) in MkPair (pair_key p) v # rewritten f st1 ps)"

definition verdict ::
  "('st \<Rightarrow> 'k \<Rightarrow> 'v \<Rightarrow> (bool \<times> 'v) \<times> 'st) \<Rightarrow> 'st \<Rightarrow> ('k, 'v) pair \<Rightarrow> bool \<times> 'st" where
  "verdict f st p = (let ((keep, _), st1) = f st (pair_key p) (pair_value p) in (keep, st1))"

fun rewritten_nodes ::
  "('st \<Rightarrow> 'k \<Rightarrow> 'v \<Rightarrow> (bool \<times> 'v) \<times> 'st) \<Rightarrow> 'st \<Rightarrow> ('k, 'v) pair list list \<Rightarrow> ('k, 'v) pair list list" where
  "rewritten_nodes f st [] = []"
| "rewritten_nodes f st (n # ns) =
     rewritten f st n # rewritten_nodes f (snd (retain_list (verdict f) st n)) ns"

lemma map_scan_node_eq:
  "map_retain_scan_node f st i j ps =
     ((map (Pair i) (drop_idx (verdict f) st j ps), rewritten f st ps), snd (retain_list (verdict f) st ps))"
  by (induction ps arbitrary: st j) (auto simp: Let_def verdict_def split: prod.splits)

lemma map_scan_eq:
  "map_retain_scan f st i ns =
     ((fst (retain_scan (verdict f) st i ns), rewritten_nodes f st ns), snd (retain_scan (verdict f) st i ns))"
  by (induction ns arbitrary: st i) (auto simp: Let_def map_scan_node_eq scan_node_eq split: prod.splits)

lemma rewritten_keys: "map pair_key (rewritten f st ps) = map pair_key ps"
  by (induction ps arbitrary: st) (auto simp: Let_def split: prod.splits)

lemma rewritten_nodes_keys: "map (map pair_key) (rewritten_nodes f st ns) = map (map pair_key) ns"
  by (induction ns arbitrary: st) (auto simp: rewritten_keys)

lemma rewritten_append:
  "rewritten f st (xs @ ys) = rewritten f st xs @ rewritten f (snd (retain_list (verdict f) st xs)) ys"
  by (induction xs arbitrary: st) (auto simp: Let_def verdict_def split: prod.splits)

lemma concat_rewritten_nodes: "concat (rewritten_nodes f st ns) = rewritten f st (concat ns)"
  by (induction ns arbitrary: st) (auto simp: rewritten_append)

lemma map_retain_list_state: "snd (map_retain_list f st ps) = snd (retain_list (verdict f) st ps)"
proof (induction ps arbitrary: st)
  case (Cons p ps)
  have "snd (verdict f st p) = snd (f st (pair_key p) (pair_value p))"
    by (simp add: verdict_def Let_def split_def)
  with Cons show ?case
    by (simp add: Let_def split_def)
qed simp

lemma fold_remove_rewritten:
  "fold remove_at (rev (drop_idx (verdict f) st (length ys) ps)) (ys @ rewritten f st ps) =
     ys @ fst (map_retain_list f st ps)"
proof (induction ps arbitrary: st ys)
  case (Cons p ps)
  obtain keep v st1 where f: "f st (pair_key p) (pair_value p) = ((keep, v), st1)"
    by (metis surj_pair)
  have "fold remove_at (rev (drop_idx (verdict f) st1 (Suc (length ys)) ps))
      (ys @ MkPair (pair_key p) v # rewritten f st1 ps) =
      ys @ MkPair (pair_key p) v # fst (map_retain_list f st1 ps)"
    using Cons [of st1 "ys @ [MkPair (pair_key p) v]"] by simp
  moreover have "remove_at (length ys) (ys @ x # zs) = ys @ zs" for x zs
    by (simp add: remove_at_def)
  moreover have "verdict f st p = (keep, st1)"
    by (simp add: f verdict_def)
  ultimately show ?case
    by (simp add: f Let_def split_def)
qed simp

lemma lengths_glob:
  assumes "map length ns = map length ns'"
  shows "glob ns = glob ns'" and "valid_pos ns = valid_pos ns'"
proof -
  have "offset ns i = offset ns' i" for i
    using assms by (metis offset_def take_map)
  then show "glob ns = glob ns'"
    by (auto simp: glob_def)
  have len: "length ns = length ns'"
    using assms by (rule map_eq_imp_length_eq)
  have "length (ns ! i) = length (ns' ! i)" if "i < length ns" for i
    using arg_cong [OF assms, of "\<lambda>xs. xs ! i"] that len by simp
  then show "valid_pos ns = valid_pos ns'"
    using len by (auto simp: valid_pos_def fun_eq_iff)
qed

context btree_map_deps
begin

lemma retain_map:
  assumes inv: "bmap_inv slots m"
  shows "\<exists>m'. bmap_retain D f st m = Inr (m', snd (map_retain_list f st (entries m))) \<and>
    bmap_step slots m (fst (map_retain_list f st (entries m))) m'"
proof -
  let ?s = "map_set m" and ?ns = "inner (map_set m)" and ?F = "verdict f"
  let ?s1 = "?s\<lparr> inner := rewritten_nodes f st ?ns \<rparr>" and ?ps = "fst (retain_scan ?F st 0 ?ns)"
  note same = same_keys_inv [OF bmap_invD(1) [OF inv] rewritten_nodes_keys, of f st]
  have lens: "map length (rewritten_nodes f st ?ns) = map length ?ns"
    using arg_cong [OF rewritten_nodes_keys [of f st ?ns], of "map length"] by (simp add: comp_def)
  have sc: "map (glob (inner ?s1)) ?ps = drop_idx ?F st 0 (entries m)" "\<forall>p\<in>set ?ps. valid_pos (inner ?s1) p"
    using scan_positions [where pre = "[]" and f = ?F and st = st and ns = ?ns]
      scan_valid [where pre = "[]" and f = ?F and st = st and ns = ?ns] lengths_glob [OF lens]
    by (simp_all add: entries_def elems_def)
  obtain s' where s': "bset_delete_positions D ?s1 (rev ?ps) = Inr s'"
    "bset_step slots pair_key ?s1 (fold remove_at (rev (drop_idx ?F st 0 (entries m))) (elems ?s1)) s'"
    using delete_positions_step [OF same(1) _ sc(2)] sorted_drop_idx [of ?F st 0 "entries m"]
    by (auto simp only: sc(1))
  have "elems ?s1 = rewritten f st (entries m)"
    by (simp add: elems_def entries_def concat_rewritten_nodes)
  then have "fold remove_at (rev (drop_idx ?F st 0 (entries m))) (elems ?s1) = fst (map_retain_list f st (entries m))"
    using fold_remove_rewritten [of f st "[]" "entries m"] by simp
  then have "bset_step slots pair_key ?s (fst (map_retain_list f st (entries m))) s'"
    using s'(2) same(2) by (simp add: bset_step_def)
  moreover have "bmap_retain D f st m = Inr (m\<lparr> map_set := s' \<rparr>, snd (map_retain_list f st (entries m)))"
    using s'(1) by (simp add: bmap_retain_def map_scan_eq scan_state map_retain_list_state entries_def elems_def)
  ultimately show ?thesis
    by (auto simp: bmap_step_def)
qed

end

end
