(* ===== verification/Btree_Map_Iter_Facts.thy ===== *)
theory Btree_Map_Iter_Facts
  imports Btree_Map_Iter Btree_Map_Ops Btree_Set_Iter_Facts
begin

text \<open>
  The map iterators satisfy the iterator contracts: the shared ones and \<open>RangeMap\<close> as projections
  of the set iterators, the owning ones as projections of \<open>IntoIter\<close>, and \<open>IterMut\<close> forward and
  backward over the nodes it has left.
\<close>

section \<open>Shared iterators\<close>

interpretation map_iter: double_ended iter_map_next "\<lambda>it. map pair_tuple (iter_rest it)" iter_ok
  iter_map_next_back
  unfolding iter_map_next_def iter_map_next_back_def by (rule set_iter.map_item_double_ended)

interpretation keys_iter: double_ended keys_next "\<lambda>it. map pair_key (iter_rest it)" iter_ok keys_next_back
  unfolding keys_next_def keys_next_back_def by (rule set_iter.map_item_double_ended)

interpretation values_iter: double_ended values_next "\<lambda>it. map pair_value (iter_rest it)" iter_ok
  values_next_back
  unfolding values_next_def values_next_back_def by (rule set_iter.map_item_double_ended)

interpretation range_map: double_ended range_map_next "\<lambda>r. map pair_tuple (iter_rest (spine_iter r))"
  "\<lambda>r. iter_ok (spine_iter r)" range_map_next_back
  unfolding range_map_next_def range_map_next_back_def by (rule set_range.map_item_double_ended)

context btree_map_deps
begin

lemma into_iter_map_double_ended:
  "double_ended (into_iter_map_next D) (\<lambda>it. map pair_tuple (elems (into_btree it)))
     (\<lambda>it. bset_inv slots pair_key (into_btree it)) (into_iter_map_next_back D)"
  "double_ended (into_keys_next D) (\<lambda>it. map fst (map pair_tuple (elems (into_btree it))))
     (\<lambda>it. bset_inv slots pair_key (into_btree it)) (into_keys_next_back D)"
  "double_ended (into_values_next D) (\<lambda>it. map snd (map pair_tuple (elems (into_btree it))))
     (\<lambda>it. bset_inv slots pair_key (into_btree it)) (into_values_next_back D)"
proof -
  have "btree_order D slots"
    by (simp add: btree_order_def btree_deps_axioms)
  then have "double_ended (into_iter_next D) (\<lambda>it. elems (into_btree it))
      (\<lambda>it. bset_inv slots pair_key (into_btree it)) (into_iter_next_back D)"
    by (rule btree_order.into_double_ended)
  then show entries: "double_ended (into_iter_map_next D) (\<lambda>it. map pair_tuple (elems (into_btree it)))
     (\<lambda>it. bset_inv slots pair_key (into_btree it)) (into_iter_map_next_back D)"
    unfolding into_iter_map_next_def into_iter_map_next_back_def
    by (rule double_ended.map_item_double_ended)
  show "double_ended (into_keys_next D) (\<lambda>it. map fst (map pair_tuple (elems (into_btree it))))
     (\<lambda>it. bset_inv slots pair_key (into_btree it)) (into_keys_next_back D)"
    unfolding into_keys_next_def into_keys_next_back_def
    by (rule double_ended.map_item_double_ended [OF entries])
  show "double_ended (into_values_next D) (\<lambda>it. map snd (map pair_tuple (elems (into_btree it))))
     (\<lambda>it. bset_inv slots pair_key (into_btree it)) (into_values_next_back D)"
    unfolding into_values_next_def into_values_next_back_def
    by (rule double_ended.map_item_double_ended [OF entries])
qed

end

section \<open>IterMut\<close>

text \<open>A call that does not return overflows the stack.\<close>

definition returning :: "('s \<Rightarrow> ('x option \<times> 's) res option) \<Rightarrow> ('s, 'x) step_fn" where
  "returning nxt s = (case nxt s of Some r \<Rightarrow> r | None \<Rightarrow> Inl StackOverflow)"

text \<open>
  The entries \<open>next\<close> still visits when the front slice is exhausted: the node counter is compared
  with the number of nodes left, so it may stop half way.
\<close>

fun mut_later :: "nat \<Rightarrow> 'a list list \<Rightarrow> 'a list \<Rightarrow> 'a list" where
  "mut_later i [] b = (if i = 0 then [] else b)"
| "mut_later i (n # ns) b = (if i = Suc (length ns) then [] else n @ mut_later (Suc i) ns b)"

definition mut_rest :: "('k, 'v) iter_mut \<Rightarrow> ('k, 'v) pair list" where
  "mut_rest it = mut_front it @ mut_later (mut_front_node_idx it) (mut_inner it) (mut_back it)"

definition mut_total :: "('k, 'v) iter_mut \<Rightarrow> nat" where
  "mut_total it = length (mut_front it) + length (concat (mut_inner it)) + length (mut_back it)"

definition mut_ok :: "('k, 'v) iter_mut \<Rightarrow> bool" where
  "mut_ok it \<longleftrightarrow> mut_front_idx it + mut_total it = wrapping_add (mut_back_idx it) 1 \<and>
     (mut_back_node_idx it = mut_front_node_idx it + 1 + length (mut_inner it) \<or>
      mut_back_node_idx it = 0 \<and> mut_front_node_idx it = 0 \<and> mut_inner it = [] \<and> mut_back it = [])"

lemma mut_later_sub: "length (mut_later i ns b) \<le> length (concat ns) + length b"
  by (induction i ns b rule: mut_later.induct) auto

lemma iter_mut_next_step:
  assumes "mut_ok it"
  shows "\<exists>it'. iter_mut_next it = Some (Inr (vec_first (mut_rest it), it')) \<and> mut_ok it' \<and>
    mut_rest it' = tl (mut_rest it)"
  using assms
proof (induction "length (mut_inner it)" arbitrary: it)
  case 0
  then show ?case
    by (cases "mut_front it"; cases "mut_back it"; subst iter_mut_next.simps)
      (auto simp: mut_ok_def mut_rest_def mut_total_def)
next
  case (Suc n)
  then obtain node nodes where inner: "mut_inner it = node # nodes" "length nodes = n"
    by (cases "mut_inner it") auto
  consider "mut_total it = 0" | "mut_total it \<noteq> 0" "mut_front it \<noteq> []"
    | "mut_total it \<noteq> 0" "mut_front it = []" "mut_front_node_idx it = length (mut_inner it)"
    | "mut_total it \<noteq> 0" "mut_front it = []" "mut_front_node_idx it \<noteq> length (mut_inner it)"
    by blast
  then show ?case
  proof cases
    case 1
    have "length (mut_rest it) \<le> mut_total it"
      using mut_later_sub [of "mut_front_node_idx it" "mut_inner it" "mut_back it"]
      by (simp add: mut_rest_def mut_total_def)
    then have "mut_rest it = []"
      using 1 by simp
    moreover have "iter_mut_next it = Some (Inr (None, it))"
      using 1 Suc.prems by (subst iter_mut_next.simps) (simp add: mut_ok_def)
    ultimately show ?thesis
      using Suc.prems by simp
  next
    case 2
    then obtain p ps where front: "mut_front it = p # ps"
      by (cases "mut_front it") auto
    let ?it' = "it\<lparr> mut_front := ps, mut_front_idx := mut_front_idx it + 1 \<rparr>"
    have "iter_mut_next it = Some (Inr (Some p, ?it'))"
      using 2 Suc.prems front by (subst iter_mut_next.simps) (simp add: mut_ok_def)
    moreover have "mut_ok ?it'" "mut_rest it = p # mut_rest ?it'"
      using Suc.prems front by (auto simp: mut_ok_def mut_rest_def mut_total_def)
    ultimately show ?thesis by simp
  next
    case 3
    then have "iter_mut_next it = Some (Inr (None, it))" "mut_rest it = []"
      using Suc.prems inner by (auto simp: iter_mut_next.simps [of it] mut_ok_def mut_rest_def)
    then show ?thesis
      using Suc.prems by simp
  next
    case False: 4
    let ?it1 = "it\<lparr> mut_front_node_idx := mut_front_node_idx it + 1, mut_front := node, mut_inner := nodes \<rparr>"
    have "iter_mut_next it = iter_mut_next ?it1"
      using False Suc.prems inner by (subst iter_mut_next.simps) (auto simp: mut_ok_def)
    moreover have "mut_ok ?it1" "mut_rest ?it1 = mut_rest it"
      using False Suc.prems inner by (auto simp: mut_ok_def mut_rest_def mut_total_def)
    ultimately show ?thesis
      using Suc.hyps(1) [of ?it1] inner by simp
  qed
qed

interpretation mut_iter: iterator "returning iter_mut_next" mut_rest mut_ok
proof
  fix it :: "('k, 'v) iter_mut"
  assume "mut_ok it"
  then show "\<exists>s'. returning iter_mut_next it = Inr (vec_first (mut_rest it), s') \<and> mut_ok s' \<and>
      mut_rest s' = tl (mut_rest it)"
    using iter_mut_next_step [of it] by (auto simp: returning_def)
qed

text \<open>Backwards it visits every entry.\<close>

definition mut_back_ok :: "('k, 'v) iter_mut \<Rightarrow> bool" where
  "mut_back_ok it \<longleftrightarrow> [] \<notin> set (mut_inner it) \<and>
     (mut_total it = 0 \<or>
      mut_front_idx it + mut_total it = mut_back_idx it + 1 \<and> mut_back_idx it + 1 < usize_bound) \<and>
     (mut_front_idx it = 0 \<longrightarrow> mut_back it \<noteq> [] \<or> mut_inner it \<noteq> [] \<longrightarrow> mut_front it \<noteq> []) \<and>
     (mut_back_node_idx it = mut_front_node_idx it + 1 + length (mut_inner it) \<or>
      mut_back_node_idx it = 0 \<and> mut_front_node_idx it = 0 \<and> mut_inner it = [] \<and> mut_back it = [])"

definition mut_back_rest :: "('k, 'v) iter_mut \<Rightarrow> ('k, 'v) pair list" where
  "mut_back_rest it = rev (mut_front it @ concat (mut_inner it) @ mut_back it)"

lemma mut_guard:
  assumes "mut_back_ok it" and "mut_total it \<noteq> 0"
  shows "mut_front_idx it \<noteq> wrapping_add (mut_back_idx it) 1"
  using assms by (auto simp: mut_back_ok_def wrapping_add_def)

lemma iter_mut_next_back_step:
  assumes "mut_back_ok it"
  shows "\<exists>it'. iter_mut_next_back it = Some (Inr (vec_first (mut_back_rest it), it')) \<and> mut_back_ok it' \<and>
    mut_back_rest it' = tl (mut_back_rest it)"
  using assms
proof (induction "length (mut_inner it)" arbitrary: it)
  case 0
  then have I: "mut_inner it = []" by simp
  consider "mut_total it = 0" | "mut_total it \<noteq> 0" "mut_back it \<noteq> []"
    | "mut_total it \<noteq> 0" "mut_back it = []" "mut_front it \<noteq> []"
    using I by (auto simp: mut_total_def)
  then show ?case
  proof cases
    case 1
    then show ?thesis
      using 0 I by (subst iter_mut_next_back.simps) (auto simp: mut_back_ok_def mut_back_rest_def mut_total_def)
  next
    case 2
    let ?it' = "it\<lparr> mut_back := butlast (mut_back it), mut_back_idx := mut_back_idx it - 1 \<rparr>"
    have "1 \<le> mut_back_idx it"
      using 0 2 by (cases "mut_front it"; cases "mut_back it") (auto simp: mut_back_ok_def mut_total_def)
    then have "iter_mut_next_back it = Some (Inr (Some (last (mut_back it)), ?it'))"
      using mut_guard [OF 0(2) 2(1)] 2 by (subst iter_mut_next_back.simps) simp
    moreover have "mut_back_ok ?it'"
      using 0(2) 2 I \<open>1 \<le> mut_back_idx it\<close>
      by (cases "mut_back it" rule: rev_cases) (auto simp: mut_back_ok_def mut_total_def)
    moreover have "mut_back_rest it = last (mut_back it) # mut_back_rest ?it'"
      using 2(2) by (cases "mut_back it" rule: rev_cases) (auto simp: mut_back_rest_def)
    ultimately show ?thesis by simp
  next
    case 3
    let ?it' = "it\<lparr> mut_front := butlast (mut_front it), mut_back_idx := mut_back_idx it - 1 \<rparr>"
    have "iter_mut_next_back it = Some (Inr (Some (last (mut_front it)), ?it'))"
      using mut_guard [OF 0(2) 3(1)] 3 0(2) I by (subst iter_mut_next_back.simps) (auto simp: mut_back_ok_def)
    moreover have "mut_back_ok ?it'"
      using 0(2) 3 I
      by (cases "mut_front it" rule: rev_cases) (auto simp: mut_back_ok_def mut_total_def neq_Nil_conv)
    moreover have "mut_back_rest it = last (mut_front it) # mut_back_rest ?it'"
      using 3 I by (cases "mut_front it" rule: rev_cases) (auto simp: mut_back_rest_def)
    ultimately show ?thesis by simp
  qed
next
  case (Suc n)
  then obtain nodes node where I: "mut_inner it = nodes @ [node]" "length nodes = n"
    by (cases "mut_inner it" rule: rev_cases) auto
  then have total: "mut_total it \<noteq> 0"
    using Suc.prems by (auto simp: mut_back_ok_def mut_total_def)
  show ?case
  proof (cases "mut_back it = []")
    case False
    let ?it' = "it\<lparr> mut_back := butlast (mut_back it), mut_back_idx := mut_back_idx it - 1 \<rparr>"
    have idx: "1 \<le> mut_back_idx it"
      using Suc.prems False total
      by (cases "mut_front it"; cases "mut_back it") (auto simp: mut_back_ok_def mut_total_def)
    then have "iter_mut_next_back it = Some (Inr (Some (last (mut_back it)), ?it'))"
      using mut_guard [OF Suc.prems total] False by (subst iter_mut_next_back.simps) simp
    moreover have "mut_back_ok ?it'"
      using Suc.prems False idx total
      by (cases "mut_back it" rule: rev_cases) (auto simp: mut_back_ok_def mut_total_def)
    moreover have "mut_back_rest it = last (mut_back it) # mut_back_rest ?it'"
      using False by (cases "mut_back it" rule: rev_cases) (auto simp: mut_back_rest_def)
    ultimately show ?thesis by simp
  next
    case True
    let ?it1 = "it\<lparr> mut_back_node_idx := mut_back_node_idx it - 1, mut_back := node, mut_inner := nodes \<rparr>"
    have "iter_mut_next_back it = iter_mut_next_back ?it1"
      using True Suc.prems I mut_guard [OF Suc.prems total]
      by (subst iter_mut_next_back.simps) (auto simp: mut_back_ok_def)
    moreover have "mut_back_ok ?it1" "mut_back_rest ?it1 = mut_back_rest it"
      using True Suc.prems I by (auto simp: mut_back_ok_def mut_total_def mut_back_rest_def)
    ultimately show ?thesis
      using Suc.hyps(1) [of ?it1] I by simp
  qed
qed

interpretation mut_iter_back: iterator "returning iter_mut_next_back" mut_back_rest mut_back_ok
proof
  fix it :: "('k, 'v) iter_mut"
  assume "mut_back_ok it"
  then show "\<exists>s'. returning iter_mut_next_back it = Inr (vec_first (mut_back_rest it), s') \<and> mut_back_ok s' \<and>
      mut_back_rest s' = tl (mut_back_rest it)"
    using iter_mut_next_back_step [of it] by (auto simp: returning_def)
qed

section \<open>What \<open>iter_mut\<close> visits\<close>

lemma mut_later_past: "length ns < i \<Longrightarrow> mut_later i ns b = concat ns @ b"
  by (induction i ns b rule: mut_later.induct) auto

lemma mut_later_parity:
  "i \<le> length ns \<Longrightarrow> mut_later i ns b =
     (if even (length ns - i) then concat (take ((length ns - i) div 2) ns) else concat ns @ b)"
proof (induction i ns b rule: mut_later.induct)
  case (2 i n ns b)
  consider "i = Suc (length ns)" | "i = length ns" | "Suc i \<le> length ns"
    using "2.prems" by fastforce
  then show ?case
  proof cases
    case 3
    then obtain d where d: "length ns = Suc i + d"
      using le_Suc_ex by blast
    then show ?thesis
      using "2.IH" by auto
  qed (auto simp: mut_later_past)
qed simp

lemma wrapping_sub_one:
  assumes "0 < n" and "n < usize_bound"
  shows "wrapping_sub n 1 = n - 1"
proof -
  have "n + usize_bound - 1 = (n - 1) + usize_bound"
    using assms(1) by simp
  then show ?thesis
    unfolding wrapping_sub_def by (metis assms(2) less_imp_diff_less mod_add_self2 mod_less)
qed

lemma spine_ends:
  assumes "2 \<le> length ns"
  obtains a mid b where "ns = a # mid @ [b]"
proof -
  obtain a ms where "ns = a # ms"
    using assms by (cases ns) auto
  moreover from this obtain mid b where "ms = mid @ [b]"
    using assms by (cases ms rule: rev_cases) auto
  ultimately show thesis
    using that by blast
qed

lemma iter_mut_start:
  assumes inv: "bmap_inv slots m" and len: "bmap_len m < usize_bound" and ns: "ns = inner (map_set m)"
  shows "\<exists>it. bmap_iter_mut m = Inr it \<and> mut_ok it \<and> mut_back_ok it \<and> mut_back_rest it = rev (entries m) \<and>
    mut_rest it = (if odd (length ns) then entries m else concat (take (length ns div 2) ns))"
proof (cases "length ns = 1")
  case True
  then obtain n where n: "ns = [n]"
    by (cases ns) auto
  then have inner: "inner (map_set m) = [n]"
    using ns by simp
  then have "bmap_len m = length n" "entries m = n"
    using bmap_invD(3) [OF inv] by (simp_all add: entries_def elems_def)
  then show ?thesis
    using inner n len
    by (cases "length n") (auto simp: bmap_iter_mut_def mut_ok_def mut_back_ok_def mut_back_rest_def mut_rest_def
        mut_total_def wrapping_sub_def wrapping_add_def usize_bound_def)
next
  case False
  moreover have "length ns \<noteq> 0"
    using bset_invD(6) [OF bmap_invD(1) [OF inv]] ns by simp
  ultimately have "2 \<le> length ns"
    by linarith
  then obtain a mid b where abc: "ns = a # mid @ [b]"
    by (rule spine_ends)
  have ne: "[] \<notin> set ns"
    using bset_invD(1) [OF bmap_invD(1) [OF inv]] False ns by (simp add: wf_spine_def)
  have inner: "inner (map_set m) = a # mid @ [b]"
    using ns abc by simp
  then have ents: "entries m = a @ concat mid @ b"
    by (simp add: entries_def elems_def)
  have n: "bmap_len m = length a + length (concat mid) + length b"
    using bmap_invD(3) [OF inv] ents by simp
  have pos: "0 < bmap_len m" "bmap_len m < 2 ^ 64"
    using n ne abc len by (auto simp: usize_bound_def)
  then have wrap: "wrapping_sub (bmap_len m) 1 = bmap_len m - 1"
    using len by (intro wrapping_sub_one)
  let ?it = "\<lparr> mut_inner = mid, mut_front_node_idx = 0, mut_front_idx = 0,
    mut_back_node_idx = Suc (length mid), mut_back_idx = bmap_len m - 1, mut_front = a, mut_back = b \<rparr>"
  have "bmap_iter_mut m = Inr ?it"
    using inner wrap by (simp add: bmap_iter_mut_def Let_def)
  moreover have "mut_ok ?it"
    using n pos by (simp add: mut_ok_def mut_total_def wrapping_add_def usize_bound_def)
  moreover have "mut_back_ok ?it"
    using n pos ne abc by (auto simp: mut_back_ok_def mut_total_def usize_bound_def)
  moreover have "mut_back_rest ?it = rev (entries m)"
    by (simp add: mut_back_rest_def ents)
  moreover have "mut_rest ?it = (if odd (length ns) then entries m else concat (take (length ns div 2) ns))"
    using abc ents by (simp add: mut_rest_def mut_later_parity)
  ultimately show ?thesis by blast
qed

end
