(* ===== verification/Btree_Map_Props.thy ===== *)
theory Btree_Map_Props
  imports Btree_Map_Iter_Facts Btree_Set_Iter_Props
begin

text \<open>
  What \<open>BTreeMap\<close> promises, over any lawful search backend and any \<open>ftree\<close> that behaves as
  documented, and where its ranges and mutable iterators depart from their documentation.
\<close>

section \<open>A concrete map for the witnesses\<close>

definition msample :: "(nat, nat, nat list) btree_map" where
  "msample = \<lparr> map_set = \<lparr> inner = [[MkPair 1 10, MkPair 3 30], [MkPair 5 50]], index = [2, 1],
     node_capacity = 2, len = 3 \<rparr> \<rparr>"

lemma msample_inv: "bmap_inv id msample"
  by (simp add: msample_def bmap_inv_def bset_inv_def elems_def wf_spine_def)

lemma msample_entries [simp]: "entries msample = [MkPair 1 10, MkPair 3 30, MkPair 5 50]"
  by (simp add: msample_def entries_def elems_def)

lemma msample_lookup: "lookup msample = [1 \<mapsto> 10, 3 \<mapsto> 30, 5 \<mapsto> 50]"
  by (auto simp: lookup_def pair_tuple_def)

section \<open>The map contract\<close>

text \<open>
  C26: any sequence of \<open>get\<close>, \<open>insert\<close> and \<open>remove\<close> calls on a \<open>BTreeMap\<close>, starting from any
  well-formed map, runs without a panic and returns at every call what a finite function
  would return; the final map is well-formed and stands for the final function.
\<close>

theorem bmap_refines_map:
  assumes "btree_deps D slots" and "bmap_inv slots m"
  shows "\<exists>m'. run_calls (bmap_get id) (bmap_insert D) (bmap_remove D id) cs m =
      Inr (fst (spec_calls cs (lookup m)), m') \<and> bmap_inv slots m' \<and>
    lookup m' = snd (spec_calls cs (lookup m))"
  using btree_map_deps.provider_refines [of D slots m cs] assms by (simp add: btree_map_deps_def)

theorem bmap_refines_map_witness:
  "\<exists>m'. run_calls (bmap_get id) (bmap_insert ref_deps) (bmap_remove ref_deps id)
      [Insert 4 40, Get 4, Remove 1, Get 1, Insert 3 33] msample =
      Inr ([None, Some 40, Some 10, None, Some 30], m') \<and> bmap_inv id m'"
  using bmap_refines_map [OF ref.btree_deps_axioms msample_inv,
      of "[Insert 4 40, Get 4, Remove 1, Get 1, Insert 3 33]"]
  by (auto simp: msample_lookup)

text \<open>
  \<open>get_mut\<close> through a borrowed key shows the value of that key and writes exactly there;
  \<open>contains_key\<close> and \<open>get\<close> agree with it.
\<close>

theorem bmap_get_mut_correct:
  fixes D :: "(('k::linorder, 'v) pair, 'f) deps" and m :: "('k, 'v, 'f) btree_map"
  assumes "btree_deps D slots" and "bmap_inv slots m" and "borrow_ok id c"
  shows "\<exists>m'. bmap_get_mut c m (c k) g = Inr (lookup m k, m') \<and> bmap_inv slots m' \<and>
    lookup m' = (lookup m)(k := map_option g (lookup m k)) \<and>
    bmap_get c m (c k) = Inr (lookup m k) \<and>
    bmap_contains_key c m (c k) = Inr (lookup m k \<noteq> None)"
proof -
  have deps: "btree_map_deps D slots"
    using assms(1) by (simp add: btree_map_deps_def)
  note srt = bmap_invD(2) [OF assms(2)]
  obtain m' where m': "bmap_get_mut c m (c k) g = Inr (map_option pair_value (lookup_by c m (c k)), m')"
    "bmap_step slots m (upd_key (c \<circ> pair_key) (c k) (set_value g) (entries m)) m'"
    using btree_map_deps.get_mut_step [OF deps assms(2,3)] by blast
  note st = bmap_stepD [OF m'(2)]
  have same: "entries m' = upd_key pair_key k (set_value g) (entries m)"
    using st(1) borrow_key_inj [OF assms(3)] by (simp add: upd_key_def)
  have "lookup m' = (lookup m)(k := map_option g (lookup m k))"
  proof (cases "lookup m k")
    case None
    then have "\<not> has_key pair_key k (entries m)"
      using lookup_dom [OF srt] by (auto simp: has_key_def domIff)
    then have "lookup m' = lookup m"
      by (simp add: lookup_def same upd_key_absent)
    then show ?thesis
      using None by auto
  next
    case (Some v)
    then have "MkPair k v \<in> set (entries m)"
      using lookup_Some [OF srt] by simp
    then have "set (entries m') = insert (MkPair k (g v)) {p \<in> set (entries m). pair_key p \<noteq> k}"
      using set_upd_key [OF srt, of "MkPair k v" k "set_value g"] same by (simp add: set_value_def)
    then show ?thesis
      using Some lookup_put [OF srt bmap_invD(2) [OF st(2)]] by simp
  qed
  moreover have "c k \<in> c ` dom (lookup m) \<longleftrightarrow> lookup m k \<noteq> None"
    using borrow_key_inj [OF assms(3)] by (auto simp: domIff)
  ultimately show ?thesis
    using m'(1) st(2) lookup_by_key [OF assms(3) srt, of k] get_eq_lookup [OF assms(2,3), of k]
      contains_key_eq [OF assms(2,3), of "c k"] by simp
qed

theorem bmap_get_mut_correct_witness:
  "\<exists>m'. bmap_get_mut id msample 3 (\<lambda>v. v + 1) = Inr (Some 30, m') \<and> lookup m' 3 = Some 31 \<and>
    bmap_inv id m'"
  using bmap_get_mut_correct [OF ref.btree_deps_axioms msample_inv borrow_ok_refl, of 3 "\<lambda>v. v + 1"]
  by (auto simp: msample_lookup)

section \<open>Entries\<close>

text \<open>
  C32: \<open>entry(k).or_insert(d)\<close> lends out the value of \<open>k\<close>, inserting \<open>d\<close> first when there is none:
  the reference shows that value and what the caller writes through it is what the map then
  holds at \<open>k\<close>. \<open>or_insert_with\<close>, \<open>or_insert_with_key\<close> and \<open>or_default\<close> do the same for
  their way of computing \<open>d\<close>.
\<close>

theorem entry_or_insert_correct:
  assumes "btree_deps D slots" and "bmap_inv slots m"
    and "v = (case lookup m k of Some x \<Rightarrow> x | None \<Rightarrow> dflt)"
  shows "\<exists>e m'. bmap_entry D m k = Inr e \<and> entry_or_insert D e dflt g = Inr (v, m') \<and>
    bmap_inv slots m' \<and> lookup m' = (lookup m)(k \<mapsto> g v) \<and>
    entry_or_insert_with D e (\<lambda>_. dflt) g = Inr (v, m') \<and> entry_or_default D e dflt g = Inr (v, m') \<and>
    (\<forall>f. f k = dflt \<longrightarrow> entry_or_insert_with_key D e f g = Inr (v, m'))"
proof -
  have deps: "btree_map_deps D slots"
    using assms(1) by (simp add: btree_map_deps_def)
  obtain e m' where e: "bmap_entry D m k = Inr e" "entry_or_insert D e dflt g = Inr (v, m')"
    "bmap_inv slots m'" "lookup m' = (lookup m)(k \<mapsto> g v)"
    using btree_map_deps.entry_or_insert_step [OF deps assms(2,3)] by blast
  have "vacant_key ve = k" if "e = Vacant ve" for ve
    using that e(1) btree_map_deps.entry_cases [OF deps assms(2), of k] by (auto split: option.splits)
  then have "entry_or_insert_with_key D e f g = Inr (v, m')" if "f k = dflt" for f
    using that e(2)
    by (auto simp: entry_or_insert_with_key_def entry_or_insert_def vacant_entry_key_def split: entry.splits)
  then show ?thesis
    using e by (auto simp: entry_or_insert_def entry_or_insert_with_def entry_or_default_def split: entry.splits)
qed

theorem entry_or_insert_correct_witness:
  "\<exists>e m'. bmap_entry ref_deps msample 4 = Inr e \<and> entry_or_insert ref_deps e 0 (\<lambda>v. v + 1) = Inr (0, m') \<and>
    lookup m' 4 = Some 1"
  using entry_or_insert_correct [OF ref.btree_deps_axioms msample_inv refl, of 4 0 "\<lambda>v. v + 1"]
  by (fastforce simp: msample_lookup)

text \<open>
  \<open>entry(k)\<close> is occupied exactly when the map holds \<open>k\<close>; then it shows \<open>k\<close> and its value,
  \<open>insert\<close> returns the old value and stores the new one, \<open>remove_entry\<close> and \<open>remove\<close> take exactly
  that entry out, and \<open>and_modify\<close> rewrites the value and gives back the entry of the rewritten map.
\<close>

theorem entry_occupied_correct:
  assumes "btree_deps D slots" and "bmap_inv slots m" and "lookup m k = Some v"
  shows "\<exists>e. bmap_entry D m k = Inr (Occupied e) \<and> occupied_key D e = Inr k \<and> occupied_get D e = Inr v \<and>
    (\<exists>e'. occupied_insert D e w = Inr (v, e') \<and> lookup (occupied_map e') = (lookup m)(k \<mapsto> w)) \<and>
    (\<exists>m'. occupied_remove_entry D e = Inr ((k, v), m') \<and> occupied_remove D e = Inr (v, m') \<and>
      bmap_inv slots m' \<and> lookup m' = (lookup m)(k := None)) \<and>
    (\<exists>e' m'. entry_and_modify D (Occupied e) f = Inr e' \<and> bmap_entry D m' k = Inr e' \<and>
      bmap_inv slots m' \<and> lookup m' = (lookup m)(k \<mapsto> f v))"
proof -
  have deps: "btree_map_deps D slots"
    using assms(1) by (simp add: btree_map_deps_def)
  let ?e = "\<lparr> occupied_map = m, occupied_idx = partition_point (key_lt id k) (entries m) \<rparr>"
  have entry: "bmap_entry D m k = Inr (Occupied ?e)"
    using btree_map_deps.entry_cases [OF deps assms(2), of k] assms(3) by simp
  note rem = btree_map_deps.occupied_remove_step [OF deps assms(2,3) refl]
  have ins: "\<exists>e'. occupied_insert D ?e w = Inr (v, e') \<and> lookup (occupied_map e') = (lookup m)(k \<mapsto> w)"
    using btree_map_deps.into_mut_step [OF deps assms(2,3), of "\<lambda>_. w"]
    by (auto simp: occupied_insert_def occupied_get_mut_def)
  have "\<exists>e' m'. entry_and_modify D (Occupied ?e) f = Inr e' \<and> bmap_entry D m' k = Inr e' \<and>
      bmap_inv slots m' \<and> lookup m' = (lookup m)(k \<mapsto> f v)"
    using btree_map_deps.and_modify_step [OF deps assms(2), of k f] entry assms(3) by auto
  then show ?thesis
    using entry rem ins by blast
qed

theorem entry_occupied_correct_witness:
  "\<exists>e m'. bmap_entry ref_deps msample 3 = Inr (Occupied e) \<and> occupied_remove ref_deps e = Inr (30, m') \<and>
    lookup m' 3 = None"
proof -
  have "lookup msample 3 = Some 30"
    by (simp add: msample_lookup)
  from entry_occupied_correct [OF ref.btree_deps_axioms msample_inv this] show ?thesis
    by fastforce
qed

section \<open>Bulk operations\<close>

text \<open>
  \<open>retain\<close> calls the closure once per entry in key order, keeps what it wrote into the kept
  values, and drops exactly the entries it rejected.
\<close>

theorem bmap_retain_correct:
  assumes "btree_deps D slots" and "bmap_inv slots m"
  shows "\<exists>m'. bmap_retain D f st m = Inr (m', snd (map_retain_list f st (entries m))) \<and>
    entries m' = fst (map_retain_list f st (entries m)) \<and> bmap_inv slots m' \<and>
    (bset_bounded (map_set m) \<longrightarrow> bset_bounded (map_set m'))"
proof -
  have deps: "btree_map_deps D slots"
    using assms(1) by (simp add: btree_map_deps_def)
  obtain m' where m': "bmap_retain D f st m = Inr (m', snd (map_retain_list f st (entries m)))"
    "bmap_step slots m (fst (map_retain_list f st (entries m))) m'"
    using btree_map_deps.retain_map [OF deps assms(2), of f st] by (elim exE conjE)
  show ?thesis
    by (intro exI [of _ m'] conjI m'(1) impI bmap_stepD [OF m'(2)])
qed

theorem bmap_retain_correct_witness:
  "\<exists>m'. bmap_retain ref_deps (\<lambda>n k v. ((k \<noteq> 3, v + n), Suc n)) 0 msample = Inr (m', 3) \<and>
    entries m' = [MkPair 1 10, MkPair 5 52]"
proof -
  let ?f = "\<lambda>n k v. ((k \<noteq> 3, v + n), Suc n)"
  have "map_retain_list ?f 0 (entries msample) = ([MkPair 1 10, MkPair 5 52], 3)"
    by simp
  then show ?thesis
    using bmap_retain_correct [OF ref.btree_deps_axioms msample_inv, of ?f 0]
    unfolding \<open>map_retain_list ?f 0 (entries msample) = _\<close> fst_conv snd_conv by blast
qed

text \<open>
  \<open>split_off(q)\<close> splits the function at the key \<open>q\<close>, and \<open>append\<close> adds the other map over this
  one and empties it, so appending the split-off half restores the map.
\<close>

theorem bmap_split_append:
  assumes "btree_deps D slots" and "bmap_inv slots m" and "borrow_ok id c"
  shows "\<exists>t m' m'' t'. bmap_split_off D c m q = Inr (t, m') \<and> bmap_inv slots m' \<and> bmap_inv slots t \<and>
    lookup m' = lookup m |` {k. c k < q} \<and> lookup t = lookup m |` {k. q \<le> c k} \<and>
    bmap_append D m' t = Inr (m'', t') \<and> bmap_inv slots m'' \<and> lookup m'' = lookup m \<and>
    bmap_is_empty t'"
proof -
  have deps: "btree_map_deps D slots"
    using assms(1) by (simp add: btree_map_deps_def)
  note srt = bmap_invD(2) [OF assms(2)] and down = key_downward(1) [OF assms(2,3), of q]
  obtain t m' where tm: "bmap_split_off D c m q = Inr (t, m')" "bmap_inv slots t" "bmap_inv slots m'"
    "entries m' = filter (key_lt c q) (entries m)" "entries t = filter (\<lambda>p. \<not> key_lt c q p) (entries m)"
    using btree_map_deps.split_off_map [OF deps assms(2,3), of q] downward_takeWhile [OF down]
      downward_dropWhile [OF down] by auto
  have look: "lookup m' = lookup m |` {k. c k < q}" "lookup t = lookup m |` {k. q \<le> c k}"
    using tm(4,5) by (intro lookup_filter srt bmap_invD(2) [OF tm(3)] bmap_invD(2) [OF tm(2)];
        auto simp: key_lt_def)+
  obtain m'' t' where app: "bmap_append D m' t = Inr (m'', t')" "bmap_inv slots m''" "bmap_inv slots t'"
    "entries m'' = fold (put_key pair_key) (entries t) (entries m')" "entries t' = []"
    using btree_map_deps.append_map [OF deps tm(3,2)] by blast
  note fp = fold_put_key [OF sorted_keys_distinct [OF bmap_invD(2) [OF tm(2)]] bmap_invD(2) [OF tm(3)]]
  have "c (pair_key x) \<noteq> c (pair_key y)" if "x \<in> set (entries m')" "y \<in> set (entries t)" for x y
    using that tm(4,5) by (auto simp: key_lt_def)
  then have disj: "pair_key x \<notin> pair_key ` set (entries t)" if "x \<in> set (entries m')" for x
    using that by fastforce
  have "set (entries m'') = set (entries m') \<union> set (entries t)"
    using fp(2) app(4) disj by auto
  also have "\<dots> = set (entries m)"
    using tm(4,5) by auto
  finally have "lookup m'' = lookup m"
    by (intro lookup_eqI) (simp_all add: bmap_invD(2) [OF app(2)] lookup_Some [OF srt])
  moreover have "bmap_is_empty t'"
    using bmap_invD(3) [OF app(3)] app(5) by (simp add: bmap_is_empty_def bset_is_empty_def bmap_len_def)
  ultimately show ?thesis
    using tm look app by blast
qed

theorem bmap_split_append_witness:
  "\<exists>t m'. bmap_split_off ref_deps id msample 3 = Inr (t, m') \<and> lookup m' = lookup msample |` {k. k < 3}"
  using bmap_split_append [OF ref.btree_deps_axioms msample_inv borrow_ok_refl, of 3] by auto

end
