(* ===== verification/Btree_Map_Iter_Props.thy ===== *)
theory Btree_Map_Iter_Props
  imports Btree_Map_Props
begin

text \<open>
  What the iterators, ranges and lower-bound cursors of \<open>BTreeMap\<close> promise, and the inputs on
  which its ranges and mutable iterators depart from their documentation.
\<close>

section \<open>Shared and owning iterators\<close>

lemma pair_tuple_parts [simp]: "fst \<circ> pair_tuple = pair_key" "snd \<circ> pair_tuple = pair_value"
  by (auto simp: pair_tuple_def)

text \<open>
  \<open>iter\<close>, \<open>keys\<close> and \<open>values\<close>, and their owning forms \<open>into_iter\<close>, \<open>into_keys\<close> and
  \<open>into_values\<close>, called from both ends in any order, answer like a double-ended queue of the
  entries, their keys and their values in key order.
\<close>

theorem bmap_iterators_deque:
  assumes "btree_deps D slots" and "bmap_inv slots m"
  shows "rbind (bmap_iter m) (calls iter_map_next iter_map_next_back script) =
      Inr (deque_calls script (map pair_tuple (entries m))) \<and>
    rbind (bmap_keys m) (calls keys_next keys_next_back script) =
      Inr (deque_calls script (map pair_key (entries m))) \<and>
    rbind (bmap_values m) (calls values_next values_next_back script) =
      Inr (deque_calls script (map pair_value (entries m))) \<and>
    calls (into_iter_map_next D) (into_iter_map_next_back D) script (bmap_into_iter m) =
      Inr (deque_calls script (map pair_tuple (entries m))) \<and>
    calls (into_keys_next D) (into_keys_next_back D) script (bmap_into_keys m) =
      Inr (deque_calls script (map pair_key (entries m))) \<and>
    calls (into_values_next D) (into_values_next_back D) script (bmap_into_values m) =
      Inr (deque_calls script (map pair_value (entries m)))"
proof -
  have deps: "btree_map_deps D slots"
    using assms(1) by (simp add: btree_map_deps_def)
  note own = btree_map_deps.into_iter_map_double_ended [OF deps]
  have start: "into_btree (bset_into_iter (map_set m)) = map_set m"
    by (simp add: bset_into_iter_def)
  note inv = bmap_invD(1) [OF assms(2)]
  obtain it where it: "bset_iter (map_set m) = Inr it" "iter_ok it" "iter_rest it = entries m"
    using bset_iter_ok [OF inv] by (auto simp: entries_def)
  show ?thesis
    using it(1,3) map_iter.calls_deque [OF it(2), of script] keys_iter.calls_deque [OF it(2), of script]
      values_iter.calls_deque [OF it(2), of script]
      double_ended.calls_deque [OF own(1), of "bmap_into_iter m" script]
      double_ended.calls_deque [OF own(2), of "bmap_into_keys m" script]
      double_ended.calls_deque [OF own(3), of "bmap_into_values m" script] inv start
    by (simp add: bmap_iter_def bmap_keys_def bmap_values_def bmap_into_iter_def bmap_into_keys_def
        bmap_into_values_def entries_def [symmetric])
qed

theorem bmap_iterators_deque_witness:
  "rbind (bmap_keys msample) (calls keys_next keys_next_back [True, False, True, True]) =
     Inr [Some 1, Some 5, Some 3, None]"
  using bmap_iterators_deque [OF ref.btree_deps_axioms msample_inv, of "[True, False, True, True]"] by simp

section \<open>Ranges\<close>

context btree_map_deps
begin

lemma range_to_idx_eq:
  assumes inv: "bmap_inv slots m" and ok: "borrow_ok id c"
    and stop: "\<And>v. stop = Included v \<Longrightarrow> has_key (c \<circ> pair_key) v (entries m)"
    and i: "i = partition_point (below_start (c \<circ> pair_key) start) (entries m)"
    and j: "j = partition_point (within_end (c \<circ> pair_key) stop) (entries m)"
  shows "range_to_idx D c m start stop = Inr (if j = 0 then (1, 0) else (i, j - 1))"
proof -
  let ?b = "c \<circ> pair_key"
  note rank = rank_map [OF inv ok] and srt = key_downward(3) [OF inv ok]
  have preds: "key_lt c v = (\<lambda>x. ?b x < v)" "key_le c v = (\<lambda>x. ?b x \<le> v)" for v
    by (simp_all add: key_preds)
  have start: "(case start of Included v \<Rightarrow> bset_rank_cmp D (key_lt c v) (map_set m)
      | Excluded v \<Rightarrow> bset_rank_cmp D (key_le c v) (map_set m) | Unbounded \<Rightarrow> Inr 0) = Inr i"
    using rank i by (cases start) (simp_all add: preds below_start_def [abs_def] partition_point_const)
  have len: "bmap_len m = length (entries m)"
    by (rule bmap_invD(3) [OF inv])
  show ?thesis
  proof (cases stop)
    case (Included v)
    then show ?thesis
      using rank start j partition_point_present [OF srt stop [OF Included]]
      by (simp add: range_to_idx_def preds within_end_def [abs_def])
  next
    case (Excluded v)
    then show ?thesis
      using rank start j by (simp add: range_to_idx_def preds within_end_def [abs_def])
  next
    case Unbounded
    then show ?thesis
      using start j len
      by (simp add: range_to_idx_def within_end_def [abs_def] partition_point_const bmap_is_empty_def
          bset_is_empty_def bmap_len_def bset_len_def usize_sub_def Suc_le_eq)
  qed
qed

end

text \<open>
  C33: a range of keys holds exactly the entries inside its bounds, from both ends, whenever an
  included end is a key of the map and the range is not inverted; absent start keys, absent excluded
  ends and empty maps are handled.
\<close>

theorem bmap_range_keys:
  assumes "btree_deps D slots" and "bmap_inv slots m" and "borrow_ok id c"
    and "\<And>v. stop = Included v \<Longrightarrow> has_key (c \<circ> pair_key) v (entries m)"
    and "\<forall>x\<in>set (entries m). below_start (c \<circ> pair_key) start x \<longrightarrow> within_end (c \<circ> pair_key) stop x"
  shows "\<exists>r. bmap_range D c m start stop = Inr r \<and>
    calls range_map_next range_map_next_back script r = Inr (deque_calls script (map pair_tuple
      (filter (\<lambda>x. \<not> below_start (c \<circ> pair_key) start x \<and> within_end (c \<circ> pair_key) stop x) (entries m))))"
proof -
  have deps: "btree_map_deps D slots"
    using assms(1) by (simp add: btree_map_deps_def)
  let ?b = "c \<circ> pair_key" and ?xs = "entries m"
  let ?i = "partition_point (below_start ?b start) ?xs" and ?j = "partition_point (within_end ?b stop) ?xs"
  let ?p = "if ?j = 0 then (1, 0) else (?i, ?j - 1)"
  have "range_to_idx D c m start stop = Inr ?p"
    by (rule btree_map_deps.range_to_idx_eq [OF deps assms(2,3) _ refl refl]) (rule assms(4))
  then have idx: "bmap_range D c m start stop = bset_range_idx D (map_set m) (Included (fst ?p)) (Included (snd ?p))"
    by (simp add: bmap_range_def split: if_splits)
  have ij: "?i \<le> ?j" "?j \<le> length ?xs"
    using partition_point_mono [OF assms(5)] by simp_all
  then have p: "fst ?p \<le> Suc (snd ?p)" "fst ?p = Suc (snd ?p) \<or> snd ?p < length ?xs"
    by (auto simp del: partition_point_le)
  obtain r where r: "bset_range_idx D (map_set m) (Included (fst ?p)) (Included (snd ?p)) = Inr r"
    "iter_ok (spine_iter r)" "iter_rest (spine_iter r) = window (fst ?p) (Suc (snd ?p)) ?xs"
    using btree_deps.range_idx_ok [OF assms(1) bmap_invD(1) [OF assms(2)], of "fst ?p" "snd ?p"] p
    unfolding entries_def by blast
  have "window (fst ?p) (Suc (snd ?p)) ?xs = window ?i ?j ?xs"
    using ij(1) by (auto simp: window_def)
  then have "iter_rest (spine_iter r) = filter (\<lambda>x. \<not> below_start ?b start x \<and> within_end ?b stop x) ?xs"
    using r(3) window_filter [OF bounds_downward [OF key_downward(3) [OF assms(2,3)]] assms(5)] by simp
  then show ?thesis
    using idx r(1) range_map.calls_deque [OF r(2), of script] by simp
qed

theorem bmap_range_keys_witness:
  "\<exists>r. bmap_range ref_deps id msample (Included 2) (Excluded 5) = Inr r \<and>
    calls range_map_next range_map_next_back [True, False] r = Inr [Some (3, 30), None]"
  using bmap_range_keys [OF ref.btree_deps_axioms msample_inv borrow_ok_refl,
      of "Excluded 5" "Included 2" "[True, False]"]
  by (simp add: below_start_def within_end_def pair_tuple_def)

text \<open>
  Outside those conditions, \<open>range(..=4)\<close> on a map with keys 1, 3 and 5 also yields 5, the
  inverted \<open>range(5..=1)\<close> yields 5 instead of panicking, and \<open>lower_bound(Excluded(2))\<close> points at 5, skipping 3.
\<close>

theorem bmap_range_departures:
  "rbind (bmap_range ref_deps id msample Unbounded (Included 4)) (collect range_map_next 5) =
     Inr (Some [(1, 10), (3, 30), (5, 50)]) \<and>
   rbind (bmap_range ref_deps id msample (Included 5) (Included 1)) (collect range_map_next 5) =
     Inr (Some [(5, 50)]) \<and>
   rbind (bmap_lower_bound ref_deps id msample (Excluded 2)) (cursor_map_key ref_deps) = Inr (Some 5)"
  by code_simp

section \<open>Mutable iterators\<close>

text \<open>
  C34: \<open>iter_mut\<close> read forwards visits every entry in key order when the map has an odd number of
  nodes; with an even number it stops after the first half of the nodes. Read backwards it visits every
  entry. It ends and never panics.
\<close>

theorem iter_mut_visits:
  assumes "bmap_inv slots m" and "bmap_len m < usize_bound" and "ns = inner (map_set m)"
  shows "rbind (bmap_iter_mut m) (collect (returning iter_mut_next) (bmap_len m + 1)) =
      Inr (Some (if odd (length ns) then entries m else concat (take (length ns div 2) ns))) \<and>
    rbind (bmap_iter_mut m) (collect (returning iter_mut_next_back) (bmap_len m + 1)) =
      Inr (Some (rev (entries m)))"
proof -
  obtain it where it: "bmap_iter_mut m = Inr it" "mut_ok it" "mut_back_ok it"
    "mut_back_rest it = rev (entries m)"
    "mut_rest it = (if odd (length ns) then entries m else concat (take (length ns div 2) ns))"
    using iter_mut_start [OF assms] by blast
  have "length (concat (take n ns)) \<le> length (concat ns)" for n
    by (metis append_take_drop_id concat_append le_add1 length_append)
  then have "length (mut_rest it) < bmap_len m + 1"
    using it(5) bmap_invD(3) [OF assms(1)] assms(3) by (simp add: entries_def elems_def less_Suc_eq_le)
  then show ?thesis
    using it mut_iter.collect_rest [OF it(2)] mut_iter_back.collect_rest [OF it(3), of "bmap_len m + 1"]
      bmap_invD(3) [OF assms(1)] by simp
qed

theorem iter_mut_visits_witness:
  "rbind (bmap_iter_mut msample) (collect (returning iter_mut_next) 4) =
     Inr (Some [MkPair 1 10, MkPair 3 30])"
proof -
  have len: "bmap_len msample = 3"
    by (simp add: msample_def bmap_len_def bset_len_def)
  have "bmap_len msample < usize_bound"
    by (simp add: len usize_bound_def)
  from iter_mut_visits [OF msample_inv this refl] show ?thesis
    by (simp add: len) (simp add: msample_def)
qed

text \<open>
  \<open>range_mut(1..=3)\<close> on a map with the nodes \<open>1, 3\<close> and \<open>5\<close> yields only key 1 forwards, and
  backwards first the entry of key 5, which is outside the range; on a new map \<open>range_mut(..)\<close> panics on
  the index of the back node.
\<close>

theorem range_mut_departures:
  "rbind (bmap_range_mut ref_deps id msample (Included 1) (Included 3)) (collect (returning range_mut_next) 5) =
     Inr (Some [MkPair 1 10]) \<and>
   map_sum id fst (rbind (bmap_range_mut ref_deps id msample (Included 1) (Included 3))
     (returning range_mut_next_back)) = Inr (Some (MkPair 5 50)) \<and>
   bmap_range_mut ref_deps id (bmap_new ref_deps :: (nat, nat, nat list) btree_map) Unbounded Unbounded =
     Inl IndexOutOfBounds"
proof -
  let ?it = "\<lparr> mut_inner = [], mut_front_node_idx = 0, mut_front_idx = 0, mut_back_node_idx = 0,
    mut_back_idx = 1, mut_front = [MkPair 1 10], mut_back = [MkPair 5 50] \<rparr> :: (nat, nat) iter_mut"
  have start: "bmap_range_mut ref_deps id msample (Included 1) (Included 3) = Inr ?it"
    by code_simp
  have empty: "bmap_range_mut ref_deps id (bmap_new ref_deps :: (nat, nat, nat list) btree_map) Unbounded Unbounded =
     Inl IndexOutOfBounds"
    by code_simp
  have "returning range_mut_next ?it = Inr (Some (MkPair 1 10), ?it\<lparr> mut_front := [], mut_front_idx := 1 \<rparr>)"
    "returning range_mut_next (?it\<lparr> mut_front := [], mut_front_idx := 1 \<rparr>) =
       Inr (None, ?it\<lparr> mut_front := [], mut_front_idx := 1 \<rparr>)"
    unfolding returning_def range_mut_next_def
    by (subst iter_mut_next.simps, simp add: wrapping_add_def usize_bound_def)+
  then have "collect (returning range_mut_next) (Suc (Suc n)) ?it = Inr (Some [MkPair 1 10])" for n
    by (simp add: collect.simps)
  from this [of 3] have "collect (returning range_mut_next) 5 ?it = Inr (Some [MkPair 1 10])"
    by simp
  moreover have "map_sum id fst (returning range_mut_next_back ?it) = Inr (Some (MkPair 5 50))"
    unfolding returning_def range_mut_next_back_def
    by (subst iter_mut_next_back.simps, simp add: wrapping_add_def usize_bound_def usize_sub_def)
  ultimately show ?thesis
    unfolding start rbind_Inr using empty by blast
qed

end
