(* ===== verification/Published.thy ===== *)
theory Published
  imports Spine Node
begin

text \<open>
  \<open>src/concurrent/set.rs\<close>, first part: the ordered maps from node maxima to nodes. The canonical
  index is a \<open>std\<close> \<open>BTreeMap\<close>, modelled as the list of its entries in key order; the published
  index for point reads keeps the same routes in chunks of bounded size that split and merge.
  A node is known by its address. The chunked index refines the plain one.
\<close>

type_synonym addr = nat
type_synonym 'a route = "'a \<times> addr"

section \<open>The standard ordered map\<close>

text \<open>
  \<open>BTreeMap::insert\<close> on a present key replaces the value and keeps the stored key. A lookup by a
  borrowed form compares through \<open>b\<close>.
\<close>

definition btm_get :: "('a \<Rightarrow> 'q) \<Rightarrow> 'q \<Rightarrow> ('a \<times> 'v) list \<Rightarrow> 'v option" where
  "btm_get b q m = map_option snd (find_key (b \<circ> fst) q m)"

definition btm_insert ::
  "('a \<Rightarrow> 'k::linorder) \<Rightarrow> 'a \<Rightarrow> 'v \<Rightarrow> ('a \<times> 'v) list \<Rightarrow> 'v option \<times> ('a \<times> 'v) list" where
  "btm_insert k key v m =
     (if has_key (k \<circ> fst) (k key) m
      then (btm_get k (k key) m, map (\<lambda>(x, w). if k x = k key then (x, v) else (x, w)) m)
      else (None, ins_key (k \<circ> fst) (key, v) m))"

definition btm_remove :: "('a \<Rightarrow> 'q) \<Rightarrow> 'q \<Rightarrow> ('a \<times> 'v) list \<Rightarrow> 'v option \<times> ('a \<times> 'v) list" where
  "btm_remove b q m = (btm_get b q m, del_key (b \<circ> fst) q m)"

text \<open>\<open>range((bound, Unbounded)).next()\<close> and \<open>iter().find(..)\<close>: the first entry inside a lower bound.\<close>

definition above :: "('a \<Rightarrow> 'q::linorder) \<Rightarrow> 'q bound \<Rightarrow> 'a \<Rightarrow> bool" where
  "above b bound x = (case bound of Included v \<Rightarrow> v \<le> b x | Excluded v \<Rightarrow> v < b x | Unbounded \<Rightarrow> True)"

definition btm_first_from :: "('a \<Rightarrow> 'q::linorder) \<Rightarrow> 'q bound \<Rightarrow> ('a \<times> 'v) list \<Rightarrow> ('a \<times> 'v) option" where
  "btm_first_from b bound m = find (\<lambda>r. above b bound (fst r)) m"

section \<open>PublishedNodeIndex\<close>

definition PUBLISHED_ROUTES_PER_CHUNK :: nat where
  "PUBLISHED_ROUTES_PER_CHUNK = 128"

definition PUBLISHED_REBUILD_ROUTES_PER_CHUNK :: nat where
  "PUBLISHED_REBUILD_ROUTES_PER_CHUNK = PUBLISHED_ROUTES_PER_CHUNK * 2 div 3"

definition PUBLISHED_ROUTE_MERGE_THRESHOLD :: nat where
  "PUBLISHED_ROUTE_MERGE_THRESHOLD = PUBLISHED_ROUTES_PER_CHUNK * 3 div 4"

lemmas published_constants = PUBLISHED_ROUTES_PER_CHUNK_def PUBLISHED_REBUILD_ROUTES_PER_CHUNK_def
  PUBLISHED_ROUTE_MERGE_THRESHOLD_def

record 'a published_node_index =
  chunks :: "'a route list list"
  pub_len :: nat

text \<open>The loop of \<open>from_canonical\<close>: a full buffer is pushed as a chunk.\<close>

fun chunk_routes :: "'a route list \<Rightarrow> 'a route list \<Rightarrow> 'a route list list \<Rightarrow> 'a route list list" where
  "chunk_routes [] entries cs = (if entries = [] then cs else cs @ [entries])"
| "chunk_routes (r # rs) entries cs =
     (let entries' = entries @ [r] in
      if length entries' = PUBLISHED_REBUILD_ROUTES_PER_CHUNK then chunk_routes rs [] (cs @ [entries'])
      else chunk_routes rs entries' cs)"

definition from_canonical :: "'a route list \<Rightarrow> 'a published_node_index" where
  "from_canonical idx = \<lparr> chunks = chunk_routes idx [] [], pub_len = length idx \<rparr>"

definition pub_iter :: "'a published_node_index \<Rightarrow> 'a route list" where
  "pub_iter p = concat (chunks p)"

definition pub_first_key_value :: "'a published_node_index \<Rightarrow> 'a route option" where
  "pub_first_key_value p = (case vec_first (chunks p) of None \<Rightarrow> None | Some c \<Rightarrow> vec_first c)"

definition pub_last_key_value :: "'a published_node_index \<Rightarrow> 'a route option" where
  "pub_last_key_value p = (case vec_last (chunks p) of None \<Rightarrow> None | Some c \<Rightarrow> vec_last c)"

text \<open>The closure panics on an empty chunk; which chunks the search probes is left open.\<close>

definition chunk_for :: "('a \<Rightarrow> 'q::linorder) \<Rightarrow> 'a published_node_index \<Rightarrow> 'q \<Rightarrow> nat res" where
  "chunk_for b p q =
     (if [] \<in> set (chunks p) then Inl UnwrapNone
      else Inr (partition_point (\<lambda>c. b (fst (last c)) < q) (chunks p)))"

text \<open>The \<open>while let\<close> loop over the chunks from the first candidate on.\<close>

fun scan_chunks :: "('a route \<Rightarrow> bool) \<Rightarrow> 'a route list list \<Rightarrow> 'a route option" where
  "scan_chunks p [] = None"
| "scan_chunks p (c # cs) =
     (case vec_get c (partition_point p c) of Some r \<Rightarrow> Some r | None \<Rightarrow> scan_chunks p cs)"

definition first_for_bound ::
  "('a \<Rightarrow> 'q::linorder) \<Rightarrow> 'a published_node_index \<Rightarrow> 'q bound \<Rightarrow> 'a route option res" where
  "first_for_bound b p bound =
     (case bound of
        Included q \<Rightarrow>
          rbind (chunk_for b p q) (\<lambda>i. Inr (scan_chunks (\<lambda>r. b (fst r) < q) (drop i (chunks p))))
      | Excluded q \<Rightarrow>
          rbind (chunk_for b p q) (\<lambda>i. Inr (scan_chunks (\<lambda>r. b (fst r) \<le> q) (drop i (chunks p))))
      | Unbounded \<Rightarrow> Inr (pub_first_key_value p))"

text \<open>
  The chunks have strictly increasing keys, so the answer of \<open>slice::binary_search_by\<close> is
  determined: it is that of \<open>search_by\<close>.
\<close>

definition pub_insert ::
  "('a \<Rightarrow> 'k::linorder) \<Rightarrow> 'a published_node_index \<Rightarrow> 'a \<Rightarrow> addr \<Rightarrow>
     (addr option \<times> 'a published_node_index) res" where
  "pub_insert k p key node =
     (if chunks p = [] then Inr (None, p\<lparr> chunks := [[(key, node)]], pub_len := 1 \<rparr>)
      else
        rbind (chunk_for k p (k key)) (\<lambda>found.
        let i = (if found = length (chunks p) then found - 1 else found) in
        rbind (vec_index (chunks p) i) (\<lambda>chunk.
        case search_by chunk (cmp_by (k \<circ> fst) (k key)) of
          Ok j \<Rightarrow>
            rbind (vec_index chunk j) (\<lambda>(key', old).
            Inr (Some old, p\<lparr> chunks := (chunks p)[i := chunk[j := (key', node)]] \<rparr>))
        | Err j \<Rightarrow>
            rbind (vec_insert chunk j (key, node)) (\<lambda>chunk'.
            if PUBLISHED_ROUTES_PER_CHUNK < length chunk' then
              rbind (vec_split_off chunk' (length chunk' div 2)) (\<lambda>(left, right).
              rbind (vec_insert ((chunks p)[i := left]) (i + 1) right) (\<lambda>cs.
              Inr (None, p\<lparr> chunks := cs, pub_len := pub_len p + 1 \<rparr>)))
            else Inr (None, p\<lparr> chunks := (chunks p)[i := chunk'], pub_len := pub_len p + 1 \<rparr>)))))"

text \<open>Merging chunk \<open>i + 1\<close> into chunk \<open>i\<close>.\<close>

definition merge_chunks :: "'a route list list \<Rightarrow> nat \<Rightarrow> 'a route list list res" where
  "merge_chunks cs i =
     rbind (vec_remove cs (i + 1)) (\<lambda>(right, cs').
     rbind (vec_index cs' i) (\<lambda>left.
     Inr (cs'[i := left @ right])))"

definition pub_remove ::
  "('a \<Rightarrow> 'q::linorder) \<Rightarrow> 'a published_node_index \<Rightarrow> 'q \<Rightarrow> (addr option \<times> 'a published_node_index) res" where
  "pub_remove b p q =
     rbind (chunk_for b p q) (\<lambda>i.
     case vec_get (chunks p) i of
       None \<Rightarrow> Inr (None, p)
     | Some chunk \<Rightarrow>
         (case search_by chunk (cmp_by (b \<circ> fst) q) of
            Err _ \<Rightarrow> Inr (None, p)
          | Ok j \<Rightarrow>
              rbind (vec_remove chunk j) (\<lambda>((_, removed), chunk').
              rbind (usize_sub (pub_len p) 1) (\<lambda>n.
              let cs = (chunks p)[i := chunk'] in
              rbind
                (if chunk' = [] then rbind (vec_remove cs i) (\<lambda>(_, cs'). Inr cs')
                 else if 0 < i \<and> length (cs ! (i - 1)) + length chunk' \<le> PUBLISHED_ROUTE_MERGE_THRESHOLD
                   then merge_chunks cs (i - 1)
                 else if i + 1 < length cs \<and>
                     length chunk' + length (cs ! (i + 1)) \<le> PUBLISHED_ROUTE_MERGE_THRESHOLD
                   then merge_chunks cs i
                 else Inr cs) (\<lambda>cs'.
              Inr (Some removed, \<lparr> chunks = cs', pub_len = n \<rparr>))))))"

section \<open>The chunked index refines the plain map\<close>

definition pub_ok :: "('a \<Rightarrow> 'k::linorder) \<Rightarrow> 'a published_node_index \<Rightarrow> bool" where
  "pub_ok k p \<longleftrightarrow> [] \<notin> set (chunks p) \<and>
     (\<forall>c\<in>set (chunks p). length c \<le> PUBLISHED_ROUTES_PER_CHUNK) \<and>
     sorted_keys (k \<circ> fst) (pub_iter p) \<and> pub_len p = length (pub_iter p)"

lemma pub_okD:
  assumes "pub_ok k p"
  shows "[] \<notin> set (chunks p)" "sorted_keys (k \<circ> fst) (concat (chunks p))"
    "pub_len p = length (concat (chunks p))" "c \<in> set (chunks p) \<Longrightarrow> length c \<le> 128"
  using assms by (auto simp: pub_ok_def pub_iter_def PUBLISHED_ROUTES_PER_CHUNK_def)

lemma pub_okI:
  assumes "[] \<notin> set cs" "\<And>c. c \<in> set cs \<Longrightarrow> length c \<le> 128" "sorted_keys (k \<circ> fst) (concat cs)"
    "n = length (concat cs)"
  shows "pub_ok k \<lparr> chunks = cs, pub_len = n \<rparr>"
  using assms by (auto simp: pub_ok_def pub_iter_def PUBLISHED_ROUTES_PER_CHUNK_def)

lemma chunk_routes_ok:
  assumes "length entries < PUBLISHED_REBUILD_ROUTES_PER_CHUNK" "[] \<notin> set cs"
    "\<forall>c\<in>set cs. length c \<le> PUBLISHED_REBUILD_ROUTES_PER_CHUNK"
  shows "concat (chunk_routes rs entries cs) = concat cs @ entries @ rs \<and>
    [] \<notin> set (chunk_routes rs entries cs) \<and>
    (\<forall>c\<in>set (chunk_routes rs entries cs). length c \<le> PUBLISHED_REBUILD_ROUTES_PER_CHUNK)"
  using assms
proof (induction rs entries cs rule: chunk_routes.induct)
  case (2 r rs entries cs)
  show ?case
  proof (cases "length (entries @ [r]) = PUBLISHED_REBUILD_ROUTES_PER_CHUNK")
    case True
    have "0 < PUBLISHED_REBUILD_ROUTES_PER_CHUNK"
      by (simp add: published_constants)
    then show ?thesis
      using "2.IH"(1) [OF refl True] "2.prems" True by (auto simp: Let_def)
  next
    case False
    then show ?thesis
      using "2.IH"(2) [OF refl False] "2.prems" by (simp add: Let_def)
  qed
qed auto

lemma from_canonical_ok:
  assumes "sorted_keys (k \<circ> fst) idx"
  shows "pub_ok k (from_canonical idx)" and "pub_iter (from_canonical idx) = idx"
proof -
  have "concat (chunk_routes idx [] []) = idx \<and> [] \<notin> set (chunk_routes idx [] []) \<and>
      (\<forall>c\<in>set (chunk_routes idx [] []). length c \<le> PUBLISHED_REBUILD_ROUTES_PER_CHUNK)"
    using chunk_routes_ok [of "[]" "[]" idx] by (simp add: published_constants)
  then show "pub_ok k (from_canonical idx)" "pub_iter (from_canonical idx) = idx"
    using assms by (auto simp: pub_ok_def from_canonical_def pub_iter_def published_constants)
qed

lemma pub_ends:
  assumes "[] \<notin> set (chunks p)"
  shows "pub_first_key_value p = vec_first (pub_iter p)" and "pub_last_key_value p = vec_last (pub_iter p)"
proof -
  show "pub_first_key_value p = vec_first (pub_iter p)"
    using assms by (cases "chunks p"; cases "hd (chunks p)") (auto simp: pub_first_key_value_def pub_iter_def)
  show "pub_last_key_value p = vec_last (pub_iter p)"
    using assms
    by (cases "chunks p" rule: rev_cases; cases "last (chunks p)")
      (auto simp: pub_last_key_value_def pub_iter_def vec_last_def)
qed

lemma vec_get_partition_point: "vec_get xs (partition_point p xs) = find (\<lambda>x. \<not> p x) xs"
  by (induction xs) (auto simp: vec_get_def)

lemma find_append: "find q (c @ d) = (case find q c of Some r \<Rightarrow> Some r | None \<Rightarrow> find q d)"
  by (induction c) auto

lemma scan_chunks_find: "scan_chunks p cs = find (\<lambda>r. \<not> p r) (concat cs)"
  by (induction cs) (auto simp: vec_get_partition_point find_append split: option.splits)

text \<open>Skipping chunks whose last key is below the bound skips no candidate.\<close>

lemma find_after:
  assumes "\<forall>x\<in>set xs. \<not> p x"
  shows "find p (xs @ ys) = find p ys"
  using assms by (induction xs) auto

lemma find_skip:
  assumes "[] \<notin> set cs" and "sorted (map f (concat cs))" and "i = partition_point (\<lambda>c. f (last c) < q) cs"
    and "\<And>x. f x < q \<Longrightarrow> \<not> p x"
  shows "find p (concat (drop i cs)) = find p (concat cs)"
proof -
  have "\<forall>c\<in>set (take i cs). f (last c) < q"
    unfolding assms(3) take_partition_point by (auto dest: set_takeWhileD)
  moreover have "f x \<le> f (last c)" if "c \<in> set cs" "x \<in> set c" for c x
  proof -
    have "sorted (map f c)"
      using that(1) assms(2) by (metis concat_append concat.simps(2) in_set_conv_decomp map_append sorted_append)
    then show ?thesis
      using that(2) by (cases c rule: rev_cases) (auto simp: sorted_append)
  qed
  ultimately have "\<not> p x" if "c \<in> set (take i cs)" "x \<in> set c" for c x
    using that assms(4) by (meson in_set_takeD le_less_trans)
  then have "\<forall>x\<in>set (concat (take i cs)). \<not> p x"
    by auto
  then have "find p (concat (take i cs) @ concat (drop i cs)) = find p (concat (drop i cs))"
    by (rule find_after)
  then show ?thesis
    by (metis append_take_drop_id concat_append)
qed

lemma first_for_bound_eq:
  assumes "pub_ok k p" and "borrow_ok k b"
  shows "first_for_bound b p bound = Inr (btm_first_from b bound (pub_iter p))"
proof -
  note ok = pub_okD [OF assms(1)]
  have srt: "sorted (map (b \<circ> fst) (concat (chunks p)))"
    by (rule sorted_keys_sorted, rule sorted_keys_borrow [OF _ ok(2)]) (use assms(2) in \<open>simp add: borrow_ok_def\<close>)
  note skip = find_skip [OF ok(1) srt refl]
  show ?thesis
  proof (cases bound)
    case (Included q)
    have "find (\<lambda>r. \<not> b (fst r) < q) (concat (drop (partition_point (\<lambda>c. (b \<circ> fst) (last c) < q) (chunks p)) (chunks p))) =
        find (\<lambda>r. \<not> b (fst r) < q) (concat (chunks p))"
      by (rule skip) simp
    then show ?thesis
      using Included ok(1)
      by (simp add: first_for_bound_def chunk_for_def scan_chunks_find btm_first_from_def above_def pub_iter_def
          not_less)
  next
    case (Excluded q)
    have "find (\<lambda>r. \<not> b (fst r) \<le> q) (concat (drop (partition_point (\<lambda>c. (b \<circ> fst) (last c) < q) (chunks p)) (chunks p))) =
        find (\<lambda>r. \<not> b (fst r) \<le> q) (concat (chunks p))"
      by (rule skip) simp
    then show ?thesis
      using Excluded ok(1)
      by (simp add: first_for_bound_def chunk_for_def scan_chunks_find btm_first_from_def above_def pub_iter_def
          not_le)
  next
    case Unbounded
    then show ?thesis
      using pub_ends(1) [OF ok(1)]
      by (cases "pub_iter p") (simp_all add: first_for_bound_def btm_first_from_def above_def)
  qed
qed

text \<open>The chunk a key belongs to: everything before it is below the key, everything after it above.\<close>

lemma chunk_located:
  assumes "pub_ok k p" and "chunks p \<noteq> []" and "i = clip (chunks p) (partition_point (\<lambda>c. k (fst (last c)) < q) (chunks p))"
  shows "i < length (chunks p)" and "\<forall>x\<in>set (concat (take i (chunks p))). (k \<circ> fst) x < q"
    and "\<forall>x\<in>set (concat (drop (Suc i) (chunks p))). q < (k \<circ> fst) x"
    and "sorted_keys (k \<circ> fst) (chunks p ! i)"
proof -
  let ?cs = "chunks p" and ?P = "\<lambda>r. (k \<circ> fst) r < q"
  note ok = pub_okD [OF assms(1)]
  have wf: "wf_spine ?cs"
    using ok(1) assms(2) by (simp add: wf_spine_def)
  have down: "downward ?P (concat ?cs)"
    using ok(2) by (intro downward_less sorted_keys_sorted)
  have "takeWhile (\<lambda>c. k (fst (last c)) < q) ?cs = takeWhile (node_pred ?P False) ?cs"
    using ok(1) by (intro takeWhile_cong) (auto simp: node_pred_def vec_last_def)
  then have i: "i = spine_pos ?P False ?cs"
    by (simp add: assms(3) spine_pos_def partition_point_def)
  note sp = spine_pos_spec [OF wf down i]
  show "i < length ?cs" by (rule sp(1))
  show "\<forall>x\<in>set (concat (take i ?cs)). (k \<circ> fst) x < q"
    by (rule spine_pos_before [OF wf down i])
  have srt: "sorted_keys (k \<circ> fst) (concat (take i ?cs) @ ?cs ! i @ concat (drop (Suc i) ?cs))"
    using ok(2) spine_split [OF sp(1)] by simp
  then show "sorted_keys (k \<circ> fst) (?cs ! i)"
    by simp
  show "\<forall>x\<in>set (concat (drop (Suc i) ?cs)). q < (k \<circ> fst) x"
  proof (cases "Suc i = length ?cs")
    case False
    then have "partition_point ?P (?cs ! i) < length (?cs ! i)"
      using sp(3) partition_point_le [of ?P "?cs ! i"] by linarith
    then obtain m where "m \<in> set (?cs ! i)" "q \<le> (k \<circ> fst) m"
      using partition_point_stop [of ?P "?cs ! i"] nth_mem by (metis linorder_not_less)
    then show ?thesis
      using srt by (auto intro: le_less_trans)
  qed simp
qed

lemma search_by_sorted_keys:
  assumes "sorted_keys b xs"
  shows "search_by xs (cmp_by b q) = (if has_key b q xs then Ok (partition_point (\<lambda>x. b x < q) xs)
    else Err (partition_point (\<lambda>x. b x < q) xs))"
  using prefix.search_sorted_keys [OF assms, of q] by simp

lemma chunks_around:
  assumes "i < length cs" and "[] \<notin> set cs" and "\<forall>c\<in>set cs. length c \<le> n"
  shows "[] \<notin> set (take i cs) \<union> set (drop j cs)" "\<forall>c\<in>set (take i cs) \<union> set (drop j cs). length c \<le> n"
  using assms by (auto dest: in_set_takeD in_set_dropD)

definition replace_at :: "('a \<Rightarrow> 'k) \<Rightarrow> 'a \<Rightarrow> 'v \<Rightarrow> 'a \<times> 'v \<Rightarrow> 'a \<times> 'v" where
  "replace_at k key v = (\<lambda>(x, w). if k x = k key then (x, v) else (x, w))"

lemma btm_insert_alt:
  "btm_insert k key v m = (btm_get k (k key) m,
     if has_key (k \<circ> fst) (k key) m then map (replace_at k key v) m else ins_key (k \<circ> fst) (key, v) m)"
  by (auto simp: btm_insert_def replace_at_def btm_get_def find_key_None)

lemma replace_at_outside: "\<forall>x\<in>set m. (k \<circ> fst) x \<noteq> k key \<Longrightarrow> map (replace_at k key v) m = m"
  by (auto simp: replace_at_def intro!: map_idI)

lemma replace_at_keys [simp]: "map (k \<circ> fst) (map (replace_at k key v) m) = map (k \<circ> fst) m"
  by (auto simp: replace_at_def)

lemma replace_at_sorted [simp]: "sorted_keys (k \<circ> fst) (map (replace_at k key v) m) \<longleftrightarrow> sorted_keys (k \<circ> fst) m"
  unfolding sorted_keys_def replace_at_keys ..

lemma replace_at_nth:
  assumes "sorted_keys (k \<circ> fst) c" and "j < length c" and "k (fst (c ! j)) = k key"
  shows "map (replace_at k key v) c = c[j := (fst (c ! j), v)]"
proof (rule nth_equalityI)
  fix i
  assume i: "i < length (map (replace_at k key v) c)"
  have "k (fst (c ! i)) \<noteq> k key" if "i \<noteq> j"
    using that i assms(2,3) sorted_keys_distinct [OF assms(1)] by (fastforce simp: distinct_conv_nth)
  then show "map (replace_at k key v) c ! i = c[j := (fst (c ! j), v)] ! i"
    using i assms(3) by (cases "i = j") (auto simp: replace_at_def split: prod.splits)
qed simp

lemma btm_get_mid:
  assumes "\<forall>x\<in>set as. (b \<circ> fst) x \<noteq> q" and "\<forall>x\<in>set cs. (b \<circ> fst) x \<noteq> q"
  shows "btm_get b q (as @ xs @ cs) = btm_get b q xs"
proof -
  have "find_key (b \<circ> fst) q (as @ ys) = find_key (b \<circ> fst) q ys" for ys
    using assms(1) by (induction as) (auto simp: find_key_def)
  moreover have "find_key (b \<circ> fst) q (xs @ cs) = find_key (b \<circ> fst) q xs"
    using assms(2) by (induction xs) (auto simp: find_key_def find_None_iff)
  ultimately show ?thesis
    by (simp add: btm_get_def)
qed

lemma absent_key: "\<forall>x\<in>set xs. f x \<noteq> q \<Longrightarrow> \<not> has_key f q xs"
  by (auto simp: has_key_def)

lemma clip_at: "n \<le> length ns \<Longrightarrow> (if n = length ns then n - 1 else n) = clip ns n"
  by (auto simp: clip_def)

lemma pub_insert_ok:
  assumes "pub_ok k p"
  shows "\<exists>p'. pub_insert k p key node = Inr (fst (btm_insert k key node (pub_iter p)), p') \<and> pub_ok k p' \<and>
    pub_iter p' = snd (btm_insert k key node (pub_iter p))"
proof (cases "chunks p = []")
  case True
  then show ?thesis
    by (auto simp: pub_insert_def pub_iter_def btm_insert_alt btm_get_def find_key_def ins_key_def
        pub_ok_def PUBLISHED_ROUTES_PER_CHUNK_def)
next
  case False
  let ?cs = "chunks p" and ?q = "k key" and ?f = "k \<circ> fst"
  let ?found = "partition_point (\<lambda>c. k (fst (last c)) < ?q) ?cs"
  note ok = pub_okD [OF assms]
  define i where "i = clip ?cs ?found"
  note loc = chunk_located [OF assms False i_def]
  let ?c = "?cs ! i" and ?L = "concat (take i ?cs)" and ?R = "concat (drop (Suc i) ?cs)"
  let ?j = "partition_point (\<lambda>x. ?f x < ?q) ?c"
  have split: "concat ?cs = ?L @ ?c @ ?R"
    by (rule spine_split [OF loc(1)])
  have upd: "concat (?cs[i := n]) = ?L @ n @ ?R" for n
    by (rule spine_update [OF loc(1)])
  have around: "\<forall>x\<in>set ?L. ?f x \<noteq> ?q" "\<forall>x\<in>set ?R. ?f x \<noteq> ?q"
    using loc(2,3) by (metis less_irrefl)+
  have has: "has_key ?f ?q (concat ?cs) \<longleftrightarrow> has_key ?f ?q ?c"
    using absent_key [where f = ?f, OF around(1)] absent_key [where f = ?f, OF around(2)] by (simp add: split)
  have get: "btm_get k ?q (concat ?cs) = btm_get k ?q ?c"
    unfolding split by (rule btm_get_mid [OF around])
  have idx: "(if ?found = length ?cs then ?found - 1 else ?found) = i"
    unfolding i_def by (rule clip_at) simp
  have cin: "?c \<in> set ?cs"
    using loc(1) by simp
  show ?thesis
  proof (cases "has_key ?f ?q ?c")
    case True
    note j = has_key_partition_point [OF loc(4) True refl]
    have rep: "map (replace_at k key node) ?c = ?c[?j := (fst (?c ! ?j), node)]"
      by (rule replace_at_nth [OF loc(4) j(1)]) (use j(2) in simp)
    let ?p = "p\<lparr> chunks := ?cs[i := map (replace_at k key node) ?c] \<rparr>"
    have "btm_get k ?q ?c = Some (snd (?c ! ?j))"
      using find_key_nth [OF loc(4) j(1)] j(2) by (simp add: btm_get_def)
    then have "pub_insert k p key node = Inr (btm_get k ?q (concat ?cs), ?p)"
      using False True ok(1) loc(1) j idx get rep
      by (simp add: pub_insert_def chunk_for_def search_by_sorted_keys [OF loc(4)] case_prod_beta)
    moreover have iter: "pub_iter ?p = map (replace_at k key node) (pub_iter p)"
      using replace_at_outside [OF around(1), of node] replace_at_outside [OF around(2), of node]
      by (simp add: pub_iter_def split upd)
    moreover have "pub_ok k ?p"
    proof -
      have "map (replace_at k key node) ?c \<noteq> []" "length (map (replace_at k key node) ?c) \<le> 128"
        using cin ok(1,4) by auto
      then have "[] \<notin> set (chunks ?p)" "\<forall>c\<in>set (chunks ?p). length c \<le> 128"
        using ok(1,4) set_update_subset_insert [of ?cs i "map (replace_at k key node) ?c"] by auto
      then show ?thesis
        using ok(2,3) iter unfolding pub_ok_def by (simp add: PUBLISHED_ROUTES_PER_CHUNK_def pub_iter_def)
    qed
    ultimately show ?thesis
      using has True by (auto simp: btm_insert_alt pub_iter_def)
  next
    case False
    let ?c' = "ins_key ?f (key, node) ?c"
    have c': "?c' = take ?j ?c @ (key, node) # drop ?j ?c"
      using False by (simp add: ins_key_def take_partition_point drop_partition_point)
    have lc': "length ?c' = Suc (length ?c)"
      using False by (simp add: length_ins_key)
    have new: "?L @ ?c' @ ?R = ins_key ?f (key, node) (concat ?cs)"
      unfolding split using loc(2,3) by (intro ins_key_mid [symmetric]) auto
    have srt: "sorted_keys ?f (?L @ ?c' @ ?R)"
      unfolding new by (rule sorted_ins_key [OF ok(2)])
    have len: "length (?L @ ?c' @ ?R) = pub_len p + 1"
      using lc' ok(3) by (simp add: split)
    have none: "btm_get k ?q (concat ?cs) = None"
      using False has by (simp add: btm_get_def find_key_None)
    have ins: "snd (btm_insert k key node (pub_iter p)) = ?L @ ?c' @ ?R"
      using False has new by (simp add: btm_insert_alt pub_iter_def)
    note rest = chunks_around [OF loc(1) ok(1), of 128 "Suc i"]
    have start: "pub_insert k p key node =
        (if PUBLISHED_ROUTES_PER_CHUNK < length ?c' then
           Inr (None, p\<lparr> chunks := take i ?cs @ take (length ?c' div 2) ?c' # drop (length ?c' div 2) ?c' #
             drop (Suc i) ?cs, pub_len := pub_len p + 1 \<rparr>)
         else Inr (None, p\<lparr> chunks := ?cs[i := ?c'], pub_len := pub_len p + 1 \<rparr>))"
    proof -
      have "vec_insert ?c ?j (key, node) = Inr ?c'"
        by (simp add: c')
      moreover have "vec_insert (?cs[i := l]) (i + 1) r = Inr (take i ?cs @ l # r # drop (Suc i) ?cs)" for l r
        using loc(1) by (simp add: upd_conv_take_nth_drop)
      ultimately show ?thesis
        using \<open>chunks p \<noteq> []\<close> False ok(1) loc(1) idx
        by (simp add: pub_insert_def chunk_for_def search_by_sorted_keys [OF loc(4)] del: vec_insert_simps)
    qed
    show ?thesis
    proof (cases "PUBLISHED_ROUTES_PER_CHUNK < length ?c'")
      case True
      let ?cs' = "take i ?cs @ take (length ?c' div 2) ?c' # drop (length ?c' div 2) ?c' # drop (Suc i) ?cs"
      have l: "length ?c' = 129"
        using True ok(4) [OF cin] lc' by (simp add: PUBLISHED_ROUTES_PER_CHUNK_def)
      have con: "concat ?cs' = ?L @ ?c' @ ?R"
        by (metis append.assoc append_take_drop_id concat.simps(2) concat_append)
      have "pub_ok k \<lparr> chunks = ?cs', pub_len = pub_len p + 1 \<rparr>"
      proof (rule pub_okI)
        show "[] \<notin> set ?cs'"
          using rest(1) ok(4) l by auto
        show "length c \<le> 128" if "c \<in> set ?cs'" for c
          using that rest(2) ok(4) l by auto
      qed (unfold con, fact srt, simp only: len)
      then show ?thesis
        using True start none ins con by (cases p) (simp add: pub_iter_def btm_insert_alt)
    next
      case small: False
      let ?cs' = "?cs[i := ?c']"
      have "?c' \<noteq> []" "length ?c' \<le> 128"
        using lc' small by (auto simp: PUBLISHED_ROUTES_PER_CHUNK_def)
      then have "[] \<notin> set ?cs'" "\<forall>c\<in>set ?cs'. length c \<le> 128"
        using ok(1,4) set_update_subset_insert [of ?cs i ?c'] by auto
      then have "pub_ok k \<lparr> chunks = ?cs', pub_len = pub_len p + 1 \<rparr>"
        using srt len unfolding upd [symmetric] by (intro pub_okI) auto
      then show ?thesis
        using small start none ins upd by (cases p) (simp add: pub_iter_def btm_insert_alt)
    qed
  qed
qed

lemma merge_chunks_ok:
  assumes "i + 1 < length cs"
  shows "\<exists>cs'. merge_chunks cs i = Inr cs' \<and> concat cs' = concat cs \<and>
    set cs' \<subseteq> insert (cs ! i @ cs ! (i + 1)) (set cs)"
proof -
  let ?cs = "take i cs @ (cs ! i @ cs ! (i + 1)) # drop (i + 2) cs"
  have cs: "cs = take i cs @ cs ! i # cs ! (i + 1) # drop (i + 2) cs"
    using assms by (simp add: Cons_nth_drop_Suc)
  have "merge_chunks cs i = Inr ?cs"
    using assms by (simp add: merge_chunks_def upd_conv_take_nth_drop nth_append min_def)
  moreover have "concat ?cs = concat cs"
    by (subst (4) cs) simp
  moreover have "set ?cs \<subseteq> insert (cs ! i @ cs ! (i + 1)) (set cs)"
    by (auto dest: in_set_takeD in_set_dropD)
  ultimately show ?thesis by blast
qed

lemma del_key_mid:
  assumes "\<not> has_key b q as" and "\<not> has_key b q cs"
  shows "del_key b q (as @ xs @ cs) = as @ del_key b q xs @ cs"
  using del_key_absent [OF assms(1)] del_key_absent [OF assms(2)] by (simp add: del_key_def)

text \<open>Whatever branch the rebalancing takes, it keeps the routes and the chunk bounds.\<close>

lemma rebalance_ok:
  assumes "i < length cs" and "\<forall>c\<in>set cs. length c \<le> 128" and "\<forall>j<length cs. j \<noteq> i \<longrightarrow> cs ! j \<noteq> []"
  shows "\<exists>cs'. (if cs ! i = [] then rbind (vec_remove cs i) (\<lambda>(_, cs'). Inr cs')
      else if 0 < i \<and> length (cs ! (i - 1)) + length (cs ! i) \<le> PUBLISHED_ROUTE_MERGE_THRESHOLD
        then merge_chunks cs (i - 1)
      else if i + 1 < length cs \<and> length (cs ! i) + length (cs ! (i + 1)) \<le> PUBLISHED_ROUTE_MERGE_THRESHOLD
        then merge_chunks cs i
      else Inr cs) = Inr cs' \<and> concat cs' = concat cs \<and> [] \<notin> set cs' \<and> (\<forall>c\<in>set cs'. length c \<le> 128)"
proof (cases "cs ! i = []")
  case True
  have "[] \<notin> set (take i cs)" "[] \<notin> set (drop (Suc i) cs)"
    using assms(1,3) by (auto simp: in_set_conv_nth)
  then show ?thesis
    using True assms(1,2) spine_drop_empty [OF assms(1) True] by (auto dest: in_set_takeD in_set_dropD)
next
  case False
  then have full: "[] \<notin> set cs"
    using assms(3) by (auto simp: in_set_conv_nth)
  have merged: "\<exists>cs'. merge_chunks cs j = Inr cs' \<and> concat cs' = concat cs \<and> [] \<notin> set cs' \<and>
      (\<forall>c\<in>set cs'. length c \<le> 128)"
    if j: "j + 1 < length cs" "length (cs ! j) + length (cs ! (j + 1)) \<le> PUBLISHED_ROUTE_MERGE_THRESHOLD" for j
  proof -
    obtain cs' where cs': "merge_chunks cs j = Inr cs'" "concat cs' = concat cs"
      "set cs' \<subseteq> insert (cs ! j @ cs ! (j + 1)) (set cs)"
      using merge_chunks_ok [OF j(1)] by blast
    have "cs ! j \<in> set cs" "length (cs ! j @ cs ! (j + 1)) \<le> 128"
      using j by (simp_all add: published_constants)
    then have "[] \<notin> set cs'" "\<forall>c\<in>set cs'. length c \<le> 128"
      using cs'(3) full assms(2) by auto
    with cs' show ?thesis by blast
  qed
  consider "0 < i \<and> length (cs ! (i - 1)) + length (cs ! i) \<le> PUBLISHED_ROUTE_MERGE_THRESHOLD"
    | "\<not> (0 < i \<and> length (cs ! (i - 1)) + length (cs ! i) \<le> PUBLISHED_ROUTE_MERGE_THRESHOLD)"
      "i + 1 < length cs \<and> length (cs ! i) + length (cs ! (i + 1)) \<le> PUBLISHED_ROUTE_MERGE_THRESHOLD"
    | "\<not> (0 < i \<and> length (cs ! (i - 1)) + length (cs ! i) \<le> PUBLISHED_ROUTE_MERGE_THRESHOLD)"
      "\<not> (i + 1 < length cs \<and> length (cs ! i) + length (cs ! (i + 1)) \<le> PUBLISHED_ROUTE_MERGE_THRESHOLD)"
    by blast
  then show ?thesis
  proof cases
    case 1
    then show ?thesis
      using False merged [of "i - 1"] assms(1) by simp
  next
    case 2
    then show ?thesis
      using False merged [of i] by auto
  next
    case 3
    then show ?thesis
      using False full assms(2) by auto
  qed
qed

lemma pub_remove_ok:
  assumes "pub_ok k p"
  shows "\<exists>p'. pub_remove k p q = Inr (btm_get k q (pub_iter p), p') \<and> pub_ok k p' \<and>
    pub_iter p' = del_key (k \<circ> fst) q (pub_iter p)"
proof (cases "partition_point (\<lambda>c. k (fst (last c)) < q) (chunks p) < length (chunks p)")
  case False
  let ?f = "k \<circ> fst" and ?cs = "chunks p" and ?i = "partition_point (\<lambda>c. k (fst (last c)) < q) (chunks p)"
  note ok = pub_okD [OF assms]
  have i: "?i = length ?cs"
    using False partition_point_le [of "\<lambda>c. k (fst (last c)) < q" ?cs] by linarith
  have below: "\<forall>x\<in>set (concat ?cs). ?f x < q"
  proof (cases "?cs = []")
    case False
    note loc = chunk_located [OF assms False refl, of q]
    let ?l = "length ?cs - 1"
    have l: "?l < length ?cs" "clip ?cs ?i = ?l"
      using False i by (simp_all add: clip_def)
    have "k (fst (last (last ?cs))) < q"
      using partition_point_all [of "\<lambda>c. k (fst (last c)) < q" ?cs] i False by simp
    moreover have "?f x \<le> ?f (last (last ?cs))" if "x \<in> set (last ?cs)" for x
      using loc(4) that False unfolding l(2) last_conv_nth [OF False, symmetric]
      by (cases "last ?cs" rule: rev_cases) auto
    ultimately have "\<forall>x\<in>set (last ?cs). ?f x < q"
      by (auto intro: le_less_trans)
    moreover have "concat ?cs = concat (take ?l ?cs) @ last ?cs"
      using spine_split [OF l(1)] False by (simp add: last_conv_nth)
    ultimately show ?thesis
      using loc(2) unfolding l(2) by auto
  qed simp
  then have "\<not> has_key ?f q (concat ?cs)"
    by (intro absent_key) (metis less_irrefl)
  moreover have "pub_remove k p q = Inr (None, p)"
    using ok(1) i by (simp add: pub_remove_def chunk_for_def)
  ultimately show ?thesis
    using assms by (auto simp: btm_get_def find_key_None pub_iter_def del_key_absent)
next
  case True
  let ?f = "k \<circ> fst" and ?cs = "chunks p"
  define i where "i = partition_point (\<lambda>c. k (fst (last c)) < q) ?cs"
  have ne: "?cs \<noteq> []"
    using True by auto
  have i: "i = clip ?cs (partition_point (\<lambda>c. k (fst (last c)) < q) ?cs)"
    using True by (simp add: i_def clip_def)
  note ok = pub_okD [OF assms] and loc = chunk_located [OF assms ne i]
  let ?c = "?cs ! i" and ?L = "concat (take i ?cs)" and ?R = "concat (drop (Suc i) ?cs)"
  have around: "\<not> has_key ?f q ?L" "\<not> has_key ?f q ?R"
    using loc(2,3) by (intro absent_key; metis less_irrefl)+
  have split: "concat ?cs = ?L @ ?c @ ?R"
    by (rule spine_split [OF loc(1)])
  have get: "btm_get k q (concat ?cs) = btm_get k q ?c"
    unfolding split using loc(2,3) by (intro btm_get_mid; metis less_irrefl)
  have del: "del_key ?f q (concat ?cs) = ?L @ del_key ?f q ?c @ ?R"
    unfolding split by (rule del_key_mid [OF around])
  show ?thesis
  proof (cases "has_key ?f q ?c")
    case False
    then have "pub_remove k p q = Inr (None, p)"
      using ok(1) loc(1)
      by (simp add: pub_remove_def chunk_for_def i_def [symmetric] search_by_sorted_keys [OF loc(4)])
    moreover have "btm_get k q (concat ?cs) = None" "del_key ?f q (concat ?cs) = concat ?cs"
      using False get by (simp add: btm_get_def find_key_None) (simp add: False del del_key_absent split [symmetric])
    ultimately show ?thesis
      using assms by (auto simp: pub_iter_def)
  next
    case has: True
    let ?j = "partition_point (\<lambda>x. ?f x < q) ?c" and ?c' = "del_key ?f q ?c"
    note j = has_key_partition_point [OF loc(4) has refl]
    have c': "take ?j ?c @ drop (Suc ?j) ?c = ?c'"
      using del_key_nth [OF loc(4) j(1)] j(2) by simp
    have got: "btm_get k q ?c = Some (snd (?c ! ?j))"
      using find_key_nth [OF loc(4) j(1)] j(2) by (simp add: btm_get_def)
    let ?cs1 = "?cs[i := ?c']"
    have con: "concat ?cs1 = del_key ?f q (concat ?cs)"
      unfolding del by (rule spine_update [OF loc(1)])
    have lc: "length ?c' \<le> 128"
      unfolding del_key_def using ok(4) [of ?c] loc(1) by (intro order_trans [OF length_filter_le]) simp
    have len: "Suc (length (concat ?cs1)) = pub_len p"
      using j(1) c' [symmetric] ok(3) unfolding spine_update [OF loc(1)] by (simp add: split)
    have "\<forall>c\<in>set ?cs1. length c \<le> 128"
      using ok(4) lc set_update_subset_insert [of ?cs i ?c'] by auto
    moreover have "\<forall>m<length ?cs1. m \<noteq> i \<longrightarrow> ?cs1 ! m \<noteq> []"
      using ok(1) by (auto dest: nth_mem)
    ultimately obtain cs' where cs': "(if ?cs1 ! i = [] then rbind (vec_remove ?cs1 i) (\<lambda>(_, cs'). Inr cs')
      else if 0 < i \<and> length (?cs1 ! (i - 1)) + length (?cs1 ! i) \<le> PUBLISHED_ROUTE_MERGE_THRESHOLD
        then merge_chunks ?cs1 (i - 1)
      else if i + 1 < length ?cs1 \<and> length (?cs1 ! i) + length (?cs1 ! (i + 1)) \<le> PUBLISHED_ROUTE_MERGE_THRESHOLD
        then merge_chunks ?cs1 i
      else Inr ?cs1) = Inr cs'" "concat cs' = concat ?cs1" "[] \<notin> set cs'" "\<forall>c\<in>set cs'. length c \<le> 128"
      using rebalance_ok [of i ?cs1] loc(1) by auto
    have at: "?cs1 ! i = ?c'"
      using loc(1) by simp
    have vr: "vec_remove ?c ?j = Inr (?c ! ?j, ?c')"
      using j(1) c' by simp
    have "pub_remove k p q = Inr (Some (snd (?c ! ?j)), \<lparr> chunks = cs', pub_len = pub_len p - 1 \<rparr>)"
      using cs'(1) ok(1) loc(1) len has vr unfolding at
      by (simp add: pub_remove_def chunk_for_def i_def [symmetric] search_by_sorted_keys [OF loc(4)] Let_def
          case_prod_beta del: vec_remove_simps)
    moreover have "pub_ok k \<lparr> chunks = cs', pub_len = pub_len p - 1 \<rparr>"
      using cs'(2,3,4) con len sorted_del_key [OF ok(2)] by (intro pub_okI) auto
    ultimately show ?thesis
      using cs'(2) con get got by (auto simp: pub_iter_def)
  qed
qed

end
