(* ===== verification/Topology.thy ===== *)
theory Topology
  imports Published "HOL-Library.Word"
begin

text \<open>
  \<open>src/concurrent/set.rs\<close>, second part: \<open>Topology\<close> and \<open>TopologyWriteGuard\<close>. The canonical
  index is changed under the structural lock; the guard carries the changed copy of the published
  index and the reverse lookup from node identity to route key, and publishes them when it is
  dropped. The generation is odd while a publishing guard is open. Debug assertions are panics.
  Reclamation of retired roots (\<open>ps_reclaim\<close>) only concerns memory and is left out.
\<close>

section \<open>State\<close>

record 'a topology =
  canon :: "'a route list"
  published_keys :: "(addr \<times> 'a) list"
  published :: "'a published_node_index"
  generation :: "64 word"

record 'a write_guard =
  tg_topology :: "'a topology"
  tg_published :: "'a published_node_index option"
  tg_keys :: bool  \<comment> \<open>whether it holds the lock of \<open>published_keys\<close>\<close>
  tg_publish :: bool
  tg_dirty :: bool

definition debug_assert :: "bool \<Rightarrow> unit res" where
  "debug_assert c = (if c then Inr () else Inl DebugAssertFailed)"

lemma debug_assert_simps [simp]: "debug_assert True = Inr ()" "debug_assert False = Inl DebugAssertFailed"
  by (simp_all add: debug_assert_def)

definition topology_new :: "'a topology" where
  "topology_new = \<lparr> canon = [], published_keys = [], published = \<lparr> chunks = [], pub_len = 0 \<rparr>, generation = 0 \<rparr>"

text \<open>Opening a guard, the structural lock being free.\<close>

definition topology_write :: "'a topology \<Rightarrow> 'a write_guard" where
  "topology_write t = \<lparr> tg_topology = t\<lparr> generation := generation t + 1 \<rparr>, tg_published = None,
     tg_keys = False, tg_publish = True, tg_dirty = False \<rparr>"

definition topology_write_rekey :: "'a topology \<Rightarrow> 'a write_guard" where
  "topology_write_rekey t = \<lparr> tg_topology = t, tg_published = None, tg_keys = False,
     tg_publish = False, tg_dirty = False \<rparr>"

text \<open>\<open>try_write\<close> gives up when the lock is taken.\<close>

definition topology_try_write :: "bool \<Rightarrow> 'a topology \<Rightarrow> 'a write_guard option" where
  "topology_try_write locked t = (if locked then None else Some (topology_write t))"

section \<open>The write guard\<close>

abbreviation tg_canon :: "'a write_guard \<Rightarrow> 'a route list" where
  "tg_canon g \<equiv> canon (tg_topology g)"

definition set_topology :: "('a topology \<Rightarrow> 'a topology) \<Rightarrow> 'a write_guard \<Rightarrow> 'a write_guard" where
  "set_topology f g = g\<lparr> tg_topology := f (tg_topology g) \<rparr>"

definition enable_publication :: "'a write_guard \<Rightarrow> 'a write_guard res" where
  "enable_publication g =
     (if tg_publish g then Inr g
      else rbind (debug_assert (\<not> tg_dirty g)) (\<lambda>_.
        Inr (set_topology (\<lambda>t. t\<lparr> generation := generation t + 1 \<rparr>) g\<lparr> tg_publish := True \<rparr>)))"

definition ensure_publication_snapshot :: "'a write_guard \<Rightarrow> 'a write_guard" where
  "ensure_publication_snapshot g =
     (if tg_published g = None
      then g\<lparr> tg_keys := True, tg_published := Some (published (tg_topology g)) \<rparr> else g)"

definition put_identity :: "'a route \<Rightarrow> (addr \<times> 'a) list \<Rightarrow> (addr \<times> 'a) list" where
  "put_identity r keys = snd (btm_insert id (snd r) (fst r) keys)"

definition rebuild_publication :: "'a write_guard \<Rightarrow> 'a write_guard" where
  "rebuild_publication g =
     (let canonical = tg_canon g;
          rebuilt = from_canonical canonical;
          rebuilt_keys = fold put_identity canonical []
      in (set_topology (\<lambda>t. t\<lparr> published_keys := rebuilt_keys \<rparr>) g)
           \<lparr> tg_keys := True, tg_published := Some rebuilt, tg_dirty := True \<rparr>)"

definition is_last_node :: "'a write_guard \<Rightarrow> addr \<Rightarrow> bool" where
  "is_last_node g node = (case vec_last (tg_canon g) of Some (_, n) \<Rightarrow> n = node | None \<Rightarrow> False)"

definition published_last_is :: "'a topology \<Rightarrow> addr \<Rightarrow> bool" where
  "published_last_is t node = (case pub_last_key_value (published t) of Some (_, n) \<Rightarrow> n = node | None \<Rightarrow> False)"

definition can_rekey_last_node_without_publication ::
  "('a \<Rightarrow> 'k::linorder) \<Rightarrow> 'a write_guard \<Rightarrow> addr \<Rightarrow> 'a \<Rightarrow> bool" where
  "can_rekey_last_node_without_publication k g node new_key =
     (case rev (tg_canon g) of
        [] \<Rightarrow> False
      | (_, last_node) # rest \<Rightarrow>
          if last_node \<noteq> node \<or> \<not> published_last_is (tg_topology g) node then False
          else (case rest of (predecessor, _) # _ \<Rightarrow> k predecessor < k new_key | [] \<Rightarrow> True))"

definition rekey_last_node ::
  "('a \<Rightarrow> 'k::linorder) \<Rightarrow> 'a write_guard \<Rightarrow> 'a \<Rightarrow> 'a \<Rightarrow> addr \<Rightarrow> 'a write_guard res" where
  "rekey_last_node k g old_key new_key node =
     rbind (debug_assert (\<not> tg_publish g)) (\<lambda>_.
     rbind (debug_assert (\<not> tg_dirty g)) (\<lambda>_.
     rbind (debug_assert (is_last_node g node)) (\<lambda>_.
     let (removed, idx) = btm_remove k (k old_key) (tg_canon g) in
     rbind (debug_assert (removed = Some node)) (\<lambda>_.
     let (replaced, idx') = btm_insert k new_key node idx in
     rbind (debug_assert (replaced = None)) (\<lambda>_.
     Inr ((set_topology (\<lambda>t. t\<lparr> canon := idx' \<rparr>) g)\<lparr> tg_dirty := True \<rparr>))))))"

definition repair_last_route_before_insert ::
  "('a \<Rightarrow> 'k::linorder) \<Rightarrow> 'a write_guard \<Rightarrow> 'a write_guard res" where
  "repair_last_route_before_insert k g =
     rbind (debug_assert (tg_publish g)) (\<lambda>_.
     case vec_last (tg_canon g) of
       None \<Rightarrow> Inr g
     | Some (canonical_key, last_node) \<Rightarrow>
         (let g = ensure_publication_snapshot g in
          case btm_get id last_node (published_keys (tg_topology g)) of
            None \<Rightarrow> Inr (rebuild_publication g)
          | Some published_key \<Rightarrow>
              if k published_key = k canonical_key then Inr g
              else
                rbind (unwrap (tg_published g)) (\<lambda>p.
                rbind (pub_remove k p (k published_key)) (\<lambda>(removed, p1).
                rbind (pub_insert k p1 canonical_key last_node) (\<lambda>(displaced, p2).
                let g = (set_topology (\<lambda>t. t\<lparr> published_keys :=
                      snd (btm_insert id last_node canonical_key (published_keys t)) \<rparr>) g)
                      \<lparr> tg_published := Some p2 \<rparr>
                in if removed = Some last_node \<and> displaced = None then Inr (g\<lparr> tg_dirty := True \<rparr>)
                   else Inr (rebuild_publication g))))))"

text \<open>Taking a node's route out of the published side; whether it was the expected one.\<close>

definition unpublish_node :: "('a \<Rightarrow> 'k::linorder) \<Rightarrow> 'a write_guard \<Rightarrow> addr \<Rightarrow> (bool \<times> 'a write_guard) res" where
  "unpublish_node k g node =
     rbind (unwrap (tg_published g)) (\<lambda>p.
     let (route_key, keys) = btm_remove id node (published_keys (tg_topology g));
         g = set_topology (\<lambda>t. t\<lparr> published_keys := keys \<rparr>) g
     in case route_key of
          None \<Rightarrow> Inr (False, g)
        | Some key \<Rightarrow>
            rbind (pub_remove k p (k key)) (\<lambda>(old_node, p').
            Inr (old_node = Some node, g\<lparr> tg_published := Some p' \<rparr>)))"

definition insert_after_last_route_repair ::
  "('a \<Rightarrow> 'k::linorder) \<Rightarrow> 'a write_guard \<Rightarrow> 'a \<Rightarrow> addr \<Rightarrow> (addr option \<times> 'a write_guard) res" where
  "insert_after_last_route_repair k g key node =
     rbind (debug_assert (tg_publish g)) (\<lambda>_.
     let (replaced, idx) = btm_insert k key node (tg_canon g);
         g = (set_topology (\<lambda>t. t\<lparr> canon := idx \<rparr>) g)\<lparr> tg_dirty := True \<rparr>
     in if tg_publish g then
          (let g = ensure_publication_snapshot g in
           rbind (case replaced of None \<Rightarrow> Inr (True, g) | Some old \<Rightarrow> unpublish_node k g old) (\<lambda>(consistent, g).
           if \<not> consistent then Inr (replaced, rebuild_publication g)
           else
             rbind (unwrap (tg_published g)) (\<lambda>p.
             rbind (pub_insert k p key node) (\<lambda>(displaced, p').
             let g = (set_topology (\<lambda>t. t\<lparr> published_keys := snd (btm_insert id node key (published_keys t)) \<rparr>) g)
                   \<lparr> tg_published := Some p' \<rparr>
             in Inr (replaced, (case displaced of
                    Some old_node \<Rightarrow> if old_node \<noteq> node then rebuild_publication g else g
                  | None \<Rightarrow> g))))))
        else Inr (replaced, g))"

definition tg_insert ::
  "('a \<Rightarrow> 'k::linorder) \<Rightarrow> 'a write_guard \<Rightarrow> 'a \<Rightarrow> addr \<Rightarrow> (addr option \<times> 'a write_guard) res" where
  "tg_insert k g key node =
     rbind (repair_last_route_before_insert k g) (\<lambda>g. insert_after_last_route_repair k g key node)"

definition tg_remove :: "('a \<Rightarrow> 'k::linorder) \<Rightarrow> 'a write_guard \<Rightarrow> 'k \<Rightarrow> (addr option \<times> 'a write_guard) res" where
  "tg_remove k g q =
     rbind (debug_assert (tg_publish g)) (\<lambda>_.
     let (removed, idx) = btm_remove k q (tg_canon g) in
     case removed of
       None \<Rightarrow> Inr (None, g)
     | Some node \<Rightarrow>
         (let g = (set_topology (\<lambda>t. t\<lparr> canon := idx \<rparr>) g)\<lparr> tg_dirty := True \<rparr> in
          if tg_publish g then
            rbind (unpublish_node k (ensure_publication_snapshot g) node) (\<lambda>(consistent, g).
            Inr (Some node, if consistent then g else rebuild_publication g))
          else Inr (Some node, g)))"

text \<open>The debug assertions of \<open>drop\<close>: canonical and published side in the same order.\<close>

definition routes_agree :: "('a \<Rightarrow> 'k::linorder) \<Rightarrow> 'a route list \<Rightarrow> 'a published_node_index \<Rightarrow> (addr \<times> 'a) list \<Rightarrow> bool" where
  "routes_agree k canonical p keys \<longleftrightarrow>
     length canonical = pub_len p \<and> length canonical = length keys \<and>
     (\<forall>((_, canonical_node), (route_key, route_node))\<in>set (zip canonical (pub_iter p)).
        route_node = canonical_node \<and> map_option k (btm_get id canonical_node keys) = Some (k route_key))"

definition drop_guard :: "('a \<Rightarrow> 'k::linorder) \<Rightarrow> 'a write_guard \<Rightarrow> 'a topology res" where
  "drop_guard k g =
     rbind (if tg_publish g \<and> tg_dirty g
            then rbind (unwrap (tg_published g)) (\<lambda>p.
              rbind (if tg_keys g then Inr () else Inl UnwrapNone) (\<lambda>_.
              debug_assert (routes_agree k (tg_canon g) p (published_keys (tg_topology g)))))
            else Inr ()) (\<lambda>_.
     if \<not> tg_publish g then Inr (tg_topology g)
     else if \<not> tg_dirty g then Inr ((tg_topology g)\<lparr> generation := generation (tg_topology g) + 1 \<rparr>)
     else rbind (unwrap (tg_published g)) (\<lambda>p.
       Inr ((tg_topology g)\<lparr> published := p, generation := generation (tg_topology g) + 1 \<rparr>)))"

end
