(* ===== verification/Cdc_Change.thy ===== *)
theory Cdc_Change
  imports Btree_Map "HOL-Library.Word"
begin

text \<open>
  \<open>src/cdc/change.rs\<close> and \<open>src/core/multipair/ord.rs\<close>: change events with and without their
  identifiers, and the entries of a multimap. Identifiers are 64-bit counters.
\<close>

section \<open>Change events\<close>

datatype event_id = Id (event_inner: "64 word")

text \<open>\<open>other.0 + 1\<close> panics when it overflows.\<close>

definition is_next_for :: "event_id \<Rightarrow> event_id \<Rightarrow> bool res" where
  "is_next_for i other =
     (if event_inner other = - 1 then Inl AddOverflow else Inr (event_inner i = event_inner other + 1))"

datatype 'a change_event =
    InsertAt (event_id: event_id) (max_value: 'a) (event_value: 'a) (event_index: nat)
  | RemoveAt (event_id: event_id) (max_value: 'a) (event_value: 'a) (event_index: nat)
  | CreateNode (event_id: event_id) (max_value: 'a)
  | RemoveNode (event_id: event_id) (max_value: 'a)
  | SplitNode (event_id: event_id) (max_value: 'a) (split_index: nat)

datatype 'a change_event_unassigned =
    UInsertAt 'a 'a nat
  | URemoveAt 'a 'a nat
  | UCreateNode 'a
  | URemoveNode 'a
  | USplitNode 'a nat

fun change_event_id :: "'a change_event \<Rightarrow> event_id" where
  "change_event_id (InsertAt i m v n) = i"
| "change_event_id (RemoveAt i m v n) = i"
| "change_event_id (CreateNode i m) = i"
| "change_event_id (RemoveNode i m) = i"
| "change_event_id (SplitNode i m n) = i"

fun assign_id :: "'a change_event_unassigned \<Rightarrow> event_id \<Rightarrow> 'a change_event" where
  "assign_id (UInsertAt m v n) i = InsertAt i m v n"
| "assign_id (URemoveAt m v n) i = RemoveAt i m v n"
| "assign_id (UCreateNode m) i = CreateNode i m"
| "assign_id (URemoveNode m) i = RemoveNode i m"
| "assign_id (USplitNode m n) i = SplitNode i m n"

section \<open>Multimap entries\<close>

datatype ('k, 'v) ord_multi_pair = MkMulti (multi_key: 'k) (multi_value: 'v)

text \<open>\<open>self.key.cmp(&other.key).then(self.value.cmp(&other.value))\<close>\<close>

definition then_cmp :: "ordering \<Rightarrow> ordering \<Rightarrow> ordering" where
  "then_cmp o1 o2 = (if o1 = Equal then o2 else o1)"

definition multi_cmp ::
  "('k::linorder, 'v::linorder) ord_multi_pair \<Rightarrow> ('k, 'v) ord_multi_pair \<Rightarrow> ordering" where
  "multi_cmp x y = then_cmp (compare (multi_key x) (multi_key y)) (compare (multi_value x) (multi_value y))"

definition multi_eq :: "('k, 'v) ord_multi_pair \<Rightarrow> ('k, 'v) ord_multi_pair \<Rightarrow> bool" where
  "multi_eq x y \<longleftrightarrow> multi_key x = multi_key y \<and> multi_value x = multi_value y"

definition multi_from_pair :: "('k, 'v) pair \<Rightarrow> ('k, 'v) ord_multi_pair" where
  "multi_from_pair p = MkMulti (pair_key p) (pair_value p)"

definition pair_from_multi :: "('k, 'v) ord_multi_pair \<Rightarrow> ('k, 'v) pair" where
  "pair_from_multi m = MkPair (multi_key m) (multi_value m)"

definition tuple_from_multi :: "('k, 'v) ord_multi_pair \<Rightarrow> 'k \<times> 'v" where
  "tuple_from_multi m = (multi_key m, multi_value m)"

text \<open>An event over multimap entries as one over map entries; \<open>into\<close> converts an entry.\<close>

fun multipair_change_event_into_pair :: "('m \<Rightarrow> ('k, 'v) pair) \<Rightarrow> 'm change_event \<Rightarrow> ('k, 'v) pair change_event" where
  "multipair_change_event_into_pair into (InsertAt i m v n) = InsertAt i (into m) (into v) n"
| "multipair_change_event_into_pair into (RemoveAt i m v n) = RemoveAt i (into m) (into v) n"
| "multipair_change_event_into_pair into (CreateNode i m) = CreateNode i (into m)"
| "multipair_change_event_into_pair into (RemoveNode i m) = RemoveNode i (into m)"
| "multipair_change_event_into_pair into (SplitNode i m n) = SplitNode i (into m) n"

definition change_event_from_multi :: "('k, 'v) ord_multi_pair change_event \<Rightarrow> ('k, 'v) pair change_event" where
  "change_event_from_multi ev = multipair_change_event_into_pair pair_from_multi ev"

section \<open>Facts\<close>

text \<open>The order of multimap entries is the lexicographic one on \<open>(key, value)\<close>.\<close>

instantiation ord_multi_pair :: (linorder, linorder) linorder
begin

definition less_eq_ord_multi_pair :: "('a, 'b) ord_multi_pair \<Rightarrow> ('a, 'b) ord_multi_pair \<Rightarrow> bool" where
  "less_eq_ord_multi_pair x y \<longleftrightarrow> multi_cmp x y \<noteq> Greater"

definition less_ord_multi_pair :: "('a, 'b) ord_multi_pair \<Rightarrow> ('a, 'b) ord_multi_pair \<Rightarrow> bool" where
  "less_ord_multi_pair x y \<longleftrightarrow> multi_cmp x y = Less"

instance
proof
  note defs = less_eq_ord_multi_pair_def less_ord_multi_pair_def multi_cmp_def then_cmp_def compare_def
  fix x y z :: "('a, 'b) ord_multi_pair"
  show "x < y \<longleftrightarrow> x \<le> y \<and> \<not> y \<le> x"
    by (auto simp: defs)
  show "x \<le> x"
    by (simp add: defs)
  show "x \<le> y \<Longrightarrow> y \<le> z \<Longrightarrow> x \<le> z"
    by (auto simp: defs split: if_splits)
  show "x \<le> y \<Longrightarrow> y \<le> x \<Longrightarrow> x = y"
    by (cases x; cases y) (auto simp: defs split: if_splits)
  show "x \<le> y \<or> y \<le> x"
    by (auto simp: defs)
qed

end

lemma multi_cmp_compare: "multi_cmp x y = compare x y"
proof -
  have "x = y \<longleftrightarrow> multi_cmp x y = Equal"
    by (cases x; cases y) (auto simp: multi_cmp_def then_cmp_def compare_def)
  then show ?thesis
    by (cases "multi_cmp x y") (auto simp: compare_def less_ord_multi_pair_def)
qed

lemma multi_key_mono: "borrow_mono id multi_key"
  by (auto simp: borrow_mono_def less_ord_multi_pair_def multi_cmp_def then_cmp_def compare_def split: if_splits)

lemma multi_round_trip: "multi_from_pair (pair_from_multi m) = m" "pair_from_multi (multi_from_pair p) = p"
  by (simp_all add: multi_from_pair_def pair_from_multi_def)

lemma assign_id_id [simp]: "change_event_id (assign_id u i) = i"
  by (cases u) simp_all

lemma into_pair_id [simp]: "change_event_id (multipair_change_event_into_pair into ev) = change_event_id ev"
  by (cases ev) simp_all

end
