(* ===== verification/Concurrent_Set.thy ===== *)
theory Concurrent_Set
  imports Topology Cdc_Change
begin

text \<open>
  \<open>src/concurrent/operation.rs\<close> and the writers and point reads of \<open>src/concurrent/set.rs\<close>. The
  shared state is a record with the topology, a store from node addresses to node contents and the
  event counter. Every critical section is one definition: what a writer does under the structural
  read lock and one node lock, and what it does under the structural write guard. The set runs
  them one after the other; \<open>Interleaving\<close> lets threads run them in any order.
\<close>

record 'a cset =
  cs_index :: "'a topology"
  cs_nodes :: "addr \<Rightarrow> 'a list"
  cs_next :: addr
  cs_capacity :: nat
  cs_borrow_order_matches :: bool
  cs_event_id :: "64 word"

text \<open>The comparisons of \<open>T\<close> go through its key; the search of the nodes is a parameter.\<close>

record ('a, 'k) ops =
  op_key :: "'a \<Rightarrow> 'k"
  op_search :: "'a search_fn"
  op_adopt :: "'a \<Rightarrow> 'a \<Rightarrow> 'a"  \<comment> \<open>stored and incoming value to the adapted incoming value\<close>

definition no_identity_adoption :: "'a \<Rightarrow> 'a \<Rightarrow> 'a" where
  "no_identity_adoption stored incoming = incoming"

definition cset_with_maximum_node_size :: "nat \<Rightarrow> 'a cset" where
  "cset_with_maximum_node_size capacity = \<lparr> cs_index = topology_new, cs_nodes = (\<lambda>_. []), cs_next = 0,
     cs_capacity = capacity, cs_borrow_order_matches = True, cs_event_id = 0 \<rparr>"

definition cset_default :: "'a cset" where
  "cset_default = cset_with_maximum_node_size DEFAULT_INNER_SIZE"

definition with_grouped_borrow_routing :: "'a cset \<Rightarrow> 'a cset" where
  "with_grouped_borrow_routing s = s\<lparr> cs_borrow_order_matches := False \<rparr>"

section \<open>Events\<close>

definition next_event_id :: "'a cset \<Rightarrow> event_id \<times> 'a cset" where
  "next_event_id s = (Id (cs_event_id s), s\<lparr> cs_event_id := cs_event_id s + 1 \<rparr>)"

fun assign_events :: "'a change_event_unassigned list \<Rightarrow> 'a cset \<Rightarrow> 'a change_event list \<times> 'a cset" where
  "assign_events [] s = ([], s)"
| "assign_events (u # us) s =
     (let (i, s1) = next_event_id s; (evs, s2) = assign_events us s1 in (assign_id u i # evs, s2))"

text \<open>Emitting nothing when \<open>EMIT_CDC\<close> is false.\<close>

definition emit_events :: "bool \<Rightarrow> 'a change_event_unassigned list \<Rightarrow> 'a cset \<Rightarrow> 'a change_event list \<times> 'a cset" where
  "emit_events emit us s = (if emit then assign_events us s else ([], s))"

section \<open>Operation::commit\<close>

datatype 'a operation =
    Split addr 'a 'a
  | UpdateMax addr 'a

text \<open>
  Inserting the riding value into one half: the half afterwards, the value it replaced, whether
  it was new, and the events, whose \<open>max_value\<close> is the maximum of the half before.
\<close>

definition commit_insert ::
  "bool \<Rightarrow> ('a, 'k::linorder) ops \<Rightarrow> 'a list \<Rightarrow> 'a \<Rightarrow> 'a \<Rightarrow>
     ('a list \<times> 'a option \<times> bool \<times> 'a change_event_unassigned list) res" where
  "commit_insert emit P half mx v =
     rbind (node_insert (op_search P) (op_key P) half v) (\<lambda>((inserted, idx), half1).
     if inserted then Inr (half1, None, True, if emit then [UInsertAt mx v idx] else [])
     else
       (let committed = (case node_get_ith half1 idx of Some stored \<Rightarrow> op_adopt P stored v | None \<Rightarrow> v);
            (old, half2) = node_replace half1 idx committed
        in rbind (if emit then rbind (unwrap old) (\<lambda>o'. Inr [URemoveAt mx o' idx]) else Inr []) (\<lambda>removal.
           Inr (half2, old, False, removal @ (if emit then [UInsertAt mx committed idx] else [])))))"

text \<open>The left half keeps its address; it takes the value when its maximum is not below it.\<close>

definition commit_left ::
  "bool \<Rightarrow> ('a, 'k::linorder) ops \<Rightarrow> addr \<Rightarrow> 'a \<Rightarrow> 'a list \<Rightarrow> 'a write_guard \<Rightarrow>
     ('a list \<times> 'a option \<times> bool \<times> 'a change_event_unassigned list \<times> 'a write_guard) res" where
  "commit_left emit P old_node v half g =
     (case node_max half of
        None \<Rightarrow> Inr (half, None, False, [], g)
      | Some mx \<Rightarrow>
          rbind (if op_key P v \<le> op_key P mx
                 then rbind (commit_insert emit P half mx v) (\<lambda>(half', old, _, evs). Inr (half', old, True, evs))
                 else Inr (half, None, False, [])) (\<lambda>(half', old, attempted, evs).
          rbind (tg_insert (op_key P) g mx old_node) (\<lambda>(_, g').
          Inr (half', old, attempted, evs, g'))))"

definition commit_right ::
  "bool \<Rightarrow> ('a, 'k::linorder) ops \<Rightarrow> addr \<Rightarrow> 'a \<Rightarrow> bool \<Rightarrow> 'a list \<Rightarrow> 'a write_guard \<Rightarrow>
     ('a list option \<times> 'a option \<times> 'a change_event_unassigned list \<times> 'a write_guard) res" where
  "commit_right emit P new_node v attempted half g =
     (case node_max half of
        None \<Rightarrow> Inr (None, None, [], g)
      | Some mx \<Rightarrow>
          rbind (if \<not> attempted
                 then rbind (commit_insert emit P half mx v) (\<lambda>(half', old, inserted, evs).
                   Inr (half', old, if inserted \<and> op_key P mx < op_key P v then v else mx, evs))
                 else Inr (half, None, mx, [])) (\<lambda>(half', old, mx', evs).
          rbind (tg_insert (op_key P) g mx' new_node) (\<lambda>(_, g').
          Inr (Some half', old, evs, g'))))"

text \<open>The result of \<open>commit\<close> is \<open>None\<close> for \<open>Err(())\<close>; the new node takes the next address.\<close>

definition commit_split ::
  "bool \<Rightarrow> ('a, 'k::linorder) ops \<Rightarrow> addr \<Rightarrow> 'a \<Rightarrow> 'a \<Rightarrow> 'a cset \<Rightarrow> 'a write_guard \<Rightarrow>
     (('a option \<times> 'a change_event_unassigned list) option \<times> 'a cset \<times> 'a write_guard) res" where
  "commit_split emit P old_node old_max v s g =
     (if btm_get (op_key P) (op_key P old_max) (tg_canon g) \<noteq> Some old_node then Inr (None, s, g)
      else case node_max (cs_nodes s old_node) of
        None \<Rightarrow> Inr (None, s, g)
      | Some mx \<Rightarrow>
          rbind (tg_remove (op_key P) g (op_key P old_max)) (\<lambda>(_, g1).
          rbind (node_halve (cs_nodes s old_node)) (\<lambda>(left, right).
          let split_event = (if emit then [USplitNode mx (length left)] else []) in
          rbind (commit_left emit P old_node v left g1) (\<lambda>(left', old1, attempted, evs1, g2).
          rbind (commit_right emit P (cs_next s) v attempted right g2) (\<lambda>(right', old2, evs2, g3).
          let nodes = (cs_nodes s)(old_node := left');
              s' = (case right' of
                  None \<Rightarrow> s\<lparr> cs_nodes := nodes \<rparr>
                | Some n \<Rightarrow> s\<lparr> cs_nodes := nodes(cs_next s := n), cs_next := cs_next s + 1 \<rparr>)
          in Inr (Some (if attempted then old1 else old2, split_event @ evs1 @ evs2), s', g3))))))"

definition commit_update_max ::
  "('a, 'k::linorder) ops \<Rightarrow> addr \<Rightarrow> 'a \<Rightarrow> 'a cset \<Rightarrow> 'a write_guard \<Rightarrow>
     (('a option \<times> 'a change_event_unassigned list) option \<times> 'a cset \<times> 'a write_guard) res" where
  "commit_update_max P node old_max s g =
     (if btm_get (op_key P) (op_key P old_max) (tg_canon g) \<noteq> Some node then Inr (None, s, g)
      else case node_max (cs_nodes s node) of
        None \<Rightarrow> Inr (None, s, g)
      | Some new_max \<Rightarrow>
          if op_key P new_max \<noteq> op_key P old_max then
            if can_rekey_last_node_without_publication (op_key P) g node new_max then
              rbind (rekey_last_node (op_key P) g old_max new_max node) (\<lambda>g'. Inr (Some (None, []), s, g'))
            else
              rbind (enable_publication g) (\<lambda>g1.
              rbind (tg_remove (op_key P) g1 (op_key P old_max)) (\<lambda>(_, g2).
              rbind (tg_insert (op_key P) g2 new_max node) (\<lambda>(_, g3).
              Inr (Some (None, []), s, g3))))
          else Inr (Some (None, []), s, g))"

definition commit ::
  "bool \<Rightarrow> ('a, 'k::linorder) ops \<Rightarrow> 'a operation \<Rightarrow> 'a cset \<Rightarrow> 'a write_guard \<Rightarrow>
     (('a option \<times> 'a change_event_unassigned list) option \<times> 'a cset \<times> 'a write_guard) res" where
  "commit emit P operation s g =
     (case operation of
        Split old_node old_max v \<Rightarrow> commit_split emit P old_node old_max v s g
      | UpdateMax node old_max \<Rightarrow> commit_update_max P node old_max s g)"

section \<open>Routing\<close>

text \<open>\<open>BTreeMap::range\<close> and the linear scan of grouped entries find the same first entry.\<close>

definition first_for_borrowed_bound ::
  "('a \<Rightarrow> 'q::linorder) \<Rightarrow> 'a route list \<Rightarrow> 'q bound \<Rightarrow> bool \<Rightarrow> 'a route option" where
  "first_for_borrowed_bound b idx bound borrow_order_matches = btm_first_from b bound idx"

definition first_published_for_borrowed_bound ::
  "('a \<Rightarrow> 'q::linorder) \<Rightarrow> 'a published_node_index \<Rightarrow> 'q bound \<Rightarrow> bool \<Rightarrow> 'a route option res" where
  "first_published_for_borrowed_bound b p bound borrow_order_matches =
     (if borrow_order_matches then first_for_bound b p bound
      else Inr (find (\<lambda>r. above b bound (fst r)) (pub_iter p)))"

definition or_else :: "'x option \<Rightarrow> 'x option \<Rightarrow> 'x option" where
  "or_else x y = (case x of Some v \<Rightarrow> Some v | None \<Rightarrow> y)"

section \<open>Insertion\<close>

text \<open>
  Under the structural read lock and the lock of the target node: the value is inserted, found
  present (\<open>Err\<close> with the node still locked), or the insertion needs the structural write guard.
\<close>

datatype 'a put_outcome =
    PutDone "'a option" "'a change_event list"
  | PutOccupied addr nat 'a
  | PutPending "'a operation" "'a change_event list"
  | PutRoot

definition put_target :: "('a, 'k::linorder) ops \<Rightarrow> 'a \<Rightarrow> 'a route list \<Rightarrow> 'a route option" where
  "put_target P v idx = or_else (btm_first_from (op_key P) (Included (op_key P v)) idx) (vec_last idx)"

definition put_attempt ::
  "bool \<Rightarrow> ('a, 'k::linorder) ops \<Rightarrow> 'a \<Rightarrow> 'a cset \<Rightarrow> ('a put_outcome \<times> 'a cset) res" where
  "put_attempt emit P v s =
     (case put_target P v (canon (cs_index s)) of
        None \<Rightarrow> Inr (PutRoot, s)
      | Some (key, a) \<Rightarrow>
          (let node = cs_nodes s a in
           if \<not> node_need_to_split node (cs_capacity s) v then
             (let old_max = node_max node in
              rbind (node_insert (op_search P) (op_key P) node v) (\<lambda>((inserted, idx), node').
              let s1 = s\<lparr> cs_nodes := (cs_nodes s)(a := node') \<rparr> in
              if inserted then
                (let (evs, s2) = (case old_max of
                     Some m \<Rightarrow> emit_events emit [UInsertAt m v idx] s1
                   | None \<Rightarrow> ([], s1))
                 in if map_option (op_key P) (node_max node') = map_option (op_key P) old_max
                    then Inr (PutDone None evs, s2)
                    else Inr (PutPending (UpdateMax a key) evs, s2))
              else rbind (unwrap old_max) (\<lambda>m. Inr (PutOccupied a idx m, s1))))
           else Inr (PutPending (Split a key v) [], s)))"

text \<open>The first node of an empty set, under the write guard; \<open>None\<close> when another writer was first.\<close>

definition put_root ::
  "bool \<Rightarrow> ('a, 'k::linorder) ops \<Rightarrow> 'a \<Rightarrow> 'a cset \<Rightarrow> 'a write_guard \<Rightarrow>
     ('a change_event list option \<times> 'a cset \<times> 'a write_guard) res" where
  "put_root emit P v s g =
     (if tg_canon g \<noteq> [] then Inr (None, s, g)
      else
        rbind (node_insert (op_search P) (op_key P) (node_with_capacity (cs_capacity s)) v) (\<lambda>(_, first_node).
        let (evs, s1) = emit_events emit [UCreateNode v] s in
        rbind (tg_insert (op_key P) g v (cs_next s1)) (\<lambda>(_, g').
        Inr (Some evs, s1\<lparr> cs_nodes := (cs_nodes s1)(cs_next s1 := first_node), cs_next := cs_next s1 + 1 \<rparr>, g'))))"

text \<open>Committing the pending operation of an insertion; \<open>None\<close> is the retry after a failed split.\<close>

definition put_commit ::
  "bool \<Rightarrow> ('a, 'k::linorder) ops \<Rightarrow> 'a operation \<Rightarrow> 'a change_event list \<Rightarrow> 'a cset \<Rightarrow> 'a write_guard \<Rightarrow>
     (('a option \<times> 'a change_event list) option \<times> 'a cset \<times> 'a write_guard) res" where
  "put_commit emit P operation cdc s g =
     rbind (commit emit P operation s g) (\<lambda>(r, s1, g1).
     case r of
       Some (value, value_cdc) \<Rightarrow>
         (let (evs, s2) = emit_events emit value_cdc s1 in Inr (Some (value, cdc @ evs), s2, g1))
     | None \<Rightarrow> (case operation of
           Split _ _ _ \<Rightarrow> Inr (None, s1, g1)
         | UpdateMax _ _ \<Rightarrow> Inr (Some (None, cdc), s1, g1)))"

text \<open>
  Replacing the stored value in place, the node still locked. A replaced only element is announced
  as its node removed and created again; a replaced maximum under the element before it.
\<close>

definition replace_events ::
  "bool \<Rightarrow> 'a list \<Rightarrow> nat \<Rightarrow> 'a \<Rightarrow> 'a \<Rightarrow> 'a \<Rightarrow> 'a change_event_unassigned list res" where
  "replace_events emit node idx mx old_value v =
     (if \<not> emit then Inr []
      else if length node = 1 then Inr [URemoveNode mx, UCreateNode v]
      else rbind (usize_sub (length node) 1) (\<lambda>last_idx.
        if idx = last_idx then
          rbind (unwrap (if length node \<le> 1 then None else node_get_ith node (length node - 2))) (\<lambda>new_max.
          Inr [URemoveAt mx old_value idx, UInsertAt new_max v idx])
        else Inr [URemoveAt mx old_value idx, UInsertAt mx v idx]))"

definition put_replace ::
  "bool \<Rightarrow> ('a, 'k::linorder) ops \<Rightarrow> 'a \<Rightarrow> addr \<Rightarrow> nat \<Rightarrow> 'a \<Rightarrow> 'a cset \<Rightarrow>
     (('a option \<times> 'a change_event list) \<times> 'a cset) res" where
  "put_replace emit P v a idx mx s =
     (let node = cs_nodes s a in
      rbind (unwrap (node_get_ith node idx)) (\<lambda>old_value.
      let v' = op_adopt P old_value v in
      rbind (replace_events emit node idx mx old_value v') (\<lambda>us.
      let (evs, s1) = emit_events emit us s;
          (old, node') = node_replace node idx v'
      in Inr ((old, evs), s1\<lparr> cs_nodes := (cs_nodes s1)(a := node') \<rparr>))))"

section \<open>Removal\<close>

datatype 'a remove_outcome =
    RemoveDone "'a option" "'a change_event list"
  | RemoveSingleton
  | RemoveRepair 'a "'a change_event list" "'a operation"

definition remove_target ::
  "('a \<Rightarrow> 'q::linorder) \<Rightarrow> 'q \<Rightarrow> 'a cset \<Rightarrow> 'a route list \<Rightarrow> 'a route option" where
  "remove_target b q s idx =
     or_else (first_for_borrowed_bound b idx (Included q) (cs_borrow_order_matches s)) (vec_last idx)"

definition remove_attempt ::
  "bool \<Rightarrow> ('a, 'k::linorder) ops \<Rightarrow> ('a \<Rightarrow> 'q::linorder) \<Rightarrow> 'q \<Rightarrow> 'a cset \<Rightarrow>
     ('a remove_outcome \<times> 'a cset) res" where
  "remove_attempt emit P b q s =
     (case remove_target b q s (canon (cs_index s)) of
        None \<Rightarrow> Inr (RemoveDone None [], s)
      | Some (key, a) \<Rightarrow>
          (let node = cs_nodes s a in
           if length node \<le> 1 then
             rbind (node_contains (op_search P) b node q) (\<lambda>present.
             Inr (if present then RemoveSingleton else RemoveDone None [], s))
           else
             (let old_max = node_max node in
              rbind (node_delete (op_search P) b node q) (\<lambda>(deleted, node').
              case deleted of
                None \<Rightarrow> Inr (RemoveDone None [], s)
              | Some (x, idx) \<Rightarrow>
                  rbind (if emit then rbind (unwrap old_max) (\<lambda>m. Inr [URemoveAt m x idx]) else Inr []) (\<lambda>us.
                  let (evs, s1) = emit_events emit us (s\<lparr> cs_nodes := (cs_nodes s)(a := node') \<rparr>)
                  in Inr (if map_option (op_key P) old_max \<noteq> map_option (op_key P) (node_max node')
                          then RemoveRepair x evs (UpdateMax a key) else RemoveDone (Some x) evs, s1))))))"

text \<open>
  Removing the last element of a node, under the write guard after routing again; \<open>None\<close> is the
  retry when the node has grown.
\<close>

definition remove_singleton ::
  "bool \<Rightarrow> ('a, 'k::linorder) ops \<Rightarrow> ('a \<Rightarrow> 'q::linorder) \<Rightarrow> 'q \<Rightarrow> 'a cset \<Rightarrow> 'a write_guard \<Rightarrow>
     (('a option \<times> 'a change_event list) option \<times> 'a cset \<times> 'a write_guard) res" where
  "remove_singleton emit P b q s g =
     (case remove_target b q s (tg_canon g) of
        None \<Rightarrow> Inr (Some (None, []), s, g)
      | Some (key, a) \<Rightarrow>
          (let node = cs_nodes s a in
           if 1 < length node then Inr (None, s, g)
           else
             rbind (node_delete (op_search P) b node q) (\<lambda>(deleted, node').
             case deleted of
               None \<Rightarrow> Inr (Some (None, []), s, g)
             | Some (x, _) \<Rightarrow>
                 rbind (tg_remove (op_key P) g (op_key P key)) (\<lambda>(_, g').
                 let (evs, s1) = emit_events emit [URemoveNode x] (s\<lparr> cs_nodes := (cs_nodes s)(a := node') \<rparr>)
                 in Inr (Some (Some x, evs), s1, g')))))"

section \<open>Point reads\<close>

definition read_target_canonical ::
  "('a \<Rightarrow> 'q::linorder) \<Rightarrow> 'q \<Rightarrow> bool \<Rightarrow> 'a route list \<Rightarrow> addr option" where
  "read_target_canonical b q borrow_order_matches idx =
     map_option snd (or_else (or_else (first_for_borrowed_bound b idx (Included q) borrow_order_matches)
       (vec_last idx)) (vec_first idx))"

definition read_target_published ::
  "('a \<Rightarrow> 'q::linorder) \<Rightarrow> 'q \<Rightarrow> bool \<Rightarrow> 'a published_node_index \<Rightarrow> addr option res" where
  "read_target_published b q borrow_order_matches p =
     rbind (first_published_for_borrowed_bound b p (Included q) borrow_order_matches) (\<lambda>r.
     Inr (map_option snd (or_else (or_else r (pub_last_key_value p)) (pub_first_key_value p))))"

definition get_with_guard ::
  "'a search_fn \<Rightarrow> ('a \<Rightarrow> 'q::linorder) \<Rightarrow> 'a list \<Rightarrow> 'q \<Rightarrow> ('a \<Rightarrow> 'r) \<Rightarrow> 'r option res" where
  "get_with_guard srch b node q read =
     rbind (node_try_select srch b node q) (\<lambda>position.
     Inr (case position of None \<Rightarrow> None | Some i \<Rightarrow> map_option read (node_get_ith node i)))"

definition get_with_optimistic ::
  "'a search_fn \<Rightarrow> ('a \<Rightarrow> 'q::linorder) \<Rightarrow> 'q \<Rightarrow> ('a \<Rightarrow> 'r) \<Rightarrow> 'a cset \<Rightarrow> 'r option res" where
  "get_with_optimistic srch b q read s =
     (case read_target_canonical b q (cs_borrow_order_matches s) (canon (cs_index s)) of
        None \<Rightarrow> Inr None
      | Some a \<Rightarrow> get_with_guard srch b (cs_nodes s a) q read)"

section \<open>Whole operations without interference\<close>

text \<open>Running a section under the write guard and dropping the guard.\<close>

definition guarded ::
  "('a, 'k::linorder) ops \<Rightarrow> 'a write_guard \<Rightarrow> ('a cset \<Rightarrow> 'a write_guard \<Rightarrow> ('r \<times> 'a cset \<times> 'a write_guard) res) \<Rightarrow>
     'a cset \<Rightarrow> ('r \<times> 'a cset) res" where
  "guarded P g act s =
     rbind (act s g) (\<lambda>(r, s1, g1).
     rbind (drop_guard (op_key P) g1) (\<lambda>t.
     Inr (r, s1\<lparr> cs_index := t \<rparr>)))"

definition guard_for :: "'a operation \<Rightarrow> 'a topology \<Rightarrow> 'a write_guard" where
  "guard_for operation t =
     (case operation of UpdateMax _ _ \<Rightarrow> topology_write_rekey t | Split _ _ _ \<Rightarrow> topology_write t)"

text \<open>The retry loop, with fuel: \<open>None\<close> when it runs out.\<close>

fun put_checked_inner ::
  "nat \<Rightarrow> bool \<Rightarrow> ('a, 'k::linorder) ops \<Rightarrow> 'a \<Rightarrow> 'a cset \<Rightarrow>
     (('a option \<times> 'a change_event list, addr \<times> nat \<times> 'a) rust_result \<times> 'a cset) option res" where
  "put_checked_inner 0 emit P v s = Inr None"
| "put_checked_inner (Suc n) emit P v s =
     rbind (put_attempt emit P v s) (\<lambda>(r, s1).
     case r of
       PutDone old evs \<Rightarrow> Inr (Some (Ok (old, evs), s1))
     | PutOccupied a idx mx \<Rightarrow> Inr (Some (Err (a, idx, mx), s1))
     | PutPending operation evs \<Rightarrow>
         rbind (guarded P (guard_for operation (cs_index s1)) (put_commit emit P operation evs) s1) (\<lambda>(r, s2).
         case r of Some x \<Rightarrow> Inr (Some (Ok x, s2)) | None \<Rightarrow> put_checked_inner n emit P v s2)
     | PutRoot \<Rightarrow>
         rbind (guarded P (topology_write (cs_index s1)) (put_root emit P v) s1) (\<lambda>(r, s2).
         case r of Some evs \<Rightarrow> Inr (Some (Ok (None, evs), s2)) | None \<Rightarrow> put_checked_inner n emit P v s2))"

definition put_inner ::
  "nat \<Rightarrow> bool \<Rightarrow> ('a, 'k::linorder) ops \<Rightarrow> 'a \<Rightarrow> 'a cset \<Rightarrow> (('a option \<times> 'a change_event list) \<times> 'a cset) option res" where
  "put_inner n emit P v s =
     rbind (put_checked_inner n emit P v s) (\<lambda>r. case r of
        None \<Rightarrow> Inr None
      | Some (Ok x, s1) \<Rightarrow> Inr (Some (x, s1))
      | Some (Err (a, idx, mx), s1) \<Rightarrow> rbind (put_replace emit P v a idx mx s1) (\<lambda>x. Inr (Some x)))"

fun remove_inner ::
  "nat \<Rightarrow> bool \<Rightarrow> ('a, 'k::linorder) ops \<Rightarrow> ('a \<Rightarrow> 'q::linorder) \<Rightarrow> 'q \<Rightarrow> 'a cset \<Rightarrow>
     (('a option \<times> 'a change_event list) \<times> 'a cset) option res" where
  "remove_inner 0 emit P b q s = Inr None"
| "remove_inner (Suc n) emit P b q s =
     rbind (remove_attempt emit P b q s) (\<lambda>(r, s1).
     case r of
       RemoveDone old evs \<Rightarrow> Inr (Some ((old, evs), s1))
     | RemoveRepair x evs operation \<Rightarrow>
         rbind (guarded P (topology_write_rekey (cs_index s1)) (commit False P operation) s1) (\<lambda>(_, s2).
         Inr (Some ((Some x, evs), s2)))
     | RemoveSingleton \<Rightarrow>
         rbind (guarded P (topology_write (cs_index s1)) (remove_singleton emit P b q) s1) (\<lambda>(r, s2).
         case r of Some x \<Rightarrow> Inr (Some (x, s2)) | None \<Rightarrow> remove_inner n emit P b q s2))"

text \<open>The crate-internal forms; \<open>put_with\<close> and \<open>put_cdc_with\<close> are the first two with another \<open>op_adopt\<close>.\<close>

definition cset_put :: "nat \<Rightarrow> ('a, 'k::linorder) ops \<Rightarrow> 'a \<Rightarrow> 'a cset \<Rightarrow> ('a option \<times> 'a cset) option res" where
  "cset_put n P v s = rbind (put_inner n False P v s) (\<lambda>r. Inr (map_option (\<lambda>((old, _), s1). (old, s1)) r))"

definition cset_put_cdc ::
  "nat \<Rightarrow> ('a, 'k::linorder) ops \<Rightarrow> 'a \<Rightarrow> 'a cset \<Rightarrow> (('a option \<times> 'a change_event list) \<times> 'a cset) option res" where
  "cset_put_cdc n P v s = put_inner n True P v s"

definition cset_put_checked ::
  "nat \<Rightarrow> ('a, 'k::linorder) ops \<Rightarrow> 'a \<Rightarrow> 'a cset \<Rightarrow>
     (('a option \<times> 'a change_event list, addr \<times> nat \<times> 'a) rust_result \<times> 'a cset) option res" where
  "cset_put_checked n P v s = put_checked_inner n False P v s"

definition cset_put_cdc_checked ::
  "nat \<Rightarrow> ('a, 'k::linorder) ops \<Rightarrow> 'a \<Rightarrow> 'a cset \<Rightarrow>
     (('a option \<times> 'a change_event list, addr \<times> nat \<times> 'a) rust_result \<times> 'a cset) option res" where
  "cset_put_cdc_checked n P v s = put_checked_inner n True P v s"

definition cset_insert :: "nat \<Rightarrow> ('a, 'k::linorder) ops \<Rightarrow> 'a \<Rightarrow> 'a cset \<Rightarrow> (bool \<times> 'a cset) option res" where
  "cset_insert n P v s =
     rbind (put_inner n False P v s) (\<lambda>r. Inr (map_option (\<lambda>((old, _), s1). (old = None, s1)) r))"

text \<open>\<open>for_each(|item| { btree.insert(item); })\<close>, the loop of \<open>from_iter\<close> and \<open>from\<close>.\<close>

fun insert_each :: "nat \<Rightarrow> ('a, 'k::linorder) ops \<Rightarrow> 'a list \<Rightarrow> 'a cset \<Rightarrow> 'a cset option res" where
  "insert_each n P [] s = Inr (Some s)"
| "insert_each n P (v # vs) s =
     rbind (cset_insert n P v s) (\<lambda>r. case r of None \<Rightarrow> Inr None | Some (_, s') \<Rightarrow> insert_each n P vs s')"

definition cset_from_iter :: "nat \<Rightarrow> ('a, 'k::linorder) ops \<Rightarrow> 'a list \<Rightarrow> 'a cset option res" where
  "cset_from_iter n P vs = insert_each n P vs cset_default"

definition cset_remove ::
  "nat \<Rightarrow> ('a, 'k::linorder) ops \<Rightarrow> ('a \<Rightarrow> 'q::linorder) \<Rightarrow> 'q \<Rightarrow> 'a cset \<Rightarrow> ('a option \<times> 'a cset) option res" where
  "cset_remove n P b q s =
     rbind (remove_inner n False P b q s) (\<lambda>r. Inr (map_option (\<lambda>((old, _), s1). (old, s1)) r))"

definition cset_remove_cdc ::
  "nat \<Rightarrow> ('a, 'k::linorder) ops \<Rightarrow> ('a \<Rightarrow> 'q::linorder) \<Rightarrow> 'q \<Rightarrow> 'a cset \<Rightarrow>
     (('a option \<times> 'a change_event list) \<times> 'a cset) option res" where
  "cset_remove_cdc n P b q s = remove_inner n True P b q s"

definition cset_len :: "'a cset \<Rightarrow> nat" where
  "cset_len s = sum_list (map (\<lambda>(_, a). length (cs_nodes s a)) (canon (cs_index s)))"

definition cset_is_empty :: "'a cset \<Rightarrow> bool" where
  "cset_is_empty s \<longleftrightarrow> list_all (\<lambda>(_, a). node_is_empty (cs_nodes s a)) (canon (cs_index s))"

definition cset_node_count :: "'a cset \<Rightarrow> nat" where
  "cset_node_count s = length (canon (cs_index s))"

section \<open>Attaching and exporting nodes\<close>

fun attach_loop :: "('a, 'k::linorder) ops \<Rightarrow> 'a list list \<Rightarrow> 'a cset \<Rightarrow> 'a write_guard \<Rightarrow> (unit \<times> 'a cset \<times> 'a write_guard) res" where
  "attach_loop P [] s g = Inr ((), s, g)"
| "attach_loop P (n # ns) s g =
     rbind (unwrap (node_max n)) (\<lambda>node_id.
     rbind (insert_after_last_route_repair (op_key P) g node_id (cs_next s)) (\<lambda>(_, g').
     attach_loop P ns (s\<lparr> cs_nodes := (cs_nodes s)(cs_next s := n), cs_next := cs_next s + 1 \<rparr>) g'))"

definition attach_nodes :: "('a, 'k::linorder) ops \<Rightarrow> 'a list list \<Rightarrow> 'a cset \<Rightarrow> 'a cset res" where
  "attach_nodes P ns s =
     (if ns = [] then Inr s
      else rbind (guarded P (topology_write (cs_index s)) (\<lambda>s g.
          rbind (repair_last_route_before_insert (op_key P) g) (attach_loop P ns s)) s) (\<lambda>(_, s'). Inr s'))"

definition attach_node :: "('a, 'k::linorder) ops \<Rightarrow> 'a list \<Rightarrow> 'a cset \<Rightarrow> 'a cset res" where
  "attach_node P n s = attach_nodes P [n] s"

definition export_topology :: "'a cset \<Rightarrow> nat \<times> 'a list list" where
  "export_topology s = (cs_capacity s, map (\<lambda>(_, a). cs_nodes s a) (canon (cs_index s)))"

end
