(* ===== verification/Topology_Facts.thy ===== *)
theory Topology_Facts
  imports Topology
begin

text \<open>
  The publication invariant of \<open>Topology\<close>: every canonical node appears once and in the same
  order in the published route index, and at most the route key of the last node is stale. Every
  operation of a write guard keeps it, no debug assertion fails, and the canonical index changes
  like a plain ordered map.
\<close>

section \<open>The publication invariant\<close>

definition keys_ok :: "('a \<Rightarrow> 'k::linorder) \<Rightarrow> 'a route list \<Rightarrow> (addr \<times> 'a) list \<Rightarrow> bool" where
  "keys_ok k rts keys \<longleftrightarrow> sorted_keys fst keys \<and> fst ` set keys = snd ` set rts \<and>
     (\<forall>(key, a)\<in>set rts. map_option k (btm_get id a keys) = Some (k key))"

definition in_step ::
  "('a \<Rightarrow> 'k::linorder) \<Rightarrow> 'a route list \<Rightarrow> 'a published_node_index \<Rightarrow> (addr \<times> 'a) list \<Rightarrow> bool" where
  "in_step k idx p keys \<longleftrightarrow> sorted_keys (k \<circ> fst) idx \<and> distinct (map snd idx) \<and> pub_ok k p \<and>
     map snd (pub_iter p) = map snd idx \<and>
     butlast (map (k \<circ> fst) (pub_iter p)) = butlast (map (k \<circ> fst) idx) \<and> keys_ok k (pub_iter p) keys"

definition exact_step ::
  "('a \<Rightarrow> 'k::linorder) \<Rightarrow> 'a route list \<Rightarrow> 'a published_node_index \<Rightarrow> (addr \<times> 'a) list \<Rightarrow> bool" where
  "exact_step k idx p keys \<longleftrightarrow> in_step k idx p keys \<and> map (k \<circ> fst) (pub_iter p) = map (k \<circ> fst) idx"

definition topology_ok :: "('a \<Rightarrow> 'k::linorder) \<Rightarrow> 'a topology \<Rightarrow> bool" where
  "topology_ok k t \<longleftrightarrow> in_step k (canon t) (published t) (published_keys t) \<and> even (generation t)"

text \<open>An open guard: the copy it carries, or the published index while it has none, is in step.\<close>

definition tg_side :: "'a write_guard \<Rightarrow> 'a published_node_index" where
  "tg_side g = (case tg_published g of Some p \<Rightarrow> p | None \<Rightarrow> published (tg_topology g))"

definition guard_ok :: "('a \<Rightarrow> 'k::linorder) \<Rightarrow> 'a write_guard \<Rightarrow> bool" where
  "guard_ok k g \<longleftrightarrow> in_step k (tg_canon g) (tg_side g) (published_keys (tg_topology g)) \<and>
     (tg_published g \<noteq> None \<longrightarrow> tg_publish g \<and> tg_keys g) \<and> (tg_publish g \<and> tg_dirty g \<longrightarrow> tg_published g \<noteq> None) \<and>
     (\<not> tg_dirty g \<longrightarrow> tg_side g = published (tg_topology g)) \<and>
     (tg_publish g \<longleftrightarrow> odd (generation (tg_topology g)))"

definition guard_exact :: "('a \<Rightarrow> 'k::linorder) \<Rightarrow> 'a write_guard \<Rightarrow> bool" where
  "guard_exact k g \<longleftrightarrow> guard_ok k g \<and> exact_step k (tg_canon g) (tg_side g) (published_keys (tg_topology g))"

lemma in_stepD:
  assumes "in_step k idx p keys"
  shows "sorted_keys (k \<circ> fst) idx" "distinct (map snd idx)" "pub_ok k p" "map snd (pub_iter p) = map snd idx"
    "butlast (map (k \<circ> fst) (pub_iter p)) = butlast (map (k \<circ> fst) idx)" "keys_ok k (pub_iter p) keys"
    "sorted_keys (k \<circ> fst) (pub_iter p)" "length (pub_iter p) = length idx"
  using assms by (auto simp: in_step_def pub_ok_def dest: map_eq_imp_length_eq)

lemma keys_ok_get:
  assumes "keys_ok k rts keys" and "(key, a) \<in> set rts"
  obtains key' where "btm_get id a keys = Some key'" "k key' = k key"
  using assms by (fastforce simp: keys_ok_def)

lemma keys_ok_length:
  assumes "keys_ok k rts keys" and "distinct (map snd rts)"
  shows "length keys = length rts"
proof -
  have "distinct (map fst keys)"
    using assms(1) sorted_keys_distinct [of fst keys] by (simp add: keys_ok_def)
  then have "length keys = card (fst ` set keys)"
    by (metis distinct_card length_map set_map)
  also have "\<dots> = card (snd ` set rts)"
    using assms(1) by (simp add: keys_ok_def)
  also have "\<dots> = length rts"
    using assms(2) by (metis distinct_card length_map set_map)
  finally show ?thesis .
qed

section \<open>The reverse lookup\<close>

lemma btm_get_map_of: "btm_get id a keys = map_of keys a"
  by (induction keys) (auto simp: btm_get_def find_key_def)

lemma map_of_btm_insert:
  shows "map_of (snd (btm_insert id c v keys)) = (map_of keys)(c \<mapsto> v)"
    and "sorted_keys fst keys \<Longrightarrow> sorted_keys fst (snd (btm_insert id c v keys))"
proof -
  have "map_of (map (replace_at id c v) keys) x = (if x = c \<and> has_key fst c keys then Some v else map_of keys x)" for x
    by (induction keys) (auto simp: replace_at_def)
  then have old: "map_of (map (replace_at id c v) keys) = (map_of keys)(c \<mapsto> v)" if "has_key fst c keys"
    using that by auto
  have new: "map_of (ins_key fst (c, v) keys) = (map_of keys)(c \<mapsto> v)" if "\<not> has_key fst c keys"
  proof -
    let ?P = "\<lambda>x. fst x < c"
    have "c \<notin> dom (map_of (takeWhile ?P keys))"
      using that by (auto simp: dom_map_of_conv_image_fst has_key_def dest: set_takeWhileD)
    then have "map_of (takeWhile ?P keys @ (c, v) # dropWhile ?P keys) =
        (map_of (takeWhile ?P keys @ dropWhile ?P keys))(c \<mapsto> v)"
      by (auto simp: fun_eq_iff map_add_def simp del: takeWhile_dropWhile_id split: option.splits)
    then show ?thesis
      using that by (simp add: ins_key_def)
  qed
  show "map_of (snd (btm_insert id c v keys)) = (map_of keys)(c \<mapsto> v)"
    using old new by (simp add: btm_insert_alt)
  show "sorted_keys fst keys \<Longrightarrow> sorted_keys fst (snd (btm_insert id c v keys))"
    using replace_at_sorted [of id c v keys] sorted_ins_key [of fst keys "(c, v)"] by (simp add: btm_insert_alt)
qed

lemma map_of_btm_remove:
  shows "map_of (snd (btm_remove id c keys)) = (map_of keys)(c := None)"
    and "sorted_keys fst keys \<Longrightarrow> sorted_keys fst (snd (btm_remove id c keys))"
proof -
  show "map_of (snd (btm_remove id c keys)) = (map_of keys)(c := None)"
    by (induction keys) (auto simp: btm_remove_def del_key_def fun_eq_iff)
qed (simp add: btm_remove_def sorted_del_key)

lemma keys_ok_map_of:
  "keys_ok k rts keys \<longleftrightarrow> sorted_keys fst keys \<and> dom (map_of keys) = snd ` set rts \<and>
     (\<forall>(key, a)\<in>set rts. map_option k (map_of keys a) = Some (k key))"
  by (simp add: keys_ok_def btm_get_map_of dom_map_of_conv_image_fst)

lemma keys_ok_insert:
  assumes "keys_ok k rts keys" and "set rts' = insert (key, a) (set rts)" and "a \<notin> snd ` set rts"
  shows "keys_ok k rts' (snd (btm_insert id a key keys))"
  using assms map_of_btm_insert [where c = a and v = key and keys = keys] by (fastforce simp: keys_ok_map_of)

lemma keys_ok_remove:
  assumes "keys_ok k rts keys" and "set rts = insert (key, a) (set rts')" and "a \<notin> snd ` set rts'"
  shows "keys_ok k rts' (snd (btm_remove id a keys))"
proof -
  have upd: "map_of (snd (btm_remove id a keys)) = (map_of keys)(a := None)"
    by (rule map_of_btm_remove)
  have "dom (map_of keys) = insert a (snd ` set rts')"
    using assms(1,2) by (simp add: keys_ok_map_of)
  then have "dom (map_of (snd (btm_remove id a keys))) = snd ` set rts'"
    using assms(3) by (simp add: upd)
  moreover have "map_option k (map_of (snd (btm_remove id a keys)) a') = Some (k key')" if "(key', a') \<in> set rts'" for key' a'
  proof -
    have "a' \<noteq> a"
      using that assms(3) by force
    then show ?thesis
      using that assms(1,2) unfolding keys_ok_map_of upd by auto
  qed
  moreover have "sorted_keys fst (snd (btm_remove id a keys))"
    using assms(1) by (intro map_of_btm_remove(2)) (simp add: keys_ok_def)
  ultimately show ?thesis
    unfolding keys_ok_map_of by blast
qed

lemma keys_ok_cong:
  assumes "keys_ok k rts keys" and "map snd rts' = map snd rts" and "map (k \<circ> fst) rts' = map (k \<circ> fst) rts"
  shows "keys_ok k rts' keys"
proof -
  have len: "length rts' = length rts"
    using assms(2) by (rule map_eq_imp_length_eq)
  have "\<exists>key'. (key', a) \<in> set rts \<and> k key' = k key" if "(key, a) \<in> set rts'" for key a
  proof -
    obtain i where i: "i < length rts'" "rts' ! i = (key, a)"
      using \<open>(key, a) \<in> set rts'\<close> by (auto simp: in_set_conv_nth)
    have "snd (rts ! i) = a" "k (fst (rts ! i)) = k key"
      using i len arg_cong [OF assms(2), of "\<lambda>xs. xs ! i"] arg_cong [OF assms(3), of "\<lambda>xs. xs ! i"] by auto
    then show ?thesis
      using i(1) len by (metis nth_mem prod.collapse)
  qed
  moreover have "snd ` set rts' = snd ` set rts"
    using assms(2) by (metis set_map)
  ultimately show ?thesis
    using assms(1) unfolding keys_ok_map_of by fastforce
qed

lemma rebuilt_keys_ok:
  assumes "distinct (map snd idx)"
  shows "keys_ok k idx (fold put_identity idx [])"
proof -
  have "keys_ok k (rts @ idx) (fold put_identity idx keys)"
    if "keys_ok k rts keys" "distinct (map snd (rts @ idx))" for rts keys
    using that
  proof (induction idx arbitrary: rts keys)
    case (Cons r idx)
    obtain key a where r: "r = (key, a)" by force
    have "keys_ok k (rts @ [r]) (put_identity r keys)"
      using Cons.prems r unfolding put_identity_def by (intro keys_ok_insert) auto
    then show ?case
      using Cons.IH [of "rts @ [r]" "put_identity r keys"] Cons.prems(2) by auto
  qed simp
  from this [of "[]" "[]"] show ?thesis
    using assms by (simp add: keys_ok_def)
qed

section \<open>Keeping the routes in step\<close>

lemma butlast_drop_mid:
  assumes "butlast (u1 @ x1 # v1) = butlast (u2 @ x2 # v2)" and "length u1 = length u2" and "length v1 = length v2"
  shows "butlast (u1 @ v1) = butlast (u2 @ v2)"
  using assms by (cases "v1 = []"; cases "v2 = []") (auto simp: butlast_append)

text \<open>Removing a canonical entry and the route of its node.\<close>

lemma in_step_remove:
  assumes "in_step k idx p keys" and "btm_get k q idx = Some a"
  obtains key p' where "btm_get id a keys = Some key" "pub_remove k p (k key) = Inr (Some a, p')"
    "in_step k (del_key (k \<circ> fst) q idx) p' (snd (btm_remove id a keys))"
proof -
  let ?f = "k \<circ> fst" and ?rts = "pub_iter p"
  note st = in_stepD [OF assms(1)]
  obtain x where "find_key ?f q idx = Some (x, a)"
    using assms(2) by (auto simp: btm_get_def)
  then have x: "(x, a) \<in> set idx" "k x = q"
    using find_key_Some by fastforce+
  then obtain n where n: "n < length idx" "idx ! n = (x, a)"
    by (auto simp: in_set_conv_nth)
  let ?A = "take n idx" and ?B = "drop (Suc n) idx" and ?A' = "take n ?rts" and ?B' = "drop (Suc n) ?rts"
  have idx: "idx = ?A @ (x, a) # ?B"
    using id_take_nth_drop [OF n(1)] n(2) by simp
  have nr: "n < length ?rts"
    using n(1) st(8) by simp
  have a: "snd (?rts ! n) = a"
    using arg_cong [OF st(4), of "\<lambda>xs. xs ! n"] n nr by simp
  then obtain y where y: "?rts ! n = (y, a)"
    by (cases "?rts ! n") auto
  have rts: "?rts = ?A' @ (y, a) # ?B'"
    using id_take_nth_drop [OF nr] y by simp
  have "(y, a) \<in> set ?rts"
    using nr y by (metis nth_mem)
  then obtain key where key: "btm_get id a keys = Some key" "k key = k y"
    using keys_ok_get [OF st(6)] by blast
  have fy: "?f (?rts ! n) = k y"
    by (simp add: y)
  obtain p' where p': "pub_remove k p (k key) = Inr (btm_get k (k key) ?rts, p')" "pub_ok k p'"
    "pub_iter p' = del_key ?f (k key) ?rts"
    using pub_remove_ok [OF st(3)] by blast
  have iter: "pub_iter p' = ?A' @ ?B'"
    using p'(3) del_key_nth [OF st(7) nr] fy key(2) by simp
  have found: "btm_get k (k key) ?rts = Some a"
    using find_key_nth [OF st(7) nr] fy key(2) y by (simp add: btm_get_def)
  have del: "del_key ?f q idx = ?A @ ?B"
    using del_key_nth [OF st(1) n(1)] n(2) x(2) by simp
  have "distinct (map snd (?A @ (x, a) # ?B))"
    using st(2) idx by simp
  then have dist: "distinct (map snd (?A @ ?B))"
    by auto
  have "distinct (map snd (?A' @ (y, a) # ?B'))"
    using st(2,4) rts by simp
  then have "a \<notin> snd ` set (?A' @ ?B')"
    by auto
  moreover have "set ?rts = insert (y, a) (set (?A' @ ?B'))"
    by (subst rts) simp
  ultimately have "keys_ok k (?A' @ ?B') (snd (btm_remove id a keys))"
    using keys_ok_remove [OF st(6)] by blast
  moreover have "map snd (?A' @ ?B') = map snd (?A @ ?B)"
    by (simp only: map_append take_map [symmetric] drop_map [symmetric] st(4))
  moreover have "butlast (map ?f (?A' @ ?B')) = butlast (map ?f (?A @ ?B))"
  proof -
    have "butlast (map ?f ?A' @ k y # map ?f ?B') = butlast (map ?f ?A @ k x # map ?f ?B)"
      using st(5) unfolding arg_cong [OF idx, of "map ?f"] arg_cong [OF rts, of "map ?f"] map_append by simp
    then show ?thesis
      unfolding map_append by (rule butlast_drop_mid) (simp_all add: st(8))
  qed
  moreover have "sorted_keys ?f (?A @ ?B)"
    using sorted_del_key [OF st(1)] del by metis
  ultimately have "in_step k (del_key ?f q idx) p' (snd (btm_remove id a keys))"
    unfolding in_step_def del iter using dist p'(2) by blast
  with that key(1) p'(1) found show ?thesis by simp
qed

lemma ins_key_maps:
  assumes "map (k \<circ> fst) xs = map (k \<circ> fst) ys" and "map snd xs = map snd ys"
  shows "map (k \<circ> fst) (ins_key (k \<circ> fst) r xs) = map (k \<circ> fst) (ins_key (k \<circ> fst) r ys)"
    and "map snd (ins_key (k \<circ> fst) r xs) = map snd (ins_key (k \<circ> fst) r ys)"
proof -
  let ?f = "k \<circ> fst" and ?P = "\<lambda>x. (k \<circ> fst) x < (k \<circ> fst) r"
  have "has_key ?f (?f r) xs = has_key ?f (?f r) ys"
    using assms(1) by (metis has_key_def set_map)
  moreover have "map ?f (takeWhile ?P xs) = map ?f (takeWhile ?P ys) \<and> map snd (takeWhile ?P xs) = map snd (takeWhile ?P ys) \<and>
      map ?f (dropWhile ?P xs) = map ?f (dropWhile ?P ys) \<and> map snd (dropWhile ?P xs) = map snd (dropWhile ?P ys)"
    using assms map_eq_imp_length_eq [OF assms(1)]
    by (induction xs ys rule: list_induct2') auto
  ultimately show "map ?f (ins_key ?f r xs) = map ?f (ins_key ?f r ys)"
    "map snd (ins_key ?f r xs) = map snd (ins_key ?f r ys)"
    using assms by (auto simp: ins_key_def)
qed

text \<open>Inserting a new entry on both sides once the routes are exact.\<close>

lemma exact_step_insert:
  assumes "exact_step k idx p keys" and "\<not> has_key (k \<circ> fst) (k key) idx" and "a \<notin> snd ` set idx"
  obtains p' where "pub_insert k p key a = Inr (None, p')"
    "exact_step k (ins_key (k \<circ> fst) (key, a) idx) p' (snd (btm_insert id a key keys))"
proof -
  let ?f = "k \<circ> fst" and ?rts = "pub_iter p"
  have "in_step k idx p keys" and eq: "map ?f ?rts = map ?f idx"
    using assms(1) by (simp_all add: exact_step_def)
  note st = in_stepD [OF this(1)]
  have absent: "\<not> has_key ?f (k key) ?rts"
    using assms(2) eq by (metis has_key_def set_map)
  obtain p' where p': "pub_insert k p key a = Inr (fst (btm_insert k key a ?rts), p')" "pub_ok k p'"
    "pub_iter p' = snd (btm_insert k key a ?rts)"
    using pub_insert_ok [OF st(3)] by blast
  have iter: "pub_iter p' = ins_key ?f (key, a) ?rts" and none: "fst (btm_insert k key a ?rts) = None"
    using p'(3) absent by (simp_all add: btm_insert_alt btm_get_def find_key_None)
  note maps = ins_key_maps [OF eq st(4), of "(key, a)"]
  have fresh: "a \<notin> snd ` set ?rts"
    using assms(3) st(4) by (metis set_map)
  have "keys_ok k (pub_iter p') (snd (btm_insert id a key keys))"
    using keys_ok_insert [OF st(6) _ fresh, of "pub_iter p'" key] absent by (simp add: iter set_ins_key)
  moreover have "distinct (map snd (ins_key ?f (key, a) idx))"
  proof -
    obtain tw dw where "idx = tw @ dw" "ins_key ?f (key, a) idx = tw @ (key, a) # dw"
    proof
      show "idx = takeWhile (\<lambda>x. ?f x < k key) idx @ dropWhile (\<lambda>x. ?f x < k key) idx"
        by simp
    qed (use assms(2) in \<open>simp add: ins_key_def\<close>)
    then show ?thesis
      using st(2) assms(3) by auto
  qed
  ultimately have "exact_step k (ins_key ?f (key, a) idx) p' (snd (btm_insert id a key keys))"
    unfolding exact_step_def in_step_def iter
    using maps sorted_ins_key [OF st(1)] p'(2) iter by simp
  with that p'(1) none show ?thesis by simp
qed

lemma keys_ok_transfer:
  "keys_ok k rts keys \<Longrightarrow> map_of keys' = map_of keys \<Longrightarrow> sorted_keys fst keys' \<Longrightarrow> keys_ok k rts keys'"
  by (simp add: keys_ok_map_of)

lemma exact_step_transfer:
  "exact_step k idx p keys \<Longrightarrow> map_of keys' = map_of keys \<Longrightarrow> sorted_keys fst keys' \<Longrightarrow> exact_step k idx p keys'"
  using keys_ok_transfer by (auto simp: exact_step_def in_step_def)

text \<open>Making the last route exact: it is the greatest on both sides.\<close>

lemma in_step_repair:
  assumes "in_step k idx p keys" and "vec_last idx = Some (ck, a)"
  obtains (exact) pk where "btm_get id a keys = Some pk" "k pk = k ck" "exact_step k idx p keys"
    | (stale) pk p1 p2 where "btm_get id a keys = Some pk" "k pk \<noteq> k ck"
      "pub_remove k p (k pk) = Inr (Some a, p1)" "pub_insert k p1 ck a = Inr (None, p2)"
      "exact_step k idx p2 (snd (btm_insert id a ck keys))"
proof -
  let ?f = "k \<circ> fst" and ?rts = "pub_iter p"
  note st = in_stepD [OF assms(1)]
  obtain B where idx: "idx = B @ [(ck, a)]"
    using assms(2) by (cases idx rule: rev_cases) auto
  obtain B' y where rts: "?rts = B' @ [(y, a)]" and snds: "map snd B' = map snd B"
    using st(4) idx by (cases ?rts rule: rev_cases) auto
  have fsts: "map ?f B' = map ?f B"
    using st(5) by (simp add: idx rts)
  obtain pk where pk: "btm_get id a keys = Some pk" "k pk = k y"
    using keys_ok_get [OF st(6), of y a] rts by auto
  show ?thesis
  proof (cases "k pk = k ck")
    case True
    then have "exact_step k idx p keys"
      using assms(1) fsts pk(2) by (simp add: exact_step_def idx rts)
    with pk(1) True show ?thesis
      by (rule exact)
  next
    case False
    have "btm_get k (k ck) idx = Some a"
      using find_key_nth [OF st(1), of "length B"] by (simp add: btm_get_def idx)
    from in_step_remove [OF assms(1) this] obtain p1 where p1: "pub_remove k p (k pk) = Inr (Some a, p1)"
      "in_step k (del_key ?f (k ck) idx) p1 (snd (btm_remove id a keys))"
      using pk(1) by auto
    have del: "del_key ?f (k ck) idx = B"
      using del_key_nth [OF st(1), of "length B"] by (simp add: idx)
    have "pub_iter p1 = del_key ?f (k pk) ?rts"
      using pub_remove_ok [OF st(3), of "k pk"] p1(1) by auto
    then have "pub_iter p1 = B'"
      using del_key_nth [OF st(7), of "length B'"] pk(2) by (simp add: rts)
    then have ex: "exact_step k B p1 (snd (btm_remove id a keys))"
      using p1(2) fsts by (simp add: exact_step_def del)
    have below: "\<forall>x\<in>set B. ?f x < k ck"
      using st(1) by (simp add: idx)
    then have "\<not> has_key ?f (k ck) B"
      by (intro absent_key) (metis less_irrefl)
    moreover have "a \<notin> snd ` set B"
      using st(2) by (simp add: idx)
    ultimately obtain p2 where p2: "pub_insert k p1 ck a = Inr (None, p2)"
      "exact_step k (ins_key ?f (ck, a) B) p2 (snd (btm_insert id a ck (snd (btm_remove id a keys))))"
      using exact_step_insert [OF ex] by blast
    have "ins_key ?f (ck, a) B = idx"
      using ins_key_mid [of B ?f "(ck, a)" "[]" "[]"] below by (simp add: idx ins_key_def)
    moreover have "map_of (snd (btm_insert id a ck keys)) = map_of (snd (btm_insert id a ck (snd (btm_remove id a keys))))"
      by (simp add: map_of_btm_insert(1) map_of_btm_remove(1))
    moreover have "sorted_keys fst (snd (btm_insert id a ck keys))"
      using st(6) by (intro map_of_btm_insert(2)) (simp add: keys_ok_def)
    ultimately have "exact_step k idx p2 (snd (btm_insert id a ck keys))"
      using exact_step_transfer [OF p2(2)] by simp
    with pk(1) False p1(1) p2(1) show ?thesis
      by (rule stale)
  qed
qed

lemma rebuilt_exact:
  assumes "sorted_keys (k \<circ> fst) idx" and "distinct (map snd idx)"
  shows "exact_step k idx (from_canonical idx) (fold put_identity idx [])"
  using assms from_canonical_ok [OF assms(1)] rebuilt_keys_ok [OF assms(2), of k]
  by (simp add: exact_step_def in_step_def)

section \<open>Guard operations\<close>

lemma guard_okD:
  assumes "guard_ok k g"
  shows "in_step k (tg_canon g) (tg_side g) (published_keys (tg_topology g))"
    "tg_publish g \<Longrightarrow> tg_dirty g \<Longrightarrow> \<exists>p. tg_published g = Some p \<and> tg_keys g"
    "tg_publish g \<longleftrightarrow> odd (generation (tg_topology g))"
  using assms by (auto simp: guard_ok_def)

lemma topology_write_ok:
  assumes "topology_ok k t"
  shows "guard_ok k (topology_write t)" and "guard_ok k (topology_write_rekey t)"
  using assms
  by (simp_all add: guard_ok_def topology_ok_def topology_write_def topology_write_rekey_def tg_side_def)

lemma enable_publication_ok:
  assumes "guard_ok k g" and "\<not> tg_dirty g"
  shows "\<exists>g'. enable_publication g = Inr g' \<and> guard_ok k g' \<and> tg_canon g' = tg_canon g \<and> tg_publish g' \<and>
    \<not> tg_dirty g' \<and> published (tg_topology g') = published (tg_topology g)"
  using assms by (auto simp: enable_publication_def guard_ok_def set_topology_def tg_side_def)

lemma ensure_snapshot [simp]:
  "tg_canon (ensure_publication_snapshot g) = tg_canon g"
  "tg_side (ensure_publication_snapshot g) = tg_side g"
  "tg_topology (ensure_publication_snapshot g) = tg_topology g"
  "tg_published (ensure_publication_snapshot g) = Some (tg_side g)"
  "tg_publish (ensure_publication_snapshot g) = tg_publish g"
  "tg_dirty (ensure_publication_snapshot g) = tg_dirty g"
  "(tg_published g \<noteq> None \<Longrightarrow> tg_keys g) \<Longrightarrow> tg_keys (ensure_publication_snapshot g)"
  by (auto simp: ensure_publication_snapshot_def tg_side_def split: option.splits)

text \<open>One operation on an open guard: the new canonical index, the invariant, and the frame.\<close>

definition guard_step :: "('a \<Rightarrow> 'k::linorder) \<Rightarrow> 'a write_guard \<Rightarrow> 'a route list \<Rightarrow> 'a write_guard \<Rightarrow> bool" where
  "guard_step k g idx g' \<longleftrightarrow> tg_canon g' = idx \<and> guard_ok k g' \<and> tg_publish g' = tg_publish g \<and>
     published (tg_topology g') = published (tg_topology g) \<and>
     generation (tg_topology g') = generation (tg_topology g)"

lemma guard_stepD:
  assumes "guard_step k g idx g'"
  shows "tg_canon g' = idx" "guard_ok k g'" "tg_publish g' = tg_publish g"
    "published (tg_topology g') = published (tg_topology g)" "generation (tg_topology g') = generation (tg_topology g)"
  using assms by (simp_all add: guard_step_def)

lemma guard_step_trans:
  "guard_step k g idx g' \<Longrightarrow> guard_step k g' idx' g'' \<Longrightarrow> guard_step k g idx' g''"
  by (auto simp: guard_step_def)

lemma repair_ok:
  assumes "guard_ok k g" and "tg_publish g"
  shows "\<exists>g'. repair_last_route_before_insert k g = Inr g' \<and> guard_step k g (tg_canon g) g' \<and> guard_exact k g'"
proof (cases "vec_last (tg_canon g)")
  case None
  then have "tg_canon g = []"
    by (auto simp: vec_last_def split: if_splits)
  then have "guard_exact k g"
    using assms(1) guard_okD(1) [OF assms(1)] in_stepD(8) [OF guard_okD(1) [OF assms(1)]]
    by (simp add: guard_exact_def exact_step_def)
  then show ?thesis
    using None assms by (auto simp: repair_last_route_before_insert_def guard_step_def)
next
  case (Some r)
  obtain ck a where r: "r = (ck, a)" by force
  let ?g = "ensure_publication_snapshot g"
  have keys: "tg_keys ?g"
    using assms(1) by (intro ensure_snapshot(7)) (simp add: guard_ok_def)
  show ?thesis
    using guard_okD(1) [OF assms(1)] Some [unfolded r]
  proof (cases rule: in_step_repair)
    case (exact pk)
    then have "repair_last_route_before_insert k g = Inr ?g"
      using assms(2) Some r by (simp add: repair_last_route_before_insert_def Let_def)
    then show ?thesis
      using assms keys exact(3) by (auto simp: guard_step_def guard_exact_def guard_ok_def exact_step_def)
  next
    case (stale pk p1 p2)
    then show ?thesis
      using assms Some r keys
      by (auto simp: repair_last_route_before_insert_def Let_def set_topology_def guard_step_def guard_exact_def
          guard_ok_def exact_step_def tg_side_def)
  qed
qed

lemma insert_after_repair_ok:
  assumes "guard_exact k g" and "tg_publish g" and "\<not> has_key (k \<circ> fst) (k key) (tg_canon g)"
    and "a \<notin> snd ` set (tg_canon g)"
  shows "\<exists>g'. insert_after_last_route_repair k g key a = Inr (None, g') \<and>
    guard_step k g (ins_key (k \<circ> fst) (key, a) (tg_canon g)) g' \<and> guard_exact k g' \<and> tg_dirty g'"
proof -
  let ?idx = "ins_key (k \<circ> fst) (key, a) (tg_canon g)"
  have ex: "exact_step k (tg_canon g) (tg_side g) (published_keys (tg_topology g))" and ok: "guard_ok k g"
    using assms(1) by (simp_all add: guard_exact_def)
  obtain p' where p': "pub_insert k (tg_side g) key a = Inr (None, p')"
    "exact_step k ?idx p' (snd (btm_insert id a key (published_keys (tg_topology g))))"
    using exact_step_insert [OF ex assms(3,4)] by blast
  let ?g = "(set_topology (\<lambda>t. t\<lparr> canon := ?idx \<rparr>) g)\<lparr> tg_dirty := True \<rparr>"
  have side: "tg_side ?g = tg_side g" "published_keys (tg_topology ?g) = published_keys (tg_topology g)"
    by (simp_all add: tg_side_def set_topology_def split: option.splits)
  have keys: "tg_keys (ensure_publication_snapshot ?g)"
    using ok by (intro ensure_snapshot(7)) (simp add: guard_ok_def set_topology_def)
  have ins: "btm_insert k key a (tg_canon g) = (None, ?idx)"
    using assms(3) by (simp add: btm_insert_def)
  let ?g' = "(set_topology (\<lambda>t. t\<lparr> published_keys := snd (btm_insert id a key (published_keys t)) \<rparr>)
    (ensure_publication_snapshot ?g))\<lparr> tg_published := Some p' \<rparr>"
  have "insert_after_last_route_repair k g key a = Inr (None, ?g')"
    using assms(2) p'(1) side
    by (simp add: insert_after_last_route_repair_def ins Let_def) (simp add: set_topology_def)
  moreover have "tg_canon ?g' = ?idx" "tg_side ?g' = p'" "tg_publish ?g'" "tg_dirty ?g'"
    "published_keys (tg_topology ?g') = snd (btm_insert id a key (published_keys (tg_topology g)))"
    "published (tg_topology ?g') = published (tg_topology g)" "generation (tg_topology ?g') = generation (tg_topology g)"
    "tg_keys ?g'"
    using assms(2) keys by (simp_all add: set_topology_def tg_side_def)
  ultimately show ?thesis
    using p'(2) guard_okD(3) [OF ok] assms(2)
    by (intro exI [of _ ?g']) (simp add: guard_step_def guard_exact_def guard_ok_def exact_step_def)
qed

lemma tg_insert_ok:
  assumes "guard_ok k g" and "tg_publish g" and "\<not> has_key (k \<circ> fst) (k key) (tg_canon g)"
    and "a \<notin> snd ` set (tg_canon g)"
  shows "\<exists>g'. tg_insert k g key a = Inr (None, g') \<and>
    guard_step k g (ins_key (k \<circ> fst) (key, a) (tg_canon g)) g' \<and> tg_dirty g'"
proof -
  obtain g1 where g1: "repair_last_route_before_insert k g = Inr g1" "guard_step k g (tg_canon g) g1" "guard_exact k g1"
    using repair_ok [OF assms(1,2)] by blast
  note st = guard_stepD [OF g1(2)]
  obtain g' where "insert_after_last_route_repair k g1 key a = Inr (None, g')"
    "guard_step k g1 (ins_key (k \<circ> fst) (key, a) (tg_canon g)) g'" "tg_dirty g'"
    using insert_after_repair_ok [OF g1(3), of key a] st(1,3) assms(2,3,4) by metis
  then show ?thesis
    using g1(1) guard_step_trans [OF g1(2)] by (auto simp: tg_insert_def)
qed

lemma tg_remove_ok:
  assumes "guard_ok k g" and "tg_publish g" and "btm_get k q (tg_canon g) = Some a"
  shows "\<exists>g'. tg_remove k g q = Inr (Some a, g') \<and>
    guard_step k g (del_key (k \<circ> fst) q (tg_canon g)) g' \<and> tg_dirty g'"
proof -
  let ?idx = "del_key (k \<circ> fst) q (tg_canon g)"
  let ?keys = "published_keys (tg_topology g)"
  obtain key p' where p': "btm_get id a ?keys = Some key" "pub_remove k (tg_side g) (k key) = Inr (Some a, p')"
    "in_step k ?idx p' (snd (btm_remove id a ?keys))"
    using in_step_remove [OF guard_okD(1) [OF assms(1)] assms(3)] by blast
  let ?g = "(set_topology (\<lambda>t. t\<lparr> canon := ?idx \<rparr>) g)\<lparr> tg_dirty := True \<rparr>"
  let ?e = "ensure_publication_snapshot ?g"
  let ?g' = "(set_topology (\<lambda>t. t\<lparr> published_keys := snd (btm_remove id a ?keys) \<rparr>) ?e)\<lparr> tg_published := Some p' \<rparr>"
  have side: "tg_side ?g = tg_side g" "published_keys (tg_topology ?g) = ?keys"
    by (simp_all add: tg_side_def set_topology_def split: option.splits)
  have keys: "tg_keys ?e"
    using assms(1) by (intro ensure_snapshot(7)) (simp add: guard_ok_def set_topology_def)
  have rem: "btm_remove k q (tg_canon g) = (Some a, ?idx)" "fst (btm_remove id a ?keys) = Some key"
    using assms(3) p'(1) by (simp_all add: btm_remove_def)
  have un: "unpublish_node k ?e a = Inr (True, ?g')"
    using side p'(2) rem(2) by (simp add: unpublish_node_def case_prod_beta Let_def)
  have "tg_remove k g q = Inr (Some a, ?g')"
    using assms(2) un unfolding tg_remove_def rem(1) by (simp add: Let_def set_topology_def)
  moreover have "tg_canon ?g' = ?idx" "tg_side ?g' = p'" "tg_publish ?g'" "tg_dirty ?g'"
    "published_keys (tg_topology ?g') = snd (btm_remove id a ?keys)"
    "published (tg_topology ?g') = published (tg_topology g)" "generation (tg_topology ?g') = generation (tg_topology g)"
    "tg_keys ?g'"
    using assms(2) keys by (simp_all add: set_topology_def tg_side_def)
  ultimately show ?thesis
    using p'(3) guard_okD(3) [OF assms(1)] assms(2)
    by (intro exI [of _ ?g']) (simp add: guard_step_def guard_ok_def)
qed

lemma tg_remove_none:
  "tg_publish g \<Longrightarrow> btm_get k q (tg_canon g) = None \<Longrightarrow> tg_remove k g q = Inr (None, g)"
  by (simp add: tg_remove_def btm_remove_def)

text \<open>Re-keying the last node without publication.\<close>

lemma can_rekey_last:
  assumes "can_rekey_last_node_without_publication k g a new_key" and "sorted_keys (k \<circ> fst) (tg_canon g)"
  obtains B x where "tg_canon g = B @ [(x, a)]" "\<forall>r\<in>set B. k (fst r) < k new_key"
proof -
  obtain x rest where rev: "rev (tg_canon g) = (x, a) # rest"
    "case rest of (predecessor, _) # _ \<Rightarrow> k predecessor < k new_key | [] \<Rightarrow> True"
    using assms by (auto simp: can_rekey_last_node_without_publication_def split: list.splits prod.splits if_splits)
  have canon: "tg_canon g = rev rest @ [(x, a)]"
    using arg_cong [OF rev(1), of rev] by simp
  show ?thesis
  proof (rule that [OF canon])
    show "\<forall>r\<in>set (rev rest). k (fst r) < k new_key"
      using rev(2) assms(2) unfolding canon by (cases rest) (auto intro: less_trans)
  qed
qed

lemma rekey_last_ok:
  assumes "guard_ok k g" and "\<not> tg_publish g" and "\<not> tg_dirty g"
    and "can_rekey_last_node_without_publication k g a new_key" and "btm_get k (k old_key) (tg_canon g) = Some a"
  shows "\<exists>B x g'. tg_canon g = B @ [(x, a)] \<and> k x = k old_key \<and> rekey_last_node k g old_key new_key a = Inr g' \<and>
    guard_step k g (B @ [(new_key, a)]) g'"
proof -
  let ?f = "k \<circ> fst"
  note st = in_stepD [OF guard_okD(1) [OF assms(1)]]
  obtain B x where B: "tg_canon g = B @ [(x, a)]" "\<forall>r\<in>set B. k (fst r) < k new_key"
    by (rule can_rekey_last [OF assms(4) st(1)])
  have unpub: "tg_published g = None"
    using assms(1,2) by (auto simp: guard_ok_def)
  have "a \<notin> snd ` set B"
    using st(2) B(1) by simp
  then have x: "k x = k old_key"
    using assms(5) find_key_Some [of ?f "k old_key" "tg_canon g"] B(1) by (force simp: btm_get_def)
  have rem: "btm_remove k (k old_key) (tg_canon g) = (Some a, B)"
    using assms(5) del_key_nth [OF st(1), of "length B"] by (simp add: btm_remove_def B(1) x)
  have "\<not> has_key ?f (k new_key) B"
    using B(2) by (intro absent_key) auto
  then have ins: "btm_insert k new_key a B = (None, B @ [(new_key, a)])"
    using ins_key_mid [of B ?f "(new_key, a)" "[]" "[]"] B(2) by (simp add: btm_insert_def ins_key_def)
  let ?g = "(set_topology (\<lambda>t. t\<lparr> canon := B @ [(new_key, a)] \<rparr>) g)\<lparr> tg_dirty := True \<rparr>"
  have "rekey_last_node k g old_key new_key a = Inr ?g"
    using assms(2,3) B(1) rem ins by (simp add: rekey_last_node_def is_last_node_def)
  moreover have "in_step k (B @ [(new_key, a)]) (tg_side g) (published_keys (tg_topology g))"
    using guard_okD(1) [OF assms(1)] B by (simp add: in_step_def)
  moreover have "tg_side ?g = tg_side g"
    by (simp add: tg_side_def set_topology_def split: option.splits)
  ultimately show ?thesis
    using B(1) x assms(1,2) unpub by (auto simp: guard_step_def guard_ok_def set_topology_def)
qed

text \<open>Dropping the guard: no assertion fails and the topology is at rest again.\<close>

lemma in_step_agree:
  assumes "in_step k idx p keys"
  shows "routes_agree k idx p keys"
proof -
  note st = in_stepD [OF assms]
  have "length keys = length idx"
    using keys_ok_length [OF st(6)] st(2,4,8) by simp
  moreover have "pub_len p = length idx"
    using st(3,8) by (simp add: pub_ok_def)
  moreover have "b = a \<and> map_option k (btm_get id a keys) = Some (k y)"
    if z: "((x, a), (y, b)) \<in> set (zip idx (pub_iter p))" for x a y b
  proof -
    obtain i where i: "i < length idx" "idx ! i = (x, a)" "pub_iter p ! i = (y, b)"
      using z by (auto simp: in_set_zip)
    have "b = a"
      using arg_cong [OF st(4), of "\<lambda>xs. xs ! i"] i st(8) by simp
    moreover have "(y, b) \<in> set (pub_iter p)"
      using i st(8) by (metis nth_mem)
    ultimately show ?thesis
      using st(6) by (auto simp: keys_ok_def)
  qed
  ultimately show ?thesis
    by (auto simp: routes_agree_def)
qed

lemma drop_guard_ok:
  assumes "guard_ok k g"
  shows "\<exists>t. drop_guard k g = Inr t \<and> topology_ok k t \<and> canon t = tg_canon g \<and>
    generation t = (if tg_publish g then generation (tg_topology g) + 1 else generation (tg_topology g)) \<and>
    (\<not> tg_publish g \<longrightarrow> published t = published (tg_topology g))"
proof -
  note ok = guard_okD [OF assms]
  have agree: "routes_agree k (tg_canon g) (tg_side g) (published_keys (tg_topology g))"
    by (rule in_step_agree [OF ok(1)])
  show ?thesis
  proof (cases "tg_publish g \<and> tg_dirty g")
    case True
    then obtain p where p: "tg_published g = Some p" "tg_keys g"
      using ok(2) by blast
    then show ?thesis
      using True ok(1,3) agree by (simp add: drop_guard_def topology_ok_def tg_side_def)
  next
    case False
    then show ?thesis
      using ok(1,3) assms
      by (auto simp: drop_guard_def topology_ok_def tg_side_def guard_ok_def split: option.splits)
  qed
qed

section \<open>Routing\<close>

text \<open>
  A value belongs to the first node whose key is not below it, or to the last node. Routing
  through the published index finds the same node as the canonical index, also through a borrowed
  form that only refines the order weakly.
\<close>

definition route :: "('a \<Rightarrow> 'q::linorder) \<Rightarrow> 'q \<Rightarrow> 'a route list \<Rightarrow> 'a route option" where
  "route b q rts = (case btm_first_from b (Included q) rts of Some r \<Rightarrow> Some r | None \<Rightarrow> vec_last rts)"

lemma route_snoc:
  "route b q (B @ [(x, a)]) = (case find (\<lambda>r. q \<le> b (fst r)) B of Some r \<Rightarrow> Some r | None \<Rightarrow> Some (x, a))"
  by (auto simp: route_def btm_first_from_def above_def find_append split: option.splits)

lemma route_in_step:
  assumes "in_step k idx p keys" and "\<And>x y. k x = k y \<Longrightarrow> b x = b y"
  shows "map_option snd (route b q (pub_iter p)) = map_option snd (route b q idx)"
proof (cases idx rule: rev_cases)
  case Nil
  then show ?thesis
    using in_stepD(8) [OF assms(1)] by simp
next
  case (snoc B r)
  note st = in_stepD [OF assms(1)]
  obtain x a where r: "r = (x, a)" by force
  obtain B' y where rts: "pub_iter p = B' @ [(y, a)]" and snds: "map snd B' = map snd B"
    using st(4) snoc r by (cases "pub_iter p" rule: rev_cases) auto
  have fsts: "map (k \<circ> fst) B' = map (k \<circ> fst) B"
    using st(5) by (simp add: snoc rts)
  have "map_option snd (find (\<lambda>r. q \<le> b (fst r)) B') = map_option snd (find (\<lambda>r. q \<le> b (fst r)) B)"
    using snds fsts map_eq_imp_length_eq [OF fsts]
    by (induction B' B rule: list_induct2') (auto dest: assms(2))
  then show ?thesis
    by (auto simp: snoc r rts route_snoc split: option.splits)
qed

end
