(* ===== verification/Concurrent_Facts.thy ===== *)
theory Concurrent_Facts
  imports Concurrent_Set Topology_Facts
begin

text \<open>
  The invariant of the concurrent set: non-empty sorted nodes whose ranges follow the canonical
  keys, the last node being open above, and a topology at rest. Every critical section keeps it
  and acts on the sorted list of elements as the abstract set operation or not at all.
\<close>

section \<open>Node ranges\<close>

definition over :: "'k::linorder option \<Rightarrow> 'k \<Rightarrow> bool" where
  "over lo x = (case lo of None \<Rightarrow> True | Some l \<Rightarrow> l < x)"

definition node_in :: "('a \<Rightarrow> 'k::linorder) \<Rightarrow> 'a list \<Rightarrow> 'k option \<Rightarrow> 'k option \<Rightarrow> bool" where
  "node_in k n lo hi \<longleftrightarrow> n \<noteq> [] \<and> sorted_keys k n \<and>
     (\<forall>x\<in>set n. over lo (k x) \<and> (case hi of None \<Rightarrow> True | Some h \<Rightarrow> k x \<le> h))"

fun ranged :: "('a \<Rightarrow> 'k::linorder) \<Rightarrow> (addr \<Rightarrow> 'a list) \<Rightarrow> 'k option \<Rightarrow> 'a route list \<Rightarrow> bool" where
  "ranged k nodes lo [] \<longleftrightarrow> True"
| "ranged k nodes lo ((key, a) # rs) \<longleftrightarrow>
     node_in k (nodes a) lo (if rs = [] then None else Some (k key)) \<and> ranged k nodes (Some (k key)) rs"

fun closed_run :: "('a \<Rightarrow> 'k::linorder) \<Rightarrow> (addr \<Rightarrow> 'a list) \<Rightarrow> 'k option \<Rightarrow> 'a route list \<Rightarrow> bool" where
  "closed_run k nodes lo [] \<longleftrightarrow> True"
| "closed_run k nodes lo ((key, a) # rs) \<longleftrightarrow>
     node_in k (nodes a) lo (Some (k key)) \<and> closed_run k nodes (Some (k key)) rs"

fun run_end :: "('a \<Rightarrow> 'k) \<Rightarrow> 'k option \<Rightarrow> 'a route list \<Rightarrow> 'k option" where
  "run_end k lo [] = lo"
| "run_end k lo ((key, a) # rs) = run_end k (Some (k key)) rs"

definition contents :: "(addr \<Rightarrow> 'a list) \<Rightarrow> 'a route list \<Rightarrow> 'a list" where
  "contents nodes idx = concat (map (\<lambda>r. nodes (snd r)) idx)"

lemma contents_simps [simp]:
  "contents nodes [] = []" "contents nodes ((key, a) # rs) = nodes a @ contents nodes rs"
  "contents nodes (xs @ ys) = contents nodes xs @ contents nodes ys"
  by (simp_all add: contents_def)

lemma over_simps [simp]: "over None x" "over (Some l) x \<longleftrightarrow> l < x"
  by (simp_all add: over_def)

lemma over_trans: "over lo x \<Longrightarrow> x \<le> y \<Longrightarrow> over lo y"
  by (cases lo) auto

lemma node_in_mono: "node_in k n lo hi \<Longrightarrow> (\<And>x. over lo x \<Longrightarrow> over lo' x) \<Longrightarrow> node_in k n lo' hi"
  by (simp add: node_in_def)

lemma node_in_open: "node_in k n lo (Some h) \<Longrightarrow> node_in k n lo None"
  by (simp add: node_in_def)

lemma ranged_append:
  "B \<noteq> [] \<Longrightarrow> ranged k nodes lo (A @ B) \<longleftrightarrow> closed_run k nodes lo A \<and> ranged k nodes (run_end k lo A) B"
  by (induction A arbitrary: lo) auto

lemma closed_run_append [simp]:
  "closed_run k nodes lo (A @ B) \<longleftrightarrow> closed_run k nodes lo A \<and> closed_run k nodes (run_end k lo A) B"
  "run_end k lo (A @ B) = run_end k (run_end k lo A) B"
  by (induction A arbitrary: lo) auto

lemma closed_ranged: "closed_run k nodes lo idx \<Longrightarrow> ranged k nodes lo idx"
  by (induction idx arbitrary: lo) (auto intro: node_in_open)

lemma ranged_mono:
  "ranged k nodes lo idx \<Longrightarrow> (\<And>x. over lo x \<Longrightarrow> over lo' x) \<Longrightarrow> ranged k nodes lo' idx"
  by (cases idx) (auto simp: node_in_def)

lemma ranged_cong:
  "\<forall>r\<in>set idx. nodes' (snd r) = nodes (snd r) \<Longrightarrow> ranged k nodes' lo idx = ranged k nodes lo idx"
  by (induction idx arbitrary: lo) auto

lemma closed_run_cong:
  "\<forall>r\<in>set idx. nodes' (snd r) = nodes (snd r) \<Longrightarrow> closed_run k nodes' lo idx = closed_run k nodes lo idx"
  by (induction idx arbitrary: lo) auto

lemma contents_cong:
  "\<forall>r\<in>set idx. nodes' (snd r) = nodes (snd r) \<Longrightarrow> contents nodes' idx = contents nodes idx"
  by (simp add: contents_def cong: map_cong)

lemma run_end_over:
  assumes "sorted_keys (k \<circ> fst) A" and "\<forall>r\<in>set A. k (fst r) < q"
  shows "over lo q \<Longrightarrow> over (run_end k lo A) q"
  using assms(2) by (induction A arbitrary: lo) auto

lemma run_end_le: "\<forall>r\<in>set A. over (Some (k (fst r))) q \<Longrightarrow> over lo q \<Longrightarrow> over (run_end k lo A) q"
  by (induction A arbitrary: lo) auto

lemma over_run_end:
  "sorted_keys (k \<circ> fst) A \<Longrightarrow> over (run_end k lo A) q \<Longrightarrow> \<forall>r\<in>set A. k (fst r) < q"
proof (induction A arbitrary: lo)
  case (Cons s A)
  obtain key a where s: "s = (key, a)" by force
  have "\<forall>r\<in>set A. k (fst r) < q"
    using Cons.IH [of "Some (k key)"] Cons.prems s by auto
  then show ?case
    using Cons.prems s by (cases A) (auto intro: less_trans)
qed simp

text \<open>The elements of a closed run lie below any bound above its keys.\<close>

lemma closed_run_below:
  assumes "closed_run k nodes lo A" and "\<forall>r\<in>set A. k (fst r) < q"
  shows "\<forall>x\<in>set (contents nodes A). k x < q"
  using assms by (induction A arbitrary: lo) (fastforce simp: node_in_def)+

lemma ranged_above:
  assumes "ranged k nodes lo idx" and "sorted_keys (k \<circ> fst) idx" and "\<forall>r\<in>set idx. over lo (k (fst r))"
  shows "\<forall>x\<in>set (contents nodes idx). over lo (k x)"
  using assms
proof (induction idx arbitrary: lo)
  case (Cons r idx)
  obtain key a where r: "r = (key, a)" by force
  have "\<forall>x\<in>set (contents nodes idx). over (Some (k key)) (k x)"
    using Cons.IH [of "Some (k key)"] Cons.prems r by auto
  moreover have "over lo (k key)"
    using Cons.prems(3) r by simp
  ultimately have "\<forall>x\<in>set (contents nodes idx). over lo (k x)"
    by (auto intro: over_trans [of lo "k key"] less_imp_le)
  then show ?case
    using Cons.prems(1) r by (auto simp: node_in_def)
qed simp

lemma ranged_sorted:
  assumes "ranged k nodes lo idx" and "sorted_keys (k \<circ> fst) idx"
  shows "sorted_keys k (contents nodes idx)"
  using assms
proof (induction idx arbitrary: lo)
  case (Cons r idx)
  obtain key a where r: "r = (key, a)" by force
  have srt: "sorted_keys (k \<circ> fst) idx" "\<forall>y\<in>set idx. k key < k (fst y)"
    using Cons.prems(2) r unfolding sorted_keys_simps by auto
  have above: "\<forall>x\<in>set (contents nodes idx). over (Some (k key)) (k x)"
    using ranged_above [OF _ srt(1), of nodes "Some (k key)"] Cons.prems(1) r srt(2) by auto
  moreover have "\<forall>x\<in>set (nodes a). k x \<le> k key" if "idx \<noteq> []"
    using that Cons.prems(1) r by (simp add: node_in_def)
  ultimately have "\<forall>x\<in>set (nodes a). \<forall>y\<in>set (contents nodes idx). k x < k y"
    by (cases "idx = []") (auto intro: le_less_trans)
  then show ?case
    using Cons r by (auto simp: node_in_def)
qed simp

section \<open>The node of a value\<close>

text \<open>
  \<open>focus q A key a B\<close>: in the index \<open>A @ (key, a) # B\<close>, values with the key \<open>q\<close> belong to node
  \<open>a\<close>.
\<close>

definition focus :: "('a \<Rightarrow> 'q::linorder) \<Rightarrow> 'q \<Rightarrow> 'a route list \<Rightarrow> 'a route list \<Rightarrow> 'a \<Rightarrow> addr \<Rightarrow> 'a route list \<Rightarrow> bool" where
  "focus b q idx A key a B \<longleftrightarrow> idx = A @ (key, a) # B \<and> (\<forall>r\<in>set A. b (fst r) < q) \<and> (B \<noteq> [] \<longrightarrow> q \<le> b key)"

lemma route_focus:
  assumes "idx \<noteq> []"
  obtains A key a B where "route b q idx = Some (key, a)" "focus b q idx A key a B"
proof (cases "find (\<lambda>r. q \<le> b (fst r)) idx")
  case None
  then have below: "\<forall>r\<in>set idx. b (fst r) < q"
    by (auto simp: find_None_iff not_le)
  obtain A r where idx: "idx = A @ [r]"
    using assms by (cases idx rule: rev_cases) auto
  obtain key a where r: "r = (key, a)" by force
  show ?thesis
    using below None by (intro that [of key a A "[]"]) (auto simp: idx r route_def btm_first_from_def above_def focus_def)
next
  case (Some r)
  then obtain i where i: "i < length idx" "q \<le> b (fst (idx ! i))" "r = idx ! i" "\<forall>j<i. \<not> q \<le> b (fst (idx ! j))"
    by (auto simp: find_Some_iff)
  obtain key a where r: "r = (key, a)" by force
  have "\<forall>r\<in>set (take i idx). b (fst r) < q"
    using i(1,4) by (fastforce simp: in_set_conv_nth not_le)
  then have "focus b q idx (take i idx) key a (drop (Suc i) idx)"
    using i(2,3) r id_take_nth_drop [OF i(1)] unfolding focus_def by (metis fst_conv)
  moreover have "route b q idx = Some (key, a)"
    using Some r by (simp add: route_def btm_first_from_def above_def)
  ultimately show ?thesis
    using that by blast
qed

lemma focus_borrow:
  assumes "borrow_ok k b" and "focus b (b x) idx A key a B"
  shows "focus k (k x) idx A key a B"
  using assms by (auto simp: focus_def borrow_ok_def) (metis linorder_not_less)

lemma put_target_route: "put_target P v idx = route (op_key P) (op_key P v) idx"
  by (simp add: put_target_def route_def or_else_def)

lemma remove_target_route: "remove_target b q s idx = route b q idx"
  by (simp add: remove_target_def route_def or_else_def first_for_borrowed_bound_def)

lemma focus_facts:
  assumes "ranged k nodes None idx" and "sorted_keys (k \<circ> fst) idx" and "distinct (map snd idx)"
    and "focus k q idx A key a B"
  shows "\<forall>x\<in>set (contents nodes A). k x < q" and "\<forall>x\<in>set (contents nodes B). q < k x"
    and "node_in k (nodes a) (run_end k None A) (if B = [] then None else Some (k key))"
    and "over (run_end k None A) q" and "closed_run k nodes None A" and "ranged k nodes (Some (k key)) B"
    and "\<forall>r\<in>set A. snd r \<noteq> a" and "\<forall>r\<in>set B. snd r \<noteq> a"
    and "contents nodes idx = contents nodes A @ nodes a @ contents nodes B"
    and "\<forall>r\<in>set A. k (fst r) < k key" and "\<forall>r\<in>set B. k key < k (fst r)"
proof -
  have idx: "idx = A @ (key, a) # B" and low: "\<forall>r\<in>set A. k (fst r) < q" and high: "B \<noteq> [] \<longrightarrow> q \<le> k key"
    using assms(4) by (simp_all add: focus_def)
  have split: "closed_run k nodes None A" "node_in k (nodes a) (run_end k None A) (if B = [] then None else Some (k key))"
    "ranged k nodes (Some (k key)) B"
    using assms(1) unfolding idx by (simp_all add: ranged_append)
  show "node_in k (nodes a) (run_end k None A) (if B = [] then None else Some (k key))" "closed_run k nodes None A"
    "ranged k nodes (Some (k key)) B"
    by (fact split)+
  have srt: "sorted_keys (k \<circ> fst) A" "sorted_keys (k \<circ> fst) B"
    using assms(2) unfolding idx by auto
  show keys: "\<forall>r\<in>set A. k (fst r) < k key" "\<forall>r\<in>set B. k key < k (fst r)"
    using assms(2) unfolding idx by auto
  show "\<forall>x\<in>set (contents nodes A). k x < q"
    by (rule closed_run_below [OF split(1) low])
  have "\<forall>x\<in>set (contents nodes B). over (Some (k key)) (k x)"
    using ranged_above [OF split(3) srt(2)] keys(2) by simp
  then show "\<forall>x\<in>set (contents nodes B). q < k x"
    using high by (cases "B = []") (auto intro: le_less_trans)
  show "over (run_end k None A) q"
    using low by (intro run_end_le) auto
  show "\<forall>r\<in>set A. snd r \<noteq> a" "\<forall>r\<in>set B. snd r \<noteq> a"
    using assms(3) unfolding idx by (auto simp: image_iff)
  show "contents nodes idx = contents nodes A @ nodes a @ contents nodes B"
    by (simp add: idx)
qed

text \<open>Putting other nodes in the place of the focused one.\<close>

lemma refocus:
  assumes "closed_run k nodes None A" and "ranged k nodes (Some (k key)) B"
    and "\<forall>r\<in>set A. nodes' (snd r) = nodes (snd r)" and "\<forall>r\<in>set B. nodes' (snd r) = nodes (snd r)"
    and "B \<noteq> [] \<Longrightarrow> closed_run k nodes' (run_end k None A) X"
    and "\<And>x. B \<noteq> [] \<Longrightarrow> k key < x \<Longrightarrow> over (run_end k (run_end k None A) X) x"
    and "B = [] \<Longrightarrow> ranged k nodes' (run_end k None A) X"
  shows "ranged k nodes' None (A @ X @ B)"
    and "contents nodes' (A @ X @ B) = contents nodes A @ contents nodes' X @ contents nodes B"
proof -
  have A: "closed_run k nodes' None A"
    using assms(1) closed_run_cong [OF assms(3), of k None] by blast
  show "contents nodes' (A @ X @ B) = contents nodes A @ contents nodes' X @ contents nodes B"
    using contents_cong [OF assms(3)] contents_cong [OF assms(4)] by simp
  show "ranged k nodes' None (A @ X @ B)"
  proof (cases "B = []")
    case True
    then show ?thesis
      using A assms(7) closed_ranged [OF A] by (cases "X = []") (auto simp: ranged_append)
  next
    case False
    have "ranged k nodes' (Some (k key)) B"
      using assms(2) ranged_cong [OF assms(4), of k "Some (k key)"] by blast
    then have "ranged k nodes' (run_end k (run_end k None A) X) B"
      using assms(6) [OF False] by (rule ranged_mono) simp
    then show ?thesis
      using False A assms(5) ranged_append [OF False, of k nodes' None "A @ X"] by simp
  qed
qed

section \<open>The abstract operations\<close>

definition spec_put :: "('a \<Rightarrow> 'k::linorder) \<Rightarrow> ('a \<Rightarrow> 'a \<Rightarrow> 'a) \<Rightarrow> 'a \<Rightarrow> 'a list \<Rightarrow> 'a option \<times> 'a list" where
  "spec_put k adopt v xs = (find_key k (k v) xs,
     if has_key k (k v) xs then map (\<lambda>x. if k x = k v then adopt x v else x) xs else ins_key k v xs)"

definition spec_remove :: "('a \<Rightarrow> 'q) \<Rightarrow> 'q \<Rightarrow> 'a list \<Rightarrow> 'a option \<times> 'a list" where
  "spec_remove b q xs = (find_key b q xs, del_key b q xs)"

lemma find_key_mid:
  assumes "\<forall>x\<in>set as. b x \<noteq> q" and "\<forall>x\<in>set cs. b x \<noteq> q"
  shows "find_key b q (as @ xs @ cs) = find_key b q xs"
proof -
  have "find (\<lambda>x. b x = q) as = None" "find (\<lambda>x. b x = q) cs = None"
    using assms by (auto simp: find_None_iff)
  then show ?thesis
    by (simp add: find_key_def find_append split: option.splits)
qed

lemma spec_put_mid:
  assumes "\<forall>x\<in>set as. k x < k v" and "\<forall>x\<in>set cs. k v < k x"
  shows "spec_put k adopt v (as @ xs @ cs) = (fst (spec_put k adopt v xs), as @ snd (spec_put k adopt v xs) @ cs)"
proof -
  have ne: "\<forall>x\<in>set as. k x \<noteq> k v" "\<forall>x\<in>set cs. k x \<noteq> k v"
    using assms by auto
  have "map (\<lambda>x. if k x = k v then adopt x v else x) as = as" "map (\<lambda>x. if k x = k v then adopt x v else x) cs = cs"
    using ne by (auto intro!: map_idI)
  then show ?thesis
    using find_key_mid [OF ne, of xs] ins_key_mid [OF assms, of xs] absent_key [OF ne(1)] absent_key [OF ne(2)]
    by (simp add: spec_put_def)
qed

lemma spec_remove_mid:
  assumes "\<forall>x\<in>set as. b x \<noteq> q" and "\<forall>x\<in>set cs. b x \<noteq> q"
  shows "spec_remove b q (as @ xs @ cs) = (fst (spec_remove b q xs), as @ snd (spec_remove b q xs) @ cs)"
  using find_key_mid [OF assms, of xs] del_key_mid [OF absent_key [OF assms(1)] absent_key [OF assms(2)]]
  by (simp add: spec_remove_def)

lemma spec_put_node:
  assumes "sorted_keys k xs" and "\<And>s. k s = k v \<Longrightarrow> k (adopt s v) = k v"
  shows "sorted_keys k (snd (spec_put k adopt v xs))" and "k ` set (snd (spec_put k adopt v xs)) = insert (k v) (k ` set xs)"
    and "snd (spec_put k adopt v xs) \<noteq> []"
proof -
  have same: "map k (map (\<lambda>x. if k x = k v then adopt x v else x) xs) = map k xs"
    using assms(2) by auto
  have img: "k ` set (map (\<lambda>x. if k x = k v then adopt x v else x) xs) = k ` set xs"
    using arg_cong [OF same, of set] by (simp only: set_map)
  show "sorted_keys k (snd (spec_put k adopt v xs))"
    using assms(1) sorted_ins_key [OF assms(1), of v] unfolding spec_put_def sorted_keys_def same [symmetric]
    by (simp only: snd_conv split: if_split) simp
  show keys: "k ` set (snd (spec_put k adopt v xs)) = insert (k v) (k ` set xs)"
  proof (cases "has_key k (k v) xs")
    case True
    then show ?thesis
      using img unfolding spec_put_def has_key_def by auto
  next
    case False
    then show ?thesis
      by (simp add: spec_put_def keys_ins_key)
  qed
  then show "snd (spec_put k adopt v xs) \<noteq> []"
    by auto
qed

section \<open>The invariant\<close>

definition heap_ok :: "('a \<Rightarrow> 'k::linorder) \<Rightarrow> 'a cset \<Rightarrow> 'a route list \<Rightarrow> bool" where
  "heap_ok k s idx \<longleftrightarrow> ranged k (cs_nodes s) None idx \<and> (\<forall>r\<in>set idx. snd r < cs_next s)"

definition cset_ok :: "('a \<Rightarrow> 'k::linorder) \<Rightarrow> 'a cset \<Rightarrow> bool" where
  "cset_ok k s \<longleftrightarrow> topology_ok k (cs_index s) \<and> heap_ok k s (canon (cs_index s))"

definition elements :: "'a cset \<Rightarrow> 'a list" where
  "elements s = contents (cs_nodes s) (canon (cs_index s))"

lemma cset_okD:
  assumes "cset_ok k s"
  shows "topology_ok k (cs_index s)" "heap_ok k s (canon (cs_index s))"
    "ranged k (cs_nodes s) None (canon (cs_index s))" "sorted_keys (k \<circ> fst) (canon (cs_index s))"
    "distinct (map snd (canon (cs_index s)))" "sorted_keys k (elements s)"
  using assms ranged_sorted [of k "cs_nodes s" None "canon (cs_index s)"]
  by (auto simp: cset_ok_def topology_ok_def heap_ok_def elements_def in_step_def)

lemma cset_new_ok: "cset_ok k (cset_with_maximum_node_size n)" "elements (cset_with_maximum_node_size n) = []"
  by (simp_all add: cset_ok_def cset_with_maximum_node_size_def topology_new_def topology_ok_def in_step_def
      pub_ok_def pub_iter_def keys_ok_def heap_ok_def elements_def)

text \<open>Events only move the counter.\<close>

lemma assign_events_frame:
  "snd (assign_events us s) = s\<lparr> cs_event_id := cs_event_id s + of_nat (length us) \<rparr>"
  "map change_event_id (fst (assign_events us s)) = map (\<lambda>i. Id (cs_event_id s + of_nat i)) [0..<length us]"
proof (induction us arbitrary: s)
  case (Cons u us)
  {
    case 1
    show ?case
      using Cons.IH(1) by (simp add: next_event_id_def Let_def case_prod_beta add.assoc)
  next
    case 2
    have "map change_event_id (fst (assign_events (u # us) s)) =
        Id (cs_event_id s) # map (\<lambda>i. Id (cs_event_id s + of_nat (Suc i))) [0..<length us]"
      using Cons.IH(2) [of "s\<lparr> cs_event_id := cs_event_id s + 1 \<rparr>"]
      by (simp add: next_event_id_def Let_def case_prod_beta add.assoc)
    then show ?case
      by (simp add: upt_conv_Cons map_Suc_upt [symmetric] del: upt_Suc)
  }
qed simp_all

lemma emit_events_frame [simp]:
  "cs_index (snd (emit_events e us s)) = cs_index s" "cs_nodes (snd (emit_events e us s)) = cs_nodes s"
  "cs_next (snd (emit_events e us s)) = cs_next s" "cs_capacity (snd (emit_events e us s)) = cs_capacity s"
  "cs_borrow_order_matches (snd (emit_events e us s)) = cs_borrow_order_matches s"
  by (simp_all add: emit_events_def assign_events_frame)

text \<open>A section under the structural read lock changes nodes only.\<close>

definition node_step :: "('a \<Rightarrow> 'k::linorder) \<Rightarrow> 'a cset \<Rightarrow> 'a list \<Rightarrow> 'a cset \<Rightarrow> bool" where
  "node_step k s xs s' \<longleftrightarrow> cset_ok k s' \<and> elements s' = xs \<and> cs_index s' = cs_index s \<and> cs_next s' = cs_next s \<and>
     cs_capacity s' = cs_capacity s \<and> cs_borrow_order_matches s' = cs_borrow_order_matches s \<and>
     (\<exists>a. \<forall>c. c \<noteq> a \<longrightarrow> cs_nodes s' c = cs_nodes s c)"

lemma node_step_refl: "cset_ok k s \<Longrightarrow> node_step k s (elements s) s"
  by (simp add: node_step_def)

lemma node_step_update:
  assumes "cset_ok k s" and "focus k q (canon (cs_index s)) A key a B"
    and "node_in k n (run_end k None A) (if B = [] then None else Some (k key))"
    and "cs_nodes s' = (cs_nodes s)(a := n)" "cs_index s' = cs_index s" "cs_next s' = cs_next s"
      "cs_capacity s' = cs_capacity s" "cs_borrow_order_matches s' = cs_borrow_order_matches s"
  shows "node_step k s (contents (cs_nodes s) A @ n @ contents (cs_nodes s) B) s'"
proof -
  let ?idx = "canon (cs_index s)" and ?nodes = "(cs_nodes s)(a := n)"
  note ok = cset_okD [OF assms(1)]
  note f = focus_facts [OF ok(3,4,5) assms(2)]
  have idx: "?idx = A @ [(key, a)] @ B"
    using assms(2) by (simp add: focus_def)
  have same: "\<forall>r\<in>set A. ?nodes (snd r) = cs_nodes s (snd r)" "\<forall>r\<in>set B. ?nodes (snd r) = cs_nodes s (snd r)"
    using f(7,8) by simp_all
  have X: "B \<noteq> [] \<Longrightarrow> closed_run k ?nodes (run_end k None A) [(key, a)]"
    "\<And>x. B \<noteq> [] \<Longrightarrow> k key < x \<Longrightarrow> over (run_end k (run_end k None A) [(key, a)]) x"
    "B = [] \<Longrightarrow> ranged k ?nodes (run_end k None A) [(key, a)]"
    using assms(3) by simp_all
  note re = refocus [OF f(5,6) same X]
  have "\<exists>a. \<forall>c. c \<noteq> a \<longrightarrow> cs_nodes s' c = cs_nodes s c"
    using assms(4) by (intro exI [of _ a]) simp
  then show ?thesis
    using re ok(1,2) assms(4-) by (simp add: node_step_def cset_ok_def heap_ok_def elements_def idx)
qed

text \<open>
  The last node has no value above its key: no insertion still has to move the key of its node.
  Every route is keyed by a value that is still stored. What a section leaves alone: all nodes and
  routes but one, the last route with its node unless the section settles the set; and a route it
  makes is keyed by a value of its node.
\<close>

definition settled :: "('a \<Rightarrow> 'k::linorder) \<Rightarrow> 'a cset \<Rightarrow> bool" where
  "settled k s \<longleftrightarrow> closed_run k (cs_nodes s) None (canon (cs_index s))"

definition keyed :: "('a \<Rightarrow> 'k::linorder) \<Rightarrow> 'a cset \<Rightarrow> bool" where
  "keyed k s \<longleftrightarrow> (\<forall>r\<in>set (canon (cs_index s)). k (fst r) \<in> k ` set (elements s))"

definition node_frame :: "'a cset \<Rightarrow> 'a route list \<Rightarrow> 'a cset \<Rightarrow> 'a route list \<Rightarrow> bool" where
  "node_frame s idx s' idx' \<longleftrightarrow> cs_next s \<le> cs_next s' \<and>
     (\<exists>a. (\<forall>r\<in>set idx. snd r \<noteq> a \<longrightarrow> snd r \<in> snd ` set idx' \<and> cs_nodes s' (snd r) = cs_nodes s (snd r)) \<and>
       (\<forall>r\<in>set idx'. snd r \<in> snd ` set idx \<or> cs_next s \<le> snd r))"

definition step_frame :: "('a \<Rightarrow> 'k::linorder) \<Rightarrow> 'a cset \<Rightarrow> 'a route list \<Rightarrow> 'a cset \<Rightarrow> 'a route list \<Rightarrow> bool" where
  "step_frame k s idx s' idx' \<longleftrightarrow> node_frame s idx s' idx' \<and>
     (closed_run k (cs_nodes s') None idx' \<or>
      vec_last idx' = vec_last idx \<and> (\<forall>r. vec_last idx = Some r \<longrightarrow> cs_nodes s' (snd r) = cs_nodes s (snd r))) \<and>
     (\<forall>r\<in>set idx'. r \<in> set idx \<or> k (fst r) \<in> k ` set (cs_nodes s' (snd r)))"

lemma node_frame_refl [simp]: "node_frame s idx s idx"
  by (simp add: node_frame_def)

lemma step_frame_refl [simp]: "step_frame k s idx s idx"
  by (simp add: step_frame_def)

lemma step_frame_replace:
  assumes "focus k q idx A key a B" and "idx' = A @ X @ B" and "\<forall>r\<in>set A \<union> set B. cs_nodes s' (snd r) = cs_nodes s (snd r)"
    and "cs_next s \<le> cs_next s'" and "\<forall>r\<in>set X. snd r = a \<or> cs_next s \<le> snd r"
    and "closed_run k (cs_nodes s) None A" and "B = [] \<Longrightarrow> closed_run k (cs_nodes s') (run_end k None A) X"
    and "\<forall>r\<in>set X. k (fst r) \<in> k ` set (cs_nodes s' (snd r))"
  shows "step_frame k s idx s' idx'"
proof -
  have idx: "idx = A @ (key, a) # B"
    using assms(1) by (simp add: focus_def)
  have "\<forall>r\<in>set A. cs_nodes s' (snd r) = cs_nodes s (snd r)"
    using assms(3) by simp
  from closed_run_cong [OF this, of k None] have "closed_run k (cs_nodes s') None idx' \<or>
      vec_last idx' = vec_last idx \<and> (\<forall>r. vec_last idx = Some r \<longrightarrow> cs_nodes s' (snd r) = cs_nodes s (snd r))"
    using assms(2,3,6,7) idx by (cases B rule: rev_cases) auto
  moreover have "node_frame s idx s' idx'"
    using assms(2-5) idx unfolding node_frame_def by (intro conjI exI [of _ a]) auto
  moreover have "\<forall>r\<in>set idx'. r \<in> set idx \<or> k (fst r) \<in> k ` set (cs_nodes s' (snd r))"
    using assms(2,8) idx by auto
  ultimately show ?thesis
    by (simp add: step_frame_def)
qed

lemma node_step_frame: "node_step k s xs s' \<Longrightarrow> node_frame s (canon (cs_index s)) s' (canon (cs_index s'))"
  by (auto simp: node_step_def node_frame_def)

lemma ranged_closed:
  assumes "ranged k nodes lo idx"
  shows "closed_run k nodes lo idx \<longleftrightarrow> (\<forall>r. vec_last idx = Some r \<longrightarrow> (\<forall>x\<in>set (nodes (snd r)). k x \<le> k (fst r)))"
proof (cases idx rule: rev_cases)
  case (snoc A r)
  then show ?thesis
    using assms by (cases r) (auto simp: ranged_append node_in_def)
qed simp

lemma settled_below:
  assumes "cset_ok k s"
  shows "settled k s \<longleftrightarrow> (\<forall>r. vec_last (canon (cs_index s)) = Some r \<longrightarrow> (\<forall>x\<in>set (elements s). k x \<le> k (fst r)))"
proof (cases "canon (cs_index s)" rule: rev_cases)
  case (snoc A r)
  note ok = cset_okD(3,4) [OF assms, unfolded snoc]
  have "closed_run k (cs_nodes s) None A" "\<forall>p\<in>set A. k (fst p) < k (fst r)"
    using ok by (auto simp: ranged_append)
  then have "\<forall>x\<in>set (contents (cs_nodes s) A). k x < k (fst r)"
    by (rule closed_run_below)
  then show ?thesis
    using ranged_closed [OF cset_okD(3) [OF assms]] by (cases r) (auto simp: settled_def snoc elements_def intro: less_imp_le)
qed (simp add: settled_def)

lemma node_step_settled:
  assumes "cset_ok k s" and "node_step k s (elements s') s'" and "settled k s"
    and "\<forall>y\<in>set (elements s'). \<exists>x\<in>set (elements s). k y \<le> k x"
  shows "settled k s'"
proof -
  have "cset_ok k s'" "cs_index s' = cs_index s"
    using assms(2) by (simp_all add: node_step_def)
  then show ?thesis
    using assms(1,3,4) by (simp add: settled_below) (meson order_trans)
qed

lemma frame_settled:
  assumes "step_frame k s idx s' idx'" and "closed_run k (cs_nodes s) None idx" and "ranged k (cs_nodes s') None idx'"
  shows "closed_run k (cs_nodes s') None idx'"
  using assms ranged_closed [OF assms(3)] ranged_closed [OF closed_ranged [OF assms(2)]] by (auto simp: step_frame_def)

lemma frame_keyed:
  assumes "step_frame k s idx s' idx'" and "r \<in> set idx'"
  shows "r \<in> set idx \<or> k (fst r) \<in> k ` set (contents (cs_nodes s') idx')"
  using assms by (fastforce simp: step_frame_def contents_def)

lemma node_step_keyed:
  assumes "node_step k s (elements s') s'" and "keyed k s" and "k ` set (elements s) \<subseteq> k ` set (elements s')"
  shows "keyed k s'"
  using assms by (auto simp: keyed_def node_step_def)

definition put_full :: "('a, 'k::linorder) ops \<Rightarrow> 'a \<Rightarrow> 'a cset \<Rightarrow> bool" where
  "put_full P v s = (case put_target P v (canon (cs_index s)) of
     None \<Rightarrow> False | Some (_, a) \<Rightarrow> node_need_to_split (cs_nodes s a) (cs_capacity s) v)"

locale cset_ops =
  fixes P :: "('a, 'k::linorder) ops"
  assumes lawful_search: "search_backend (op_search P)"
    and adopt_key: "op_key P stored = op_key P v \<Longrightarrow> op_key P (op_adopt P stored v) = op_key P v"

sublocale cset_ops \<subseteq> srch: search_backend "op_search P"
  by (rule lawful_search)

context cset_ops
begin

abbreviation k where "k \<equiv> op_key P"

abbreviation put where "put \<equiv> spec_put (op_key P) (op_adopt P)"

lemma put_node:
  assumes "node_in k n lo hi" and "over lo (k v)" and "\<And>h. hi = Some h \<Longrightarrow> k v \<le> h"
  shows "node_in k (snd (put v n)) lo hi"
proof -
  have srt: "sorted_keys k n"
    using assms(1) by (simp add: node_in_def)
  note put = spec_put_node [OF srt, of v "op_adopt P", OF adopt_key]
  have "over lo y \<and> (case hi of None \<Rightarrow> True | Some h \<Rightarrow> y \<le> h)" if "y \<in> insert (k v) (k ` set n)" for y
    using that assms by (auto simp: node_in_def split: option.splits)
  then show ?thesis
    using put unfolding node_in_def by blast
qed

text \<open>What inserting or replacing in one node does.\<close>

lemma node_put:
  assumes "sorted_keys k n"
  shows "node_insert (op_search P) k n v =
      Inr ((\<not> has_key k (k v) n, partition_point (\<lambda>x. k x < k v) n), ins_key k v n)"
    and "\<not> has_key k (k v) n \<Longrightarrow> put v n = (None, ins_key k v n)"
    and "has_key k (k v) n \<Longrightarrow> j = partition_point (\<lambda>x. k x < k v) n \<Longrightarrow>
      j < length n \<and> k (n ! j) = k v \<and> ins_key k v n = n \<and> put v n = (Some (n ! j), n[j := op_adopt P (n ! j) v]) \<and>
      node_replace n j (op_adopt P (n ! j) v) = (Some (n ! j), n[j := op_adopt P (n ! j) v])"
proof -
  show "node_insert (op_search P) k n v =
      Inr ((\<not> has_key k (k v) n, partition_point (\<lambda>x. k x < k v) n), ins_key k v n)"
    by (rule srch.node_insert_eq [OF assms])
  show "\<not> has_key k (k v) n \<Longrightarrow> put v n = (None, ins_key k v n)"
    by (simp add: spec_put_def find_key_None)
  assume has: "has_key k (k v) n" and j: "j = partition_point (\<lambda>x. k x < k v) n"
  note n = has_key_partition_point [OF assms has j]
  have "map (\<lambda>x. if k x = k v then op_adopt P x v else x) n = n[j := op_adopt P (n ! j) v]"
  proof (rule nth_equalityI)
    fix i
    assume i: "i < length (map (\<lambda>x. if k x = k v then op_adopt P x v else x) n)"
    have "k (n ! i) \<noteq> k v" if "i \<noteq> j"
      using that i n sorted_keys_distinct [OF assms] by (fastforce simp: distinct_conv_nth)
    then show "map (\<lambda>x. if k x = k v then op_adopt P x v else x) n ! i = n[j := op_adopt P (n ! j) v] ! i"
      using i n by (cases "i = j") auto
  qed simp
  then show "j < length n \<and> k (n ! j) = k v \<and> ins_key k v n = n \<and> put v n = (Some (n ! j), n[j := op_adopt P (n ! j) v]) \<and>
      node_replace n j (op_adopt P (n ! j) v) = (Some (n ! j), n[j := op_adopt P (n ! j) v])"
    using has n find_key_nth [OF assms n(1)] by (simp add: spec_put_def ins_key_def node_replace_def)
qed

text \<open>The value's node, and the effect of an operation on it.\<close>

lemma put_focus:
  assumes "cset_ok k s" and "canon (cs_index s) \<noteq> []"
  obtains A key a B where "put_target P v (canon (cs_index s)) = Some (key, a)"
    "focus k (k v) (canon (cs_index s)) A key a B" "sorted_keys k (cs_nodes s a)" "cs_nodes s a \<noteq> []"
    "put v (elements s) = (fst (put v (cs_nodes s a)),
       contents (cs_nodes s) A @ snd (put v (cs_nodes s a)) @ contents (cs_nodes s) B)"
    "node_in k (snd (put v (cs_nodes s a))) (run_end k None A) (if B = [] then None else Some (k key))"
proof -
  obtain A key a B where r: "route k (k v) (canon (cs_index s)) = Some (key, a)"
    and f: "focus k (k v) (canon (cs_index s)) A key a B"
    by (rule route_focus [OF assms(2)])
  note ok = cset_okD [OF assms(1)]
  note ff = focus_facts [OF ok(3,4,5) f]
  have "put v (elements s) = (fst (put v (cs_nodes s a)),
       contents (cs_nodes s) A @ snd (put v (cs_nodes s a)) @ contents (cs_nodes s) B)"
    unfolding elements_def ff(9) by (rule spec_put_mid [OF ff(1,2)])
  moreover have "node_in k (snd (put v (cs_nodes s a))) (run_end k None A) (if B = [] then None else Some (k key))"
    by (rule put_node [OF ff(3,4)]) (use f in \<open>auto simp: focus_def split: if_splits\<close>)
  moreover have "put_target P v (canon (cs_index s)) = Some (key, a)"
    using r by (simp only: put_target_route)
  moreover have "sorted_keys k (cs_nodes s a)" "cs_nodes s a \<noteq> []"
    using ff(3) by (simp_all add: node_in_def)
  ultimately show ?thesis
    using f by (intro that)
qed

lemma node_step_put:
  assumes "cset_ok k s" and "focus k (k v) (canon (cs_index s)) A key a B"
    and "put v (elements s) = (fst (put v (cs_nodes s a)),
       contents (cs_nodes s) A @ snd (put v (cs_nodes s a)) @ contents (cs_nodes s) B)"
    and "node_in k (snd (put v (cs_nodes s a))) (run_end k None A) (if B = [] then None else Some (k key))"
  shows "node_step k s (snd (put v (elements s))) (snd (emit_events e us (s\<lparr> cs_nodes := (cs_nodes s)(a := snd (put v (cs_nodes s a))) \<rparr>)))"
  using node_step_update [OF assms(1,2,4)] assms(3) by simp

text \<open>The outcomes of the section under the structural read lock; the node it meets is full or not.\<close>

lemma put_attempt_cases:
  assumes "cset_ok k s"
  obtains (inserted) evs s' where "put_attempt emit P v s = Inr (PutDone None evs, s')"
      "put v (elements s) = (None, elements s')" "node_step k s (elements s') s'" "\<exists>x\<in>set (elements s). k v \<le> k x"
    | (grown) a key evs s' A B where "put_attempt emit P v s = Inr (PutPending (UpdateMax a key) evs, s')"
      "put v (elements s) = (None, elements s')" "node_step k s (elements s') s'"
      "focus k (k v) (canon (cs_index s)) A key a B"
    | (occupied) A key a B j where "put_attempt emit P v s = Inr (PutOccupied a j (last (cs_nodes s a)), s)"
      "focus k (k v) (canon (cs_index s)) A key a B" "has_key k (k v) (cs_nodes s a)"
      "j = partition_point (\<lambda>x. k x < k v) (cs_nodes s a)" "\<not> put_full P v s"
    | (full) A key a B where "put_attempt emit P v s = Inr (PutPending (Split a key v) [], s)"
      "focus k (k v) (canon (cs_index s)) A key a B" "put_full P v s"
    | (root) "put_attempt emit P v s = Inr (PutRoot, s)" "canon (cs_index s) = []"
proof (cases "canon (cs_index s) = []")
  case True
  then have "put_attempt emit P v s = Inr (PutRoot, s)"
    by (simp add: put_attempt_def put_target_def or_else_def btm_first_from_def)
  with True show ?thesis
    using root by blast
next
  case False
  obtain A key a B where t: "put_target P v (canon (cs_index s)) = Some (key, a)"
    and f: "focus k (k v) (canon (cs_index s)) A key a B" and srt: "sorted_keys k (cs_nodes s a)"
    and ne: "cs_nodes s a \<noteq> []"
    and eff: "put v (elements s) = (fst (put v (cs_nodes s a)),
       contents (cs_nodes s) A @ snd (put v (cs_nodes s a)) @ contents (cs_nodes s) B)"
      "node_in k (snd (put v (cs_nodes s a))) (run_end k None A) (if B = [] then None else Some (k key))"
    by (rule put_focus [OF assms False])
  let ?n = "cs_nodes s a" and ?j = "partition_point (\<lambda>x. k x < k v) (cs_nodes s a)"
  note np = node_put [OF srt, of v]
  show ?thesis
  proof (cases "node_need_to_split ?n (cs_capacity s) v")
    case True
    then have "put_attempt emit P v s = Inr (PutPending (Split a key v) [], s)"
      by (simp add: put_attempt_def t)
    moreover have "put_full P v s"
      using True by (simp add: put_full_def t)
    ultimately show ?thesis
      using full f by blast
  next
    case False
    show ?thesis
    proof (cases "has_key k (k v) ?n")
      case True
      then have "ins_key k v ?n = ?n"
        using np(3) by simp
      then have "put_attempt emit P v s = Inr (PutOccupied a ?j (last ?n), s)"
        using False True ne np(1) by (simp add: put_attempt_def t Let_def node_max_def)
      moreover have "\<not> put_full P v s"
        using False by (simp add: put_full_def t)
      ultimately show ?thesis
        using occupied f True by blast
    next
      case new: False
      let ?s = "s\<lparr> cs_nodes := (cs_nodes s)(a := snd (put v ?n)) \<rparr>"
      obtain evs s' where e: "emit_events emit [UInsertAt (last ?n) v ?j] ?s = (evs, s')"
        by force
      have step: "node_step k s (snd (put v (elements s))) s'"
        using node_step_put [OF assms f eff, of emit "[UInsertAt (last ?n) v ?j]"] e by simp
      then have el: "put v (elements s) = (None, elements s')"
        using eff(1) np(2) [OF new] by (simp add: node_step_def)
      have att: "put_attempt emit P v s = Inr (if map_option k (node_max (ins_key k v ?n)) = map_option k (node_max ?n)
          then PutDone None evs else PutPending (UpdateMax a key) evs, s')"
        using False new ne np(1,2) e by (simp add: put_attempt_def t Let_def node_max_def)
      have max: "\<exists>x\<in>set (elements s). k v \<le> k x" if "map_option k (node_max (ins_key k v ?n)) = map_option k (node_max ?n)"
      proof -
        have "v \<in> set (ins_key k v ?n)"
          using new by (simp add: set_ins_key)
        moreover from this have "ins_key k v ?n \<noteq> []"
          by auto
        ultimately have "k v \<le> k (last (ins_key k v ?n))"
          using sorted_keys_ends(1) [OF sorted_ins_key [OF srt]] by blast
        then have "k v \<le> k (last ?n)" "last ?n \<in> set ?n"
          using that ne \<open>ins_key k v ?n \<noteq> []\<close> by (simp_all add: node_max_def)
        moreover have "set ?n \<subseteq> set (elements s)"
          using f by (auto simp: elements_def focus_def)
        ultimately show ?thesis
          by blast
      qed
      show ?thesis
        using inserted grown el step att max f by (auto split: if_splits)
    qed
  qed
qed

lemma replace_events_ok: "n \<noteq> [] \<Longrightarrow> \<exists>us. replace_events emit n j mx old v = Inr us"
  by (cases n; cases "tl n") (auto simp: replace_events_def node_get_ith_def usize_sub_def)

lemma put_replace_ok:
  assumes "cset_ok k s" and "focus k (k v) (canon (cs_index s)) A key a B" and "has_key k (k v) (cs_nodes s a)"
    and "j = partition_point (\<lambda>x. k x < k v) (cs_nodes s a)"
  shows "\<exists>old evs s'. put_replace emit P v a j mx s = Inr ((old, evs), s') \<and> put v (elements s) = (old, elements s') \<and>
    node_step k s (elements s') s'"
proof -
  let ?n = "cs_nodes s a"
  note ok = cset_okD [OF assms(1)]
  note ff = focus_facts [OF ok(3,4,5) assms(2)]
  have srt: "sorted_keys k ?n" and ne: "?n \<noteq> []"
    using ff(3) by (simp_all add: node_in_def)
  have eff: "put v (elements s) = (fst (put v ?n), contents (cs_nodes s) A @ snd (put v ?n) @ contents (cs_nodes s) B)"
    unfolding elements_def ff(9) by (rule spec_put_mid [OF ff(1,2)])
  have nin: "node_in k (snd (put v ?n)) (run_end k None A) (if B = [] then None else Some (k key))"
    by (rule put_node [OF ff(3,4)]) (use assms(2) in \<open>auto simp: focus_def split: if_splits\<close>)
  note np = node_put(3) [OF srt assms(3,4)]
  define v' where "v' = op_adopt P (?n ! j) v"
  have old: "put v ?n = (Some (?n ! j), ?n[j := v'])"
    using np by (simp add: v'_def)
  obtain us where us: "replace_events emit ?n j mx (?n ! j) v' = Inr us"
    using replace_events_ok [OF ne] by blast
  obtain evs s1 where e: "emit_events emit us s = (evs, s1)"
    by force
  have fr: "cs_nodes s1 = cs_nodes s" "cs_index s1 = cs_index s" "cs_next s1 = cs_next s"
    "cs_capacity s1 = cs_capacity s" "cs_borrow_order_matches s1 = cs_borrow_order_matches s"
    using emit_events_frame [of emit us s] e by simp_all
  let ?s = "s1\<lparr> cs_nodes := (cs_nodes s1)(a := ?n[j := v']) \<rparr>"
  have step: "node_step k s (contents (cs_nodes s) A @ ?n[j := v'] @ contents (cs_nodes s) B) ?s"
    using node_step_update [OF assms(1,2) nin [unfolded old snd_conv], of ?s] fr by simp
  have "node_get_ith ?n j = Some (?n ! j)" "node_replace ?n j v' = (Some (?n ! j), ?n[j := v'])"
    using np by (simp_all add: node_get_ith_def v'_def)
  then have "put_replace emit P v a j mx s = Inr ((Some (?n ! j), evs), ?s)"
    using us e by (simp add: put_replace_def v'_def [symmetric] Let_def)
  then show ?thesis
    using step eff old by (auto simp: node_step_def)
qed

end

text \<open>The operations on \<open>Vec\<close> nodes with the crate's own search.\<close>

definition vec_ops :: "('a \<Rightarrow> 'k::linorder) \<Rightarrow> ('a, 'k) ops" where
  "vec_ops k = \<lparr> op_key = k, op_search = search, op_adopt = no_identity_adoption \<rparr>"

interpretation vec: cset_ops "vec_ops k" for k :: "'a \<Rightarrow> 'k::linorder"
  by (rule cset_ops.intro) (simp_all add: vec_ops_def custom.search_backend_axioms no_identity_adoption_def)

end
