(* ===== verification/Concurrent_Commit.thy ===== *)
theory Concurrent_Commit
  imports Concurrent_Facts
begin

text \<open>
  The sections of the concurrent set under the structural write guard: the first node, the two
  commits of \<open>operation.rs\<close> and the removal of a node. Each keeps the invariant of the state with
  an open guard, and acts on the elements as the abstract operation does.
\<close>

section \<open>States with an open guard\<close>

definition open_ok :: "('a \<Rightarrow> 'k::linorder) \<Rightarrow> 'a cset \<Rightarrow> 'a write_guard \<Rightarrow> bool" where
  "open_ok k s g \<longleftrightarrow> guard_ok k g \<and> heap_ok k s (tg_canon g)"

definition open_elements :: "'a cset \<Rightarrow> 'a write_guard \<Rightarrow> 'a list" where
  "open_elements s g = contents (cs_nodes s) (tg_canon g)"

definition same_config :: "'a cset \<Rightarrow> 'a cset \<Rightarrow> bool" where
  "same_config s s' \<longleftrightarrow> cs_capacity s' = cs_capacity s \<and> cs_borrow_order_matches s' = cs_borrow_order_matches s"

lemma same_config_simps [simp]: "same_config s s"
  by (simp add: same_config_def)

lemma same_config_trans: "same_config s s' \<Longrightarrow> same_config s' s'' \<Longrightarrow> same_config s s''"
  by (simp add: same_config_def)

lemma open_okD:
  assumes "open_ok k s g"
  shows "guard_ok k g" "ranged k (cs_nodes s) None (tg_canon g)" "sorted_keys (k \<circ> fst) (tg_canon g)"
    "distinct (map snd (tg_canon g))" "\<forall>r\<in>set (tg_canon g). snd r < cs_next s" "sorted_keys k (open_elements s g)"
  using assms guard_okD(1) [of k g] in_stepD(1,2) ranged_sorted [of k "cs_nodes s" None "tg_canon g"]
  by (auto simp: open_ok_def heap_ok_def open_elements_def)

lemma open_write:
  assumes "cset_ok k s"
  shows "open_ok k s (topology_write (cs_index s))" "open_ok k s (topology_write_rekey (cs_index s))"
    "open_elements s (topology_write (cs_index s)) = elements s"
    "open_elements s (topology_write_rekey (cs_index s)) = elements s"
  using cset_okD(1,2) [OF assms] topology_write_ok [of k "cs_index s"]
  by (simp_all add: open_ok_def open_elements_def elements_def topology_write_def topology_write_rekey_def)

text \<open>Running a section that keeps the open invariant and dropping the guard.\<close>

lemma guarded_ok:
  assumes "act s g = Inr (r, s1, g1)" and "open_ok (op_key P) s1 g1"
  shows "\<exists>s'. guarded P g act s = Inr (r, s') \<and> cset_ok (op_key P) s' \<and> elements s' = open_elements s1 g1 \<and>
    same_config s1 s' \<and> (closed_run (op_key P) (cs_nodes s1) None (tg_canon g1) \<longrightarrow> settled (op_key P) s') \<and>
    canon (cs_index s') = tg_canon g1"
proof -
  obtain t where t: "drop_guard (op_key P) g1 = Inr t" "topology_ok (op_key P) t" "canon t = tg_canon g1"
    using drop_guard_ok [OF open_okD(1) [OF assms(2)]] by blast
  then show ?thesis
    using assms by (auto simp: guarded_def cset_ok_def open_ok_def heap_ok_def elements_def open_elements_def
        same_config_def settled_def)
qed

text \<open>Other routes in the place of the focused one.\<close>

lemma open_replace:
  assumes "open_ok k s g" and "focus k q (tg_canon g) A key a B" and "guard_ok k g'" and "tg_canon g' = A @ X @ B"
    and "\<forall>r\<in>set A \<union> set B. cs_nodes s' (snd r) = cs_nodes s (snd r)"
    and "cs_next s \<le> cs_next s'" and "\<forall>r\<in>set X. snd r < cs_next s'"
    and "B \<noteq> [] \<Longrightarrow> closed_run k (cs_nodes s') (run_end k None A) X"
    and "\<And>x. B \<noteq> [] \<Longrightarrow> k key < x \<Longrightarrow> over (run_end k (run_end k None A) X) x"
    and "B = [] \<Longrightarrow> ranged k (cs_nodes s') (run_end k None A) X"
  shows "open_ok k s' g'"
    and "open_elements s' g' = contents (cs_nodes s) A @ contents (cs_nodes s') X @ contents (cs_nodes s) B"
proof -
  note ok = open_okD [OF assms(1)]
  note f = focus_facts [OF ok(2,3,4) assms(2)]
  have same: "\<forall>r\<in>set A. cs_nodes s' (snd r) = cs_nodes s (snd r)" "\<forall>r\<in>set B. cs_nodes s' (snd r) = cs_nodes s (snd r)"
    using assms(5) by auto
  have re: "ranged k (cs_nodes s') None (A @ X @ B)"
    "contents (cs_nodes s') (A @ X @ B) = contents (cs_nodes s) A @ contents (cs_nodes s') X @ contents (cs_nodes s) B"
    by (rule refocus [OF f(5,6) same]; use assms(8-10) in blast)+
  have "snd r < cs_next s'" if "r \<in> set A \<union> set B" for r
    using that ok(5) assms(2,6) by (force simp: focus_def)
  then show "open_ok k s' g'"
    using re(1) assms(3,4,7) by (auto simp: open_ok_def heap_ok_def)
  show "open_elements s' g' = contents (cs_nodes s) A @ contents (cs_nodes s') X @ contents (cs_nodes s) B"
    unfolding open_elements_def assms(4) by (rule re(2))
qed

lemma tg_insert_mid:
  assumes "guard_ok k g" and "tg_publish g" and "tg_canon g = A @ B" and "\<forall>r\<in>set A. k (fst r) < k key"
    and "\<forall>r\<in>set B. k key < k (fst r)" and "\<forall>r\<in>set A \<union> set B. snd r \<noteq> a"
  shows "\<exists>g'. tg_insert k g key a = Inr (None, g') \<and> guard_step k g (A @ (key, a) # B) g'"
proof -
  have "\<not> has_key (k \<circ> fst) (k key) (tg_canon g)" "a \<notin> snd ` set (tg_canon g)"
    using assms(3-6) by (auto simp: has_key_def)
  moreover have "ins_key (k \<circ> fst) (key, a) (A @ B) = A @ (key, a) # B"
    using ins_key_mid [of A "k \<circ> fst" "(key, a)" B "[]"] assms(4,5) by (simp add: ins_key_def)
  ultimately show ?thesis
    using tg_insert_ok [OF assms(1,2)] assms(3) by metis
qed

lemma tg_remove_focus:
  assumes "open_ok k s g" and "tg_publish g" and "focus k q (tg_canon g) A key a B" and "k key = q'"
  shows "\<exists>g'. tg_remove k g q' = Inr (Some a, g') \<and> guard_step k g (A @ B) g' \<and> btm_get k q' (tg_canon g) = Some a"
proof -
  note ok = open_okD [OF assms(1)]
  note f = focus_facts [OF ok(2,3,4) assms(3)]
  have idx: "tg_canon g = A @ [(key, a)] @ B"
    using assms(3) by (simp add: focus_def)
  have ne: "\<forall>x\<in>set A. (k \<circ> fst) x \<noteq> q'" "\<forall>x\<in>set B. (k \<circ> fst) x \<noteq> q'"
    using f(10,11) assms(4) by auto
  have "btm_get k q' (tg_canon g) = Some a" "del_key (k \<circ> fst) q' (tg_canon g) = A @ B"
    unfolding idx btm_get_mid [OF ne] del_key_mid [OF absent_key [OF ne(1)] absent_key [OF ne(2)]]
    using assms(4) by (simp_all add: btm_get_def find_key_def del_key_def)
  then show ?thesis
    using tg_remove_ok [OF ok(1) assms(2)] by fastforce
qed

section \<open>The first node\<close>

context cset_ops
begin

lemma put_root_ok:
  assumes "open_ok k s g" and "tg_publish g" and "tg_canon g = []"
  shows "\<exists>evs s' g'. put_root emit P v s g = Inr (Some evs, s', g') \<and> open_ok k s' g' \<and>
    open_elements s' g' = [v] \<and> same_config s s' \<and> step_frame k s (tg_canon g) s' (tg_canon g')"
proof -
  obtain evs s1 where e: "emit_events emit [UCreateNode v] s = (evs, s1)"
    by force
  have fr: "cs_nodes s1 = cs_nodes s" "cs_next s1 = cs_next s" "cs_capacity s1 = cs_capacity s"
    "cs_borrow_order_matches s1 = cs_borrow_order_matches s"
    using emit_events_frame [of emit "[UCreateNode v]" s] e by simp_all
  obtain g' where g': "tg_insert k g v (cs_next s1) = Inr (None, g')" "guard_step k g [(v, cs_next s1)] g'"
    using tg_insert_mid [OF open_okD(1) [OF assms(1)] assms(2), of "[]" "[]" v "cs_next s1"] assms(3) by auto
  have n: "node_insert (op_search P) k (node_with_capacity (cs_capacity s)) v = Inr ((True, 0), [v])"
    using srch.node_insert_eq [of k "[]" v] by (simp add: node_with_capacity_def ins_key_def partition_point_def)
  let ?s = "s1\<lparr> cs_nodes := (cs_nodes s1)(cs_next s1 := [v]), cs_next := cs_next s1 + 1 \<rparr>"
  have "put_root emit P v s g = Inr (Some evs, ?s, g')"
    using n e g' assms(3) by (simp add: put_root_def)
  moreover have "open_ok k ?s g'" "open_elements ?s g' = [v]" "same_config s ?s" "step_frame k s (tg_canon g) ?s (tg_canon g')"
    using guard_stepD(1,2) [OF g'(2)] fr assms(3)
    by (simp_all add: open_ok_def heap_ok_def node_in_def open_elements_def same_config_def step_frame_def node_frame_def)
  ultimately show ?thesis
    by blast
qed

section \<open>Splitting a node\<close>

lemma put_keys: "sorted_keys k n \<Longrightarrow> k ` set (snd (put v n)) = insert (k v) (k ` set n)"
  using spec_put_node(2) [of k n v "op_adopt P"] adopt_key by simp

lemma commit_insert_eq:
  assumes "sorted_keys k half"
  shows "\<exists>evs. commit_insert emit P half mx v = Inr (snd (put v half), fst (put v half), \<not> has_key k (k v) half, evs)"
proof (cases "has_key k (k v) half")
  case True
  let ?j = "partition_point (\<lambda>x. k x < k v) half"
  note np = node_put(1,3) [OF assms, of v]
  show ?thesis
    using np(1) np(2) [OF True refl] True by (auto simp: commit_insert_def node_get_ith_def Let_def)
next
  case False
  then show ?thesis
    using node_put(1,2) [OF assms, of v] by (simp add: commit_insert_def)
qed

lemma commit_left_ok:
  assumes "guard_ok k g" and "tg_publish g" and "tg_canon g = A @ B" and "sorted_keys k half" and "half \<noteq> []"
    and "\<forall>r\<in>set A. k (fst r) < k (last half)" and "\<forall>r\<in>set B. k (last half) < k (fst r)"
    and "\<forall>r\<in>set A \<union> set B. snd r \<noteq> a"
  shows "\<exists>evs g'. commit_left emit P a v half g =
      Inr (if k v \<le> k (last half) then snd (put v half) else half,
        if k v \<le> k (last half) then fst (put v half) else None, k v \<le> k (last half), evs, g') \<and>
    guard_step k g (A @ (last half, a) # B) g'"
proof -
  obtain g' where "tg_insert k g (last half) a = Inr (None, g')" "guard_step k g (A @ (last half, a) # B) g'"
    using tg_insert_mid [OF assms(1-3,6-8)] by blast
  moreover obtain evs where "commit_insert emit P half (last half) v =
      Inr (snd (put v half), fst (put v half), \<not> has_key k (k v) half, evs)"
    using commit_insert_eq [OF assms(4)] by blast
  moreover have "node_max half = Some (last half)"
    using assms(5) by (simp add: node_max_def)
  ultimately show ?thesis
    by (auto simp: commit_left_def)
qed

lemma node_in_last:
  assumes "sorted_keys k half" and "half \<noteq> []" and "\<forall>x\<in>set half. over lo (k x)" and "k (last half) \<le> h"
  shows "node_in k half lo (Some h)"
proof -
  have "\<forall>x\<in>set half. k x \<le> k (last half)"
    using assms(1,2) by (cases half rule: rev_cases) (auto intro: less_imp_le)
  then show ?thesis
    using assms by (auto simp: node_in_def intro: order_trans)
qed

lemma commit_right_ok:
  assumes "guard_ok k g" and "tg_publish g" and "tg_canon g = A @ B" and "sorted_keys k half" and "half \<noteq> []"
    and "\<forall>r\<in>set A. k (fst r) < k (last half)" and "\<forall>r\<in>set B. k (last half) < k (fst r)"
    and "\<not> attempted \<Longrightarrow> \<forall>r\<in>set B. k v < k (fst r)" and "\<forall>r\<in>set A \<union> set B. snd r \<noteq> c"
  shows "\<exists>mx evs g'. commit_right emit P c v attempted half g =
      Inr (Some (if attempted then half else snd (put v half)), if attempted then None else fst (put v half), evs, g') \<and>
    guard_step k g (A @ (mx, c) # B) g' \<and> k mx = (if attempted then k (last half) else max (k (last half)) (k v))"
proof -
  obtain evs where ins: "commit_insert emit P half (last half) v =
      Inr (snd (put v half), fst (put v half), \<not> has_key k (k v) half, evs)"
    using commit_insert_eq [OF assms(4)] by blast
  define mx where "mx = (if \<not> attempted \<and> \<not> has_key k (k v) half \<and> k (last half) < k v then v else last half)"
  have "k v \<le> k (last half)" if "has_key k (k v) half"
    using that assms(4) by (cases half rule: rev_cases) (auto simp: has_key_def intro: less_imp_le)
  then have key: "k mx = (if attempted then k (last half) else max (k (last half)) (k v))"
    by (auto simp: mx_def max_def)
  have "\<forall>r\<in>set A. k (fst r) < k mx" "\<forall>r\<in>set B. k mx < k (fst r)"
    using assms(6-8) by (auto simp: mx_def intro: less_trans)
  then obtain g' where g': "tg_insert k g mx c = Inr (None, g')" "guard_step k g (A @ (mx, c) # B) g'"
    using tg_insert_mid [OF assms(1-3) _ _ assms(9)] by blast
  have "node_max half = Some (last half)"
    using assms(5) by (simp add: node_max_def)
  then show ?thesis
    using ins g' key by (cases attempted) (auto simp: commit_right_def mx_def)
qed

text \<open>
  A split commits on the node that the value still routes to: both halves take the place of the
  node and the value enters the half it belongs to. First, what the two halves have to provide.
\<close>

definition split_state :: "'a cset \<Rightarrow> addr \<Rightarrow> 'a list \<Rightarrow> 'a list \<Rightarrow> 'a cset" where
  "split_state s a left right =
     s\<lparr> cs_nodes := (cs_nodes s)(a := left, cs_next s := right), cs_next := cs_next s + 1 \<rparr>"

lemma commit_split_halves:
  assumes "open_ok k s g" and "tg_publish g" and "focus k (k v) (tg_canon g) A key a B" and "k old_max = k key"
    and "node_halve (cs_nodes s a) = Inr (left, right)" and "tg_remove k g (k old_max) = Inr (Some a, g1)"
    and "commit_left emit P a v left g1 = Inr (left', old1, att, evs1, g2)"
    and "commit_right emit P (cs_next s) v att right g2 = Inr (Some right', old2, evs2, g3)"
    and "guard_step k g1 (A @ X @ B) g3" and "set (map snd X) \<subseteq> {a, cs_next s}"
    and "closed_run k (cs_nodes (split_state s a left' right')) (run_end k None A) X"
    and "\<And>x. B \<noteq> [] \<Longrightarrow> k key < x \<Longrightarrow> over (run_end k (run_end k None A) X) x"
    and "put v (cs_nodes s a) = (if att then old1 else old2, contents (cs_nodes (split_state s a left' right')) X)"
    and "\<forall>r\<in>set X. k (fst r) \<in> k ` set (cs_nodes (split_state s a left' right') (snd r))"
  shows "\<exists>old evs s' g'. commit_split emit P a old_max v s g = Inr (Some (old, evs), s', g') \<and> open_ok k s' g' \<and>
    put v (open_elements s g) = (old, open_elements s' g') \<and> same_config s s' \<and>
    step_frame k s (tg_canon g) s' (tg_canon g')"
proof -
  let ?n = "cs_nodes s a" and ?s = "split_state s a left' right'" and ?old = "if att then old1 else old2"
  note ok = open_okD [OF assms(1)]
  note f = focus_facts [OF ok(2,3,4) assms(3)]
  have idx: "\<forall>r\<in>set A \<union> set B. snd r \<noteq> a \<and> snd r < cs_next s" "a < cs_next s"
    using ok(5) assms(3) f(7,8) by (auto simp: focus_def)
  then have "\<forall>r\<in>set A \<union> set B. snd r \<noteq> a \<and> snd r \<noteq> cs_next s"
    by (metis less_irrefl)
  then have keep: "\<forall>r\<in>set A \<union> set B. cs_nodes ?s (snd r) = cs_nodes s (snd r)"
    by (simp add: split_state_def)
  have bound: "\<forall>r\<in>set X. snd r < cs_next ?s"
    using assms(10) idx(2) by (auto simp: split_state_def less_Suc_eq)
  note g3 = guard_stepD(2,1) [OF assms(9)]
  have new: "open_ok k ?s g3"
    "open_elements ?s g3 = contents (cs_nodes s) A @ contents (cs_nodes ?s) X @ contents (cs_nodes s) B"
    by (rule open_replace [OF assms(1,3) g3 keep _ bound];
        use assms(11,12) closed_ranged in \<open>force simp: split_state_def\<close>)+
  have "put v (open_elements s g) = (?old, open_elements ?s g3)"
    unfolding new(2) using spec_put_mid [OF f(1,2)] assms(13) unfolding open_elements_def f(9) by simp
  moreover have "node_max ?n = Some (last ?n)"
    using f(3) by (simp add: node_in_def node_max_def)
  then have "\<exists>evs. commit_split emit P a old_max v s g = Inr (Some (?old, evs), ?s, g3)"
    using tg_remove_focus [OF assms(1-3) assms(4) [symmetric]] assms(5-8)
    by (auto simp: commit_split_def split_state_def Let_def)
  moreover have "same_config s ?s"
    by (simp add: same_config_def split_state_def)
  moreover have "step_frame k s (tg_canon g) ?s (tg_canon g3)"
    by (rule step_frame_replace [OF assms(3) g3(2) keep])
      (use f(5) assms(10,11,14) in \<open>auto simp: split_state_def\<close>)
  ultimately show ?thesis
    using new(1) by blast
qed

lemma node_halve_parts:
  assumes "sorted_keys k n" and "n \<noteq> []"
  obtains left right where "node_halve n = Inr (left, right)" "n = left @ right" "right \<noteq> []"
    "sorted_keys k left" "sorted_keys k right" "\<forall>x\<in>set left. \<forall>y\<in>set right. k x < k y"
proof
  let ?h = "length n div 2"
  show split: "n = take ?h n @ drop ?h n"
    by simp
  show "node_halve n = Inr (take ?h n, drop ?h n)"
    by (rule node_halve_eq)
  show "drop ?h n \<noteq> []"
    using assms(2) by (cases n) auto
  have "sorted_keys k (take ?h n @ drop ?h n)"
    using assms(1) by simp
  then show "sorted_keys k (take ?h n)" "sorted_keys k (drop ?h n)" "\<forall>x\<in>set (take ?h n). \<forall>y\<in>set (drop ?h n). k x < k y"
    unfolding sorted_keys_append by blast+
qed

text \<open>The keys around the focused node bound its values and the value on its way.\<close>

lemma focus_between:
  assumes "open_ok k s g" and "focus k (k v) (tg_canon g) A key a B" and "x \<in> insert v (set (cs_nodes s a))"
  shows "over (run_end k None A) (k x)" and "\<forall>r\<in>set A. k (fst r) < k x" and "\<forall>r\<in>set B. k x < k (fst r)"
    and "B \<noteq> [] \<Longrightarrow> k x \<le> k key"
proof -
  note ok = open_okD [OF assms(1)]
  note f = focus_facts [OF ok(2,3,4) assms(2)]
  show o': "over (run_end k None A) (k x)"
    using assms(3) f(3,4) by (auto simp: node_in_def)
  have "sorted_keys (k \<circ> fst) A"
    using ok(3) assms(2) by (simp add: focus_def)
  then show "\<forall>r\<in>set A. k (fst r) < k x"
    using o' by (rule over_run_end)
  show top: "B \<noteq> [] \<Longrightarrow> k x \<le> k key"
    using assms(2,3) f(3) by (auto simp: node_in_def focus_def)
  then show "\<forall>r\<in>set B. k x < k (fst r)"
    using f(11) by (cases "B = []") (auto intro: le_less_trans)
qed

lemma commit_split_ok:
  assumes "open_ok k s g" and "tg_publish g" and "focus k (k v) (tg_canon g) A key a B" and "k old_max = k key"
  shows "\<exists>old evs s' g'. commit_split emit P a old_max v s g = Inr (Some (old, evs), s', g') \<and> open_ok k s' g' \<and>
    put v (open_elements s g) = (old, open_elements s' g') \<and> same_config s s' \<and>
    step_frame k s (tg_canon g) s' (tg_canon g')"
proof -
  let ?n = "cs_nodes s a" and ?c = "cs_next s"
  note ok = open_okD [OF assms(1)]
  note f = focus_facts [OF ok(2,3,4) assms(3)]
  have ne: "?n \<noteq> []" and srt: "sorted_keys k ?n"
    using f(3) by (auto simp: node_in_def)
  obtain left right where h: "node_halve ?n = Inr (left, right)" "?n = left @ right" "right \<noteq> []"
    "sorted_keys k left" "sorted_keys k right" "\<forall>x\<in>set left. \<forall>y\<in>set right. k x < k y"
    by (rule node_halve_parts [OF srt ne])
  obtain g1 where g1: "tg_remove k g (k old_max) = Inr (Some a, g1)" "guard_step k g (A @ B) g1"
    using tg_remove_focus [OF assms(1-3) assms(4) [symmetric]] by blast
  have step: "guard_ok k g1" "tg_publish g1" "tg_canon g1 = A @ B"
    using guard_stepD [OF g1(2)] assms(2) by simp_all
  have fresh: "\<forall>r\<in>set A \<union> set B. snd r \<noteq> a" "\<forall>r\<in>set A \<union> set B. snd r \<noteq> ?c" "a \<noteq> ?c"
    using f(7,8) ok(5) assms(3) by (auto simp: focus_def dest!: bspec)
  note between = focus_between [OF assms(1,3)]
  have lr: "last right \<in> insert v (set ?n)"
    using h(2,3) by simp
  note close = commit_split_halves [OF assms h(1) g1(1)]
  show ?thesis
  proof (cases "left = []")
    case True
    then have l: "commit_left emit P a v left g1 = Inr ([], None, False, [], g1)"
      by (simp add: commit_left_def node_max_def)
    obtain mx evs g3 where r: "commit_right emit P ?c v False right g1 =
        Inr (Some (snd (put v right)), fst (put v right), evs, g3)" "guard_step k g1 (A @ (mx, ?c) # B) g3"
      "k mx = max (k (last right)) (k v)"
      using commit_right_ok [OF step h(5,3) between(2,3) [OF lr] between(3) fresh(2), where v = v and attempted = False and emit = emit]
      by auto
    have "node_in k right (run_end k None A) (Some (k mx))"
      using node_in_last [OF h(5,3), of "run_end k None A" "k mx"] between(1) h(2) r(3) by simp
    then have nin: "node_in k (snd (put v right)) (run_end k None A) (Some (k mx))"
      by (rule put_node) (use between(1) [of v] r(3) in auto)
    have "k mx \<in> k ` set (snd (put v right))"
      using put_keys [OF h(5), of v] h(3) r(3) by (simp add: max_def)
    then show ?thesis
      by - (rule close [OF l r(1), where X = "[(mx, ?c)]"],
        use r(2,3) nin between(4) lr h(2) True in \<open>auto simp: split_state_def intro: le_less_trans\<close>)
  next
    case False
    define att where "att \<longleftrightarrow> k v \<le> k (last left)"
    have ll: "last left \<in> insert v (set ?n)" and ord: "k (last left) < k (last right)"
      using h(2,3,6) False by auto
    let ?left = "if att then snd (put v left) else left" and ?right = "if att then right else snd (put v right)"
    obtain evs1 g2 where l: "commit_left emit P a v left g1 = Inr (?left, if att then fst (put v left) else None, att, evs1, g2)"
      and g2: "guard_step k g1 (A @ (last left, a) # B) g2"
      using commit_left_ok [OF step h(4) False between(2,3) [OF ll] fresh(1), where v = v and emit = emit]
      unfolding att_def by blast
    have step2: "guard_ok k g2" "tg_publish g2" "tg_canon g2 = (A @ [(last left, a)]) @ B"
      using guard_stepD [OF g2] step(2) by simp_all
    have bounds: "\<forall>r\<in>set (A @ [(last left, a)]). k (fst r) < k (last right)"
      "\<forall>r\<in>set (A @ [(last left, a)]) \<union> set B. snd r \<noteq> ?c"
      using between(2) [OF lr] ord fresh by auto
    obtain mx evs2 g3 where r: "commit_right emit P ?c v att right g2 =
        Inr (Some ?right, if att then None else fst (put v right), evs2, g3)"
      "guard_step k g2 (A @ [(last left, a), (mx, ?c)] @ B) g3"
      "k mx = (if att then k (last right) else max (k (last right)) (k v))"
      using commit_right_ok [OF step2 h(5,3) bounds(1) between(3) [OF lr] between(3) bounds(2),
          where v = v and attempted = att and emit = emit] by auto
    have "node_in k left (run_end k None A) (Some (k (last left)))"
      using node_in_last [OF h(4) False, of "run_end k None A"] between(1) h(2) by simp
    then have nl: "node_in k ?left (run_end k None A) (Some (k (last left)))"
      using between(1) [of v] by (auto simp: att_def intro!: put_node)
    have "node_in k right (Some (k (last left))) (Some (k mx))"
      using node_in_last [OF h(5,3), of "Some (k (last left))" "k mx"] h(6) False r(3) by simp
    then have nr: "node_in k ?right (Some (k (last left))) (Some (k mx))"
      using r(3) by (auto simp: att_def intro!: put_node)
    have "\<forall>x\<in>set left. k x < k v" if "\<not> att"
      using that node_in_last [OF h(4) False, of None, OF _ order_refl] by (auto simp: att_def node_in_def)
    moreover have "\<forall>x\<in>set right. k v < k x" if att
      using that h(6) False by (auto simp: att_def intro: le_less_trans)
    ultimately have eff: "put v ?n = (if att then fst (put v left) else fst (put v right), ?left @ ?right)"
      using spec_put_mid [of left k v "[]" "op_adopt P" right] spec_put_mid [of "[]" k v right "op_adopt P" left] h(2)
      by simp
    have "k (last left) \<in> k ` set ?left" "k mx \<in> k ` set ?right"
      using put_keys [OF h(4), of v] put_keys [OF h(5), of v] False h(3) r(3) by (simp_all add: max_def)
    then show ?thesis
      by - (rule close [OF l r(1) guard_step_trans [OF g2 r(2)]],
        use nl nr eff r(3) between(4) [OF lr] between(4) [of v] fresh(3) in
          \<open>auto simp: split_state_def intro: le_less_trans split: if_splits\<close>)
  qed
qed

section \<open>Moving a node to its new maximum\<close>

lemma get_focus:
  assumes "sorted_keys (k \<circ> fst) idx" and "btm_get k q idx = Some a"
  obtains A key B where "focus k q idx A key a B" "k key = q"
proof -
  obtain key where "find (\<lambda>r. (k \<circ> fst) r = q) idx = Some (key, a)"
    using assms(2) by (auto simp: btm_get_def find_key_def)
  then obtain i where i: "i < length idx" "idx ! i = (key, a)" "k key = q"
    by (auto simp: find_Some_iff) (metis fst_conv)
  have idx: "idx = take i idx @ (key, a) # drop (Suc i) idx"
    using id_take_nth_drop [OF i(1)] i(2) by simp
  moreover have "\<forall>r\<in>set (take i idx). k (fst r) < q"
    using assms(1) i(3) idx by (metis comp_apply fst_conv list.set_intros(1) sorted_keys_append)
  ultimately have "focus k q idx (take i idx) key a (drop (Suc i) idx)"
    using i(3) by (simp add: focus_def)
  then show thesis
    using i(3) by (rule that)
qed

text \<open>Rekeying the node that the focus names, whichever way its route is moved.\<close>

lemma rekey_focus:
  assumes "open_ok k s g" and "focus k (k v) (tg_canon g) A key a B" and "guard_ok k g'"
    and "tg_canon g' = A @ (last (cs_nodes s a), a) # B"
  shows "open_ok k s g'" and "open_elements s g' = open_elements s g" and "step_frame k s (tg_canon g) s (tg_canon g')"
    and "B = [] \<Longrightarrow> closed_run k (cs_nodes s) None (tg_canon g')"
proof -
  let ?n = "cs_nodes s a" and ?new = "last (cs_nodes s a)"
  note ok = open_okD [OF assms(1)]
  note f = focus_facts [OF ok(2,3,4) assms(2)]
  have n: "sorted_keys k ?n" "?n \<noteq> []" "\<forall>x\<in>set ?n. over (run_end k None A) (k x)"
    using f(3) by (auto simp: node_in_def)
  have new: "?new \<in> insert v (set ?n)"
    using n(2) by simp
  have X: "tg_canon g' = A @ [(?new, a)] @ B"
    using assms(4) by simp
  have "a < cs_next s"
    using ok(5) assms(2) by (simp add: focus_def)
  moreover note node_in_last [OF n order_refl] focus_between(4) [OF assms(1,2) new]
  ultimately have res: "open_ok k s g'"
    "open_elements s g' = contents (cs_nodes s) A @ contents (cs_nodes s) [(?new, a)] @ contents (cs_nodes s) B"
    by - (rule open_replace [OF assms(1,2,3) X]; auto intro: node_in_open)+
  then show "open_ok k s g'" "open_elements s g' = open_elements s g"
    by (simp_all add: open_elements_def f(9))
  have closed: "closed_run k (cs_nodes s) (run_end k None A) [(?new, a)]"
    using node_in_last [OF n order_refl] by simp
  show "step_frame k s (tg_canon g) s (tg_canon g')"
    by (rule step_frame_replace [OF assms(2) X _ _ _ f(5) closed]) (use n(2) in simp_all)
  show "closed_run k (cs_nodes s) None (tg_canon g')" if "B = []"
    using closed f(5) that by (simp add: assms(4))
qed

lemma commit_update_max_ok:
  assumes "open_ok k s g" and "\<not> tg_publish g" and "\<not> tg_dirty g"
  shows "\<exists>r g'. commit_update_max P a old_max s g = Inr (r, s, g') \<and> open_ok k s g' \<and>
    open_elements s g' = open_elements s g \<and> (r = None \<or> r = Some (None, [])) \<and>
    step_frame k s (tg_canon g) s (tg_canon g') \<and>
    (btm_get k (k old_max) (tg_canon g) = Some a \<and> map_option snd (vec_last (tg_canon g)) = Some a \<longrightarrow>
      closed_run k (cs_nodes s) None (tg_canon g')) \<and>
    (btm_get k (k old_max) (tg_canon g) = Some a \<longrightarrow>
      (\<forall>r\<in>set (tg_canon g'). snd r = a \<longrightarrow> k (fst r) \<in> k ` set (cs_nodes s a)))"
proof (cases "btm_get k (k old_max) (tg_canon g) = Some a")
  case False
  then show ?thesis
    using assms(1) by (simp add: commit_update_max_def)
next
  case True
  note ok = open_okD [OF assms(1)]
  obtain A key B where fo: "focus k (k old_max) (tg_canon g) A key a B" and key: "k key = k old_max"
    by (rule get_focus [OF ok(3) True])
  note f = focus_facts [OF ok(2,3,4) fo]
  let ?n = "cs_nodes s a" and ?new = "last (cs_nodes s a)"
  have mx: "node_max ?n = Some ?new" "?new \<in> insert old_max (set ?n)"
    using f(3) by (simp_all add: node_in_def node_max_def)
  have mem: "?new \<in> set ?n"
    using f(3) by (simp add: node_in_def)
  have last: "B = []" if "map_option snd (vec_last (tg_canon g)) = Some a"
    using that fo f(8) by (cases B rule: rev_cases) (auto simp: focus_def)
  consider "k ?new = k old_max" | "k ?new \<noteq> k old_max" "can_rekey_last_node_without_publication k g a ?new"
    | "k ?new \<noteq> k old_max" "\<not> can_rekey_last_node_without_publication k g a ?new"
    by blast
  then show ?thesis
  proof cases
    case 1
    have n: "sorted_keys k ?n" "?n \<noteq> []" "\<forall>x\<in>set ?n. over (run_end k None A) (k x)"
      using f(3) by (auto simp: node_in_def)
    have "node_in k ?n (run_end k None A) (Some (k key))"
      by (rule node_in_last [OF n]) (use 1 key in simp)
    then have "closed_run k (cs_nodes s) None (tg_canon g)" if "map_option snd (vec_last (tg_canon g)) = Some a"
      using last [OF that] fo f(5) by (simp add: focus_def)
    moreover have "k (fst r) \<in> k ` set ?n" if "r \<in> set (tg_canon g)" "snd r = a" for r
      using that fo f(7,8) mem 1 key by (auto simp: focus_def intro!: image_eqI [where x = ?new] dest: arg_cong [where f = fst])
    ultimately show ?thesis
      using 1 True mx assms(1) by (simp add: commit_update_max_def)
  next
    case 2
    obtain C x g' where r: "tg_canon g = C @ [(x, a)]" "rekey_last_node k g old_max ?new a = Inr g'"
      "guard_step k g (C @ [(?new, a)]) g'"
      using rekey_last_ok [OF ok(1) assms(2,3) 2(2) True] by blast
    have "A = C" "B = []"
      using r(1) fo f(8) by (auto simp: focus_def append_eq_append_conv2 append_eq_Cons_conv Cons_eq_append_conv)
    then have g': "tg_canon g' = A @ (?new, a) # B"
      using guard_stepD(1) [OF r(3)] by simp
    then have "\<forall>r\<in>set (tg_canon g'). snd r = a \<longrightarrow> k (fst r) \<in> k ` set ?n"
      using mem f(7,8) by auto
    then show ?thesis
      using g' rekey_focus [OF assms(1) fo guard_stepD(2) [OF r(3)]] True 2 mx r(2) last by (simp add: commit_update_max_def)
  next
    case 3
    obtain g1 where g1: "enable_publication g = Inr g1" "guard_ok k g1" "tg_canon g1 = tg_canon g" "tg_publish g1"
      using enable_publication_ok [OF ok(1) assms(3)] by blast
    then have open1: "open_ok k s g1"
      using assms(1) by (simp add: open_ok_def)
    obtain g2 where g2: "tg_remove k g1 (k old_max) = Inr (Some a, g2)" "guard_step k g1 (A @ B) g2"
      using tg_remove_focus [OF open1 g1(4), where q' = "k old_max"] fo key g1(3) by fastforce
    have pub: "guard_ok k g2" "tg_publish g2" "tg_canon g2 = A @ B"
      using guard_stepD [OF g2(2)] g1(4) by simp_all
    note between = focus_between [OF assms(1) fo mx(2)]
    obtain g3 where g3: "tg_insert k g2 ?new a = Inr (None, g3)" "guard_step k g2 (A @ (?new, a) # B) g3"
      using tg_insert_mid [OF pub between(2,3), of a] f(7,8) by auto
    have "\<forall>r\<in>set (tg_canon g3). snd r = a \<longrightarrow> k (fst r) \<in> k ` set ?n"
      using mem f(7,8) guard_stepD(1) [OF g3(2)] by auto
    then show ?thesis
      using rekey_focus [OF assms(1) fo guard_stepD(2,1) [OF g3(2)]] True 3 mx g1(1) g2(1) g3(1) last
      by (simp add: commit_update_max_def)
  qed
qed

end

end
