(* ===== verification/Concurrent_Remove.thy ===== *)
theory Concurrent_Remove
  imports Concurrent_Commit
begin

text \<open>
  Removal and point reads through a borrowed form of the key. The nodes lie in order under the
  borrowed comparison too, so the same routing facts hold for it.
\<close>

section \<open>Routing by a borrowed key\<close>

lemma borrow_le: "borrow_ok k b \<Longrightarrow> k x \<le> k y \<longleftrightarrow> b x \<le> b y"
  by (meson borrow_ok_def linorder_not_less)

lemma node_in_borrow:
  assumes "borrow_ok k b" and "\<And>x. over lo (k x) \<Longrightarrow> over lo' (b x)"
  shows "node_in k n lo (Some (k key)) \<Longrightarrow> node_in b n lo' (Some (b key))"
    and "node_in k n lo None \<Longrightarrow> node_in b n lo' None"
  using assms sorted_keys_borrow [OF assms(1)] by (auto simp: node_in_def borrow_le [OF assms(1)])

lemma ranged_borrow:
  assumes "borrow_ok k b"
  shows "ranged k nodes lo idx \<Longrightarrow> (\<And>x. over lo (k x) \<Longrightarrow> over lo' (b x)) \<Longrightarrow> ranged b nodes lo' idx"
proof (induction idx arbitrary: lo lo')
  case (Cons r idx)
  obtain key a where r: "r = (key, a)" by force
  have "ranged b nodes (Some (b key)) idx"
    using Cons.IH [of "Some (k key)" "Some (b key)"] Cons.prems(1) r assms by (simp add: borrow_ok_def)
  moreover have "node_in b (nodes a) lo' (if idx = [] then None else Some (b key))"
    using Cons.prems r by (cases "idx = []") (auto intro: node_in_borrow [OF assms, of lo lo'])
  ultimately show ?case
    using r by simp
qed simp

lemma borrow_focus_facts:
  assumes "borrow_ok k b" and "ranged k nodes None idx" and "sorted_keys (k \<circ> fst) idx" and "distinct (map snd idx)"
    and "focus b q idx A key a B"
  shows "\<forall>x\<in>set (contents nodes A). b x \<noteq> q" and "\<forall>x\<in>set (contents nodes B). b x \<noteq> q"
    and "focus k (k key) idx A key a B"
proof -
  have "borrow_ok (k \<circ> fst) (b \<circ> fst)"
    using assms(1) by (simp add: borrow_ok_def)
  then have srt: "sorted_keys (b \<circ> fst) idx"
    using assms(3) by (rule sorted_keys_borrow)
  have rb: "ranged b nodes None idx"
    by (rule ranged_borrow [OF assms(1,2)]) simp
  show "\<forall>x\<in>set (contents nodes A). b x \<noteq> q" "\<forall>x\<in>set (contents nodes B). b x \<noteq> q"
    using focus_facts(1,2) [OF rb srt assms(4,5)] by auto
  show "focus k (k key) idx A key a B"
    using assms(3,5) by (auto simp: focus_def)
qed

section \<open>Deleting from one node\<close>

lemma del_key_length:
  assumes "sorted_keys b n" and "has_key b q n"
  shows "Suc (length (del_key b q n)) = length n"
proof -
  obtain xs y ys where "n = xs @ y # ys" "b y = q"
    using assms(2) by (auto simp: has_key_def dest: split_list)
  moreover have "\<forall>x\<in>set xs. b x \<noteq> q" "\<forall>x\<in>set ys. b x \<noteq> q"
    using assms(1) calculation by auto
  ultimately show ?thesis
    by (simp add: del_key_def)
qed

lemma node_in_del:
  assumes "node_in k n lo hi" and "sorted_keys b n" and "1 < length n"
  shows "node_in k (del_key b q n) lo hi"
proof -
  have "del_key b q n \<noteq> []"
    using del_key_length [OF assms(2), of q] del_key_absent [of b q n] assms(3) by (cases "has_key b q n") auto
  moreover have "set (del_key b q n) \<subseteq> set n"
    by (auto simp: del_key_def)
  ultimately show ?thesis
    using assms(1) sorted_del_key [of k n b q] by (auto simp: node_in_def)
qed

context cset_ops
begin

lemma remove_focus:
  assumes "borrow_ok k b" and "ranged k (cs_nodes s) None idx" and "sorted_keys (k \<circ> fst) idx" and "distinct (map snd idx)"
    and "idx \<noteq> []"
  obtains A key a B where "remove_target b q s idx = Some (key, a)" "focus b q idx A key a B"
    "focus k (k key) idx A key a B" "sorted_keys b (cs_nodes s a)"
    "node_in k (cs_nodes s a) (run_end k None A) (if B = [] then None else Some (k key))"
    "spec_remove b q (contents (cs_nodes s) idx) = (find_key b q (cs_nodes s a),
       contents (cs_nodes s) A @ del_key b q (cs_nodes s a) @ contents (cs_nodes s) B)"
proof -
  obtain A key a B where r: "route b q idx = Some (key, a)" and fo: "focus b q idx A key a B"
    by (rule route_focus [OF assms(5)])
  note bf = borrow_focus_facts [OF assms(1-4) fo]
  note f = focus_facts [OF assms(2-4) bf(3)]
  have "sorted_keys b (cs_nodes s a)"
    using f(3) sorted_keys_borrow [OF assms(1)] by (simp add: node_in_def)
  moreover have "spec_remove b q (contents (cs_nodes s) idx) = (find_key b q (cs_nodes s a),
      contents (cs_nodes s) A @ del_key b q (cs_nodes s a) @ contents (cs_nodes s) B)"
    unfolding f(9) spec_remove_mid [OF bf(1,2)] by (simp add: spec_remove_def)
  moreover have "remove_target b q s idx = Some (key, a)"
    using r by (simp only: remove_target_route)
  ultimately show thesis
    using fo bf(3) f(3) by (intro that)
qed

text \<open>No other route is keyed by a value of the focused node.\<close>

lemma other_keys:
  assumes "ranged k nodes None idx" and "sorted_keys (k \<circ> fst) idx" and "distinct (map snd idx)"
    and "focus k q idx A key a B" and "x \<in> set (nodes a)"
  shows "\<forall>r\<in>set A \<union> set B. k (fst r) \<noteq> k x"
proof -
  note f = focus_facts [OF assms(1-4)]
  have "sorted_keys (k \<circ> fst) A"
    using assms(2,4) by (simp add: focus_def)
  moreover have "over (run_end k None A) (k x)"
    using f(3) assms(5) by (simp add: node_in_def)
  ultimately have "\<forall>r\<in>set A. k (fst r) < k x"
    by (rule over_run_end)
  moreover have "k x \<le> k key" if "B \<noteq> []"
    using f(3) assms(5) that by (simp add: node_in_def)
  ultimately show ?thesis
    using f(11) by (cases "B = []") fastforce+
qed

text \<open>The outcomes under the structural read lock.\<close>

lemma remove_attempt_cases:
  assumes "cset_ok k s" and "borrow_ok k b"
  obtains (settled) old evs s' where "remove_attempt emit P b q s = Inr (RemoveDone old evs, s')"
      "spec_remove b q (elements s) = (old, elements s')" "node_step k s (elements s') s'"
      "\<And>x. old = Some x \<Longrightarrow> settled k s \<Longrightarrow> \<forall>r\<in>set (canon (cs_index s)). k (fst r) \<noteq> k x"
    | (repair) x evs a key s' where "remove_attempt emit P b q s = Inr (RemoveRepair x evs (UpdateMax a key), s')"
      "spec_remove b q (elements s) = (Some x, elements s')" "node_step k s (elements s') s'"
      "(key, a) \<in> set (canon (cs_index s))" "\<forall>r\<in>set (canon (cs_index s)). snd r \<noteq> a \<longrightarrow> k (fst r) \<noteq> k x"
    | (singleton) key a where "remove_attempt emit P b q s = Inr (RemoveSingleton, s)"
      "remove_target b q s (canon (cs_index s)) = Some (key, a)" "length (cs_nodes s a) \<le> 1"
proof (cases "canon (cs_index s) = []")
  case True
  then have "remove_attempt emit P b q s = Inr (RemoveDone None [], s)" "spec_remove b q (elements s) = (None, elements s)"
    by (simp_all add: remove_attempt_def remove_target_route route_def btm_first_from_def elements_def spec_remove_def
        find_key_def del_key_def)
  then show ?thesis
    using settled node_step_refl [OF assms(1)] by blast
next
  case False
  note ok = cset_okD [OF assms(1)]
  obtain A key a B where t: "remove_target b q s (canon (cs_index s)) = Some (key, a)"
    and fo: "focus k (k key) (canon (cs_index s)) A key a B" and srt: "sorted_keys b (cs_nodes s a)"
    and nin: "node_in k (cs_nodes s a) (run_end k None A) (if B = [] then None else Some (k key))"
    and eff: "spec_remove b q (elements s) = (find_key b q (cs_nodes s a),
       contents (cs_nodes s) A @ del_key b q (cs_nodes s a) @ contents (cs_nodes s) B)"
    unfolding elements_def by (rule remove_focus [OF assms(2) ok(3-5) False])
  let ?n = "cs_nodes s a"
  have absent: "spec_remove b q (elements s) = (None, elements s)" if "\<not> has_key b q ?n"
    using that eff focus_facts(9) [OF ok(3-5) fo] by (simp add: find_key_None del_key_absent elements_def)
  show ?thesis
  proof (cases "has_key b q ?n")
    case False
    then have "find_key b q ?n = None"
      by (simp add: find_key_None)
    then have "remove_attempt emit P b q s = Inr (RemoveDone None [], s)"
      using False srch.node_contains_eq [OF srt] srch.node_delete_eq [OF srt] t
      by (simp add: remove_attempt_def Let_def)
    then show ?thesis
      using settled absent [OF False] node_step_refl [OF assms(1)] by blast
  next
    case True
    show ?thesis
    proof (cases "length ?n \<le> 1")
      case short: True
      then have "remove_attempt emit P b q s = Inr (RemoveSingleton, s)"
        using srch.node_contains_eq [OF srt] t True by (simp add: remove_attempt_def Let_def)
      then show ?thesis
        using singleton t short by blast
    next
      case long: False
      obtain x where x: "find_key b q ?n = Some x"
        using True find_key_None [of b q ?n] by (cases "find_key b q ?n") auto
      let ?j = "partition_point (\<lambda>x. b x < q) ?n"
      let ?s = "s\<lparr> cs_nodes := (cs_nodes s)(a := del_key b q ?n) \<rparr>"
      obtain evs s' where e: "emit_events emit (if emit then [URemoveAt (last ?n) x ?j] else []) ?s = (evs, s')"
        by force
      have "node_in k (del_key b q ?n) (run_end k None A) (if B = [] then None else Some (k key))"
        by (rule node_in_del [OF nin srt]) (use long in simp)
      from node_step_update [OF assms(1) fo this, of s']
      have step: "node_step k s (contents (cs_nodes s) A @ del_key b q ?n @ contents (cs_nodes s) B) s'"
        using emit_events_frame [of emit "if emit then [URemoveAt (last ?n) x ?j] else []" ?s] e by simp
      then have el: "spec_remove b q (elements s) = (Some x, elements s')"
        using eff x by (simp add: node_step_def)
      have mx: "node_max ?n = Some (last ?n)"
        using nin by (simp add: node_in_def node_max_def)
      have "remove_attempt emit P b q s = Inr (if Some (k (last ?n)) \<noteq> map_option k (node_max (del_key b q ?n))
          then RemoveRepair x evs (UpdateMax a key) else RemoveDone (Some x) evs, s')"
        using long srch.node_delete_eq [OF srt] t x mx e by (auto simp: remove_attempt_def Let_def)
      moreover have "x \<in> set ?n" "b x = q"
        using find_key_Some [OF x] by simp_all
      then have others: "\<forall>r\<in>set A \<union> set B. k (fst r) \<noteq> k x"
        using other_keys [OF ok(3-5) fo] by blast
      moreover have idx: "canon (cs_index s) = A @ (key, a) # B"
        using fo by (simp add: focus_def)
      moreover have "k key \<noteq> k x" if st: "settled k s" and top: "Some (k (last ?n)) = map_option k (node_max (del_key b q ?n))"
      proof -
        obtain y where y: "y \<in> set ?n" "b y \<noteq> q" "k y = k (last ?n)"
          using top last_in_set [of "del_key b q ?n"] by (auto simp: node_max_def vec_last_def del_key_def split: if_splits)
        have "k x \<noteq> k y"
          using y(2) \<open>b x = q\<close> borrow_ok_eq [OF assms(2)] by auto
        moreover have "k x \<le> k y" "k (last ?n) \<le> k key"
          using sorted_keys_ends(1) [of k ?n x] nin \<open>x \<in> set ?n\<close> y(3) st by (auto simp: node_in_def settled_def idx)
        ultimately show ?thesis
          using y(3) by simp
      qed
      ultimately show ?thesis
        using settled repair el step by (auto simp: node_step_def split: if_splits)
    qed
  qed
qed

text \<open>The section of the removal of a whole node: it retries exactly when the node has grown.\<close>

lemma remove_singleton_ok:
  assumes "open_ok k s g" and "tg_publish g" and "borrow_ok k b"
  shows "\<exists>r s' g'. remove_singleton emit P b q s g = Inr (r, s', g') \<and> open_ok k s' g' \<and> same_config s s' \<and>
    step_frame k s (tg_canon g) s' (tg_canon g') \<and>
    (case r of
       None \<Rightarrow> s' = s \<and> g' = g \<and> (\<exists>key a. remove_target b q s (tg_canon g) = Some (key, a) \<and> 1 < length (cs_nodes s a))
     | Some (old, evs) \<Rightarrow> spec_remove b q (open_elements s g) = (old, open_elements s' g') \<and>
         (\<forall>x. old = Some x \<longrightarrow> (\<forall>r\<in>set (tg_canon g'). k (fst r) \<noteq> k x)))"
proof (cases "tg_canon g = []")
  case True
  then show ?thesis
    using assms(1) by (simp add: remove_singleton_def remove_target_route route_def btm_first_from_def open_elements_def
        spec_remove_def find_key_def del_key_def)
next
  case False
  note ok = open_okD [OF assms(1)]
  obtain A key a B where t: "remove_target b q s (tg_canon g) = Some (key, a)"
    and fo: "focus k (k key) (tg_canon g) A key a B" and srt: "sorted_keys b (cs_nodes s a)"
    and nin: "node_in k (cs_nodes s a) (run_end k None A) (if B = [] then None else Some (k key))"
    and eff: "spec_remove b q (open_elements s g) = (find_key b q (cs_nodes s a),
       contents (cs_nodes s) A @ del_key b q (cs_nodes s a) @ contents (cs_nodes s) B)"
    unfolding open_elements_def by (rule remove_focus [OF assms(3) ok(2-4) False])
  note f = focus_facts [OF ok(2-4) fo]
  let ?n = "cs_nodes s a"
  note del = srch.node_delete_eq [OF srt, of q]
  consider "1 < length ?n" | "\<not> 1 < length ?n" "find_key b q ?n = None" | x where "\<not> 1 < length ?n" "find_key b q ?n = Some x"
    by blast
  then show ?thesis
  proof cases
    case 1
    then show ?thesis
      using t assms(1) by (simp add: remove_singleton_def)
  next
    case 2
    moreover have "spec_remove b q (open_elements s g) = (None, open_elements s g)"
      using eff f(9) 2(2) by (simp add: find_key_None del_key_absent open_elements_def)
    ultimately show ?thesis
      using t del assms(1) by (simp add: remove_singleton_def Let_def)
  next
    case 3
    have empty: "del_key b q ?n = []"
      using del_key_length [OF srt, of q] 3 find_key_None [of b q ?n] by (cases "del_key b q ?n") auto
    obtain g' where g': "tg_remove k g (k key) = Inr (Some a, g')" "guard_step k g (A @ B) g'"
      using tg_remove_focus [OF assms(1,2) fo refl] by blast
    obtain evs s' where e: "emit_events emit [URemoveNode x] (s\<lparr> cs_nodes := (cs_nodes s)(a := []) \<rparr>) = (evs, s')"
      by force
    have s': "cs_nodes s' = (cs_nodes s)(a := [])" "cs_next s' = cs_next s" "same_config s s'"
      using emit_events_frame [of emit "[URemoveNode x]" "s\<lparr> cs_nodes := (cs_nodes s)(a := []) \<rparr>"] e
      by (simp_all add: same_config_def)
    have X: "tg_canon g' = A @ [] @ B"
      using guard_stepD(1) [OF g'(2)] by simp
    have keep: "\<forall>r\<in>set A \<union> set B. cs_nodes s' (snd r) = cs_nodes s (snd r)"
      using f(7,8) s'(1) by auto
    have over: "over (run_end k None A) x" if "k key < x" for x
      using f(10) that by (intro run_end_le) (auto intro: less_trans)
    have new: "open_ok k s' g'" "open_elements s' g' = contents (cs_nodes s) A @ contents (cs_nodes s') [] @ contents (cs_nodes s) B"
      by (rule open_replace [OF assms(1) fo guard_stepD(2) [OF g'(2)] X keep]; use s'(2) over in simp)+
    have "remove_singleton emit P b q s g = Inr (Some (Some x, evs), s', g')"
      using 3 t del empty g'(1) e by (simp add: remove_singleton_def Let_def)
    moreover have "step_frame k s (tg_canon g) s' (tg_canon g')"
      by (rule step_frame_replace [OF fo X keep]) (use s'(2) f(5) in simp_all)
    moreover have "\<forall>r\<in>set (tg_canon g'). k (fst r) \<noteq> k x"
      using other_keys [OF ok(2-4) fo] find_key_Some [OF 3(2)] X by auto
    ultimately show ?thesis
      using new s'(3) eff 3(2) empty by simp
  qed
qed

section \<open>Whole operations\<close>

lemma node_step_config: "node_step k s xs s' \<Longrightarrow> cset_ok k s' \<and> same_config s s'"
  by (simp add: node_step_def same_config_def)

lemma node_step_index: "node_step k s xs s' \<Longrightarrow> cs_index s' = cs_index s"
  by (simp add: node_step_def)

lemma get_route:
  assumes "sorted_keys (k \<circ> fst) idx" and "(key, a) \<in> set idx"
  shows "btm_get k (k key) idx = Some a"
proof -
  have "has_key (k \<circ> fst) (k key) idx"
    using imageI [OF assms(2), of "k \<circ> fst"] by (simp add: has_key_def)
  then have "find_key (k \<circ> fst) (k key) idx \<noteq> None"
    by (simp add: find_key_None)
  then obtain r where r: "find_key (k \<circ> fst) (k key) idx = Some r"
    by blast
  then have "r = (key, a)"
    using find_key_Some [OF r] sorted_keys_inj [OF assms(1) _ assms(2), of r] by simp
  then show ?thesis
    using r by (simp add: btm_get_def)
qed

lemma get_last:
  assumes "sorted_keys (k \<circ> fst) idx" and "vec_last idx = Some (key', a)" and "k key' = k key"
  shows "btm_get k (k key) idx = Some a"
proof -
  obtain A where idx: "idx = A @ [(key', a)]"
    using assms(2) by (cases idx rule: rev_cases) auto
  then have "\<forall>r\<in>set A. (k \<circ> fst) r \<noteq> k key"
    using assms(1,3) by auto
  then have "find_key (k \<circ> fst) (k key) (A @ [(key', a)] @ []) = find_key (k \<circ> fst) (k key) [(key', a)]"
    by (rule find_key_mid) simp
  then show ?thesis
    using assms(3) by (simp add: idx btm_get_def find_key_def)
qed

lemma emit_open:
  assumes "open_ok k s g" and "emit_events emit us s = (evs, s')"
  shows "open_ok k s' g" "open_elements s' g = open_elements s g" "same_config s s'"
    "step_frame k s0 idx s idx' \<Longrightarrow> step_frame k s0 idx s' idx'"
  using assms(1) emit_events_frame [of emit us s] assms(2)
  by (simp_all add: open_ok_def heap_ok_def open_elements_def same_config_def step_frame_def node_frame_def)

lemma put_settled:
  assumes "cset_ok k s" and "node_step k s (elements s') s'" and "put v (elements s) = (old, elements s')" and "settled k s"
    and "\<exists>x\<in>set (elements s). k v \<le> k x"
  shows "settled k s'"
proof -
  have "k ` set (elements s') = insert (k v) (k ` set (elements s))"
    using spec_put_node(2) [OF cset_okD(6) [OF assms(1)], of v "op_adopt P"] adopt_key assms(3) by simp
  then have "\<forall>y\<in>set (elements s'). \<exists>x\<in>set (elements s). k y \<le> k x"
    using assms(5) by (metis image_iff insert_iff order_refl)
  then show ?thesis
    by (rule node_step_settled [OF assms(1,2,4)])
qed

lemma grown_last:
  assumes "cset_ok k s" and "node_step k s (elements s') s'" and "put v (elements s) = (old, elements s')" and "settled k s"
    and "focus k (k v) (canon (cs_index s)) A key a B"
  shows "settled k s' \<or> vec_last (canon (cs_index s')) = Some (key, a)"
proof (cases "B = []")
  case True
  then show ?thesis
    using assms(2,5) by (simp add: focus_def node_step_def)
next
  case False
  note f = focus_facts [OF cset_okD(3-5) [OF assms(1)] assms(5)]
  have "contents (cs_nodes s) B \<noteq> []"
    using f(6) False by (cases B; cases "hd B") (auto simp: node_in_def)
  then obtain x where "x \<in> set (contents (cs_nodes s) B)"
    by fastforce
  then have "\<exists>x\<in>set (elements s). k v \<le> k x"
    using f(2,9) by (auto simp: elements_def intro: less_imp_le)
  then show ?thesis
    using put_settled [OF assms(1-4)] by blast
qed

lemma remove_settled:
  assumes "cset_ok k s" and "node_step k s (elements s') s'" and "spec_remove b q (elements s) = (old, elements s')" and "settled k s"
  shows "settled k s'"
proof -
  have "set (elements s') \<subseteq> set (elements s)"
    using assms(3) by (auto simp: spec_remove_def del_key_def dest!: sym [of "filter _ _"])
  then show ?thesis
    by (intro node_step_settled [OF assms(1,2,4)]) auto
qed

text \<open>The keys of the routes: an insertion keeps every element, a removal the key of every other route.\<close>

lemma put_keyed:
  assumes "sorted_keys k (elements s)" and "put v (elements s) = (old, elements s')" and "keyed k s"
    and "\<forall>r\<in>set (canon (cs_index s')). r \<in> set (canon (cs_index s)) \<or> k (fst r) \<in> k ` set (elements s')"
  shows "keyed k s'"
  using put_keys [OF assms(1), of v] assms(2-4) by (auto simp: keyed_def)

lemma remove_keyed:
  assumes "borrow_ok k b" and "spec_remove b q (elements s) = (old, elements s')" and "keyed k s"
    and "\<forall>r\<in>set (canon (cs_index s')). r \<in> set (canon (cs_index s)) \<and> (\<forall>x. old = Some x \<longrightarrow> k (fst r) \<noteq> k x) \<or>
      k (fst r) \<in> k ` set (elements s')"
  shows "keyed k s'"
proof -
  have el: "old = find_key b q (elements s)" "elements s' = del_key b q (elements s)"
    using assms(2) by (simp_all add: spec_remove_def)
  have "k y \<in> k ` set (elements s')" if "y \<in> set (elements s)" "\<forall>x. old = Some x \<longrightarrow> k y \<noteq> k x" for y
  proof (cases old)
    case None
    then show ?thesis
      using that(1) el by (simp add: find_key_None del_key_absent)
  next
    case (Some x)
    then have "b y \<noteq> q"
      using that(2) el(1) find_key_Some [of b q "elements s" x] borrow_ok_eq [OF assms(1)] by auto
    then show ?thesis
      using that(1) by (simp add: el(2) del_key_def)
  qed
  then have "q \<in> k ` set (elements s')" if "q \<in> k ` set (elements s)" "\<forall>x. old = Some x \<longrightarrow> q \<noteq> k x" for q
    using that by blast
  then show ?thesis
    using bspec [OF assms(3) [unfolded keyed_def]] bspec [OF assms(4)] unfolding keyed_def by metis
qed

lemma put_checked_inner_ok:
  assumes "cset_ok k s" and "0 < n"
  shows "(\<exists>old evs s'. put_checked_inner n emit P v s = Inr (Some (Ok (old, evs), s')) \<and> cset_ok k s' \<and>
      put v (elements s) = (old, elements s') \<and> same_config s s' \<and> (settled k s \<longrightarrow> settled k s') \<and> (keyed k s \<longrightarrow> keyed k s') \<and>
      (old = None \<or> put_full P v s)) \<or>
    (\<exists>A key a B. put_checked_inner n emit P v s = Inr (Some (Err (a, partition_point (\<lambda>x. k x < k v) (cs_nodes s a), last (cs_nodes s a)), s)) \<and>
      focus k (k v) (canon (cs_index s)) A key a B \<and> has_key k (k v) (cs_nodes s a) \<and> \<not> put_full P v s)"
proof -
  obtain m where n: "n = Suc m"
    using assms(2) by (cases n) auto
  note keyed = put_keyed [OF cset_okD(6) [OF assms(1)]]
  from assms(1) show ?thesis
  proof (cases rule: put_attempt_cases [where v = v and emit = emit])
    case (inserted evs s')
    then show ?thesis
      using node_step_config [OF inserted(3)] put_settled [OF assms(1) inserted(3,2)] keyed [OF inserted(2)] node_step_index [OF inserted(3)]
      by (simp add: n)
  next
    case (grown a key evs s1 A B)
    let ?g = "topology_write_rekey (cs_index s1)"
    note ok = node_step_config [OF grown(3)]
    note op = open_write(2,4) [OF conjunct1 [OF ok]]
    obtain r g' where c: "commit_update_max P a key s1 ?g = Inr (r, s1, g')" "open_ok k s1 g'"
      "open_elements s1 g' = elements s1" "r = None \<or> r = Some (None, [])" "step_frame k s1 (canon (cs_index s1)) s1 (tg_canon g')"
      and last: "btm_get k (k key) (canon (cs_index s1)) = Some a \<Longrightarrow> map_option snd (vec_last (canon (cs_index s1))) = Some a \<Longrightarrow>
        closed_run k (cs_nodes s1) None (tg_canon g')"
      using commit_update_max_ok [OF op(1), of a key] op(2) by (auto simp: topology_write_rekey_def)
    have closed: "closed_run k (cs_nodes s1) None (tg_canon g')" if "settled k s"
      using grown_last [OF assms(1) grown(3,2) that grown(4)]
    proof
      assume "settled k s1"
      then show ?thesis
        by (intro frame_settled [OF c(5) _ open_okD(2) [OF c(2)]]) (simp add: settled_def)
    next
      assume "vec_last (canon (cs_index s1)) = Some (key, a)"
      then show ?thesis
        using last get_last [OF cset_okD(4) [OF conjunct1 [OF ok]]] by simp
    qed
    obtain evs' where "put_commit emit P (UpdateMax a key) evs s1 ?g = Inr (Some (None, evs'), s1, g')"
      using c(1,4) by (auto simp: put_commit_def commit_def emit_events_def)
    from guarded_ok [where act = "put_commit emit P (UpdateMax a key) evs", OF this c(2)]
    obtain s' where "guarded P ?g (put_commit emit P (UpdateMax a key) evs) s1 = Inr (Some (None, evs'), s')"
      "cset_ok k s'" "elements s' = elements s1" "same_config s1 s'" "settled k s \<longrightarrow> settled k s'" "canon (cs_index s') = tg_canon g'"
      using c(3) closed by auto
    moreover have "keyed k s'" if "keyed k s"
      by (rule keyed [OF _ that]; use frame_keyed [OF c(5)] c(3) calculation grown(2) node_step_index [OF grown(3)] in \<open>simp add: open_elements_def\<close>)
    ultimately show ?thesis
      using grown(1,2) ok by (auto simp: n guard_for_def intro: same_config_trans)
  next
    case (occupied A key a B j)
    then have "put_checked_inner n emit P v s = Inr (Some (Err (a, j, last (cs_nodes s a)), s))"
      by (simp add: n)
    then show ?thesis
      using occupied(2-5) by blast
  next
    case (full A key a B)
    let ?g = "topology_write (cs_index s)"
    note op = open_write(1,3) [OF assms(1)]
    have "tg_publish ?g" "tg_canon ?g = canon (cs_index s)"
      by (simp_all add: topology_write_def)
    then obtain old evs s1 g1 where c: "commit_split emit P a key v s ?g = Inr (Some (old, evs), s1, g1)" "open_ok k s1 g1"
      "put v (elements s) = (old, open_elements s1 g1)" "same_config s s1" "step_frame k s (canon (cs_index s)) s1 (tg_canon g1)"
      using commit_split_ok [OF op(1), of v A key a B key emit] full(2) op(2) by auto
    obtain evs' s2 where e: "emit_events emit evs s1 = (evs', s2)"
      by force
    note s2 = emit_open [OF c(2) e]
    have closed: "closed_run k (cs_nodes s2) None (tg_canon g1)" if "settled k s"
      by (rule frame_settled [OF s2(4) [OF c(5)] _ open_okD(2) [OF s2(1)]]) (use that in \<open>simp add: settled_def\<close>)
    have "put_commit emit P (Split a key v) [] s ?g = Inr (Some (old, evs'), s2, g1)"
      using c(1) e by (simp add: put_commit_def commit_def)
    from guarded_ok [where act = "put_commit emit P (Split a key v) []", OF this s2(1)]
    obtain s' where "guarded P ?g (put_commit emit P (Split a key v) []) s = Inr (Some (old, evs'), s')"
      "cset_ok k s'" "elements s' = open_elements s2 g1" "same_config s2 s'" "settled k s \<longrightarrow> settled k s'" "canon (cs_index s') = tg_canon g1"
      using closed by auto
    moreover have "keyed k s'" if "keyed k s"
      by (rule keyed [OF _ that]; use frame_keyed [OF s2(4) [OF c(5)]] c(3) s2(2) calculation in \<open>simp add: open_elements_def\<close>)
    ultimately show ?thesis
      using full(1,3) c(3,4) s2 by (auto simp: n guard_for_def intro: same_config_trans)
  next
    case root
    let ?g = "topology_write (cs_index s)"
    note op = open_write(1,3) [OF assms(1)]
    have "tg_publish ?g" "tg_canon ?g = []"
      using root(2) by (simp_all add: topology_write_def)
    then obtain evs s1 g1 where c: "put_root emit P v s ?g = Inr (Some evs, s1, g1)" "open_ok k s1 g1"
      "open_elements s1 g1 = [v]" "same_config s s1" "step_frame k s (tg_canon ?g) s1 (tg_canon g1)"
      using put_root_ok [OF op(1)] by blast
    have "closed_run k (cs_nodes s1) None (tg_canon g1)"
      by (rule frame_settled [OF c(5) _ open_okD(2) [OF c(2)]]) (simp add: \<open>tg_canon ?g = []\<close>)
    then obtain s' where "guarded P ?g (put_root emit P v) s = Inr (Some evs, s')"
      "cset_ok k s'" "elements s' = [v]" "same_config s1 s'" "settled k s'" "canon (cs_index s') = tg_canon g1"
      using guarded_ok [where act = "put_root emit P v", OF c(1,2)] c(3) by auto
    moreover have "put v (elements s) = (None, [v])"
      using root(2) by (simp add: elements_def spec_put_def find_key_def ins_key_def)
    moreover have "keyed k s'"
      using frame_keyed [OF c(5)] c(3) calculation \<open>tg_canon ?g = []\<close> by (auto simp: keyed_def open_elements_def)
    ultimately show ?thesis
      using root(1) c(4) by (auto simp: n intro: same_config_trans)
  qed
qed

lemma put_inner_ok:
  assumes "cset_ok k s" and "0 < n"
  shows "\<exists>old evs s'. put_inner n emit P v s = Inr (Some ((old, evs), s')) \<and> cset_ok k s' \<and>
    put v (elements s) = (old, elements s') \<and> same_config s s' \<and> (settled k s \<longrightarrow> settled k s') \<and> (keyed k s \<longrightarrow> keyed k s')"
  using put_checked_inner_ok [OF assms, of emit v]
proof (elim disjE exE conjE)
  fix A key a B
  assume err: "put_checked_inner n emit P v s = Inr (Some (Err (a, partition_point (\<lambda>x. k x < k v) (cs_nodes s a), last (cs_nodes s a)), s))"
    and at: "focus k (k v) (canon (cs_index s)) A key a B" "has_key k (k v) (cs_nodes s a)"
  obtain old evs s' where "put_replace emit P v a (partition_point (\<lambda>x. k x < k v) (cs_nodes s a)) (last (cs_nodes s a)) s = Inr ((old, evs), s')"
    "put v (elements s) = (old, elements s')" "node_step k s (elements s') s'"
    using put_replace_ok [OF assms(1) at refl] by blast
  moreover have "\<exists>x\<in>set (elements s). k v \<le> k x"
    using at by (auto simp: elements_def focus_def has_key_def)
  ultimately show ?thesis
    using err node_step_config put_settled [OF assms(1)] put_keyed [OF cset_okD(6) [OF assms(1)]] node_step_index by (auto simp: put_inner_def)
qed (auto simp: put_inner_def)

lemma remove_inner_ok:
  assumes "cset_ok k s" and "borrow_ok k b" and "0 < n"
  shows "\<exists>old evs s'. remove_inner n emit P b q s = Inr (Some ((old, evs), s')) \<and> cset_ok k s' \<and>
    spec_remove b q (elements s) = (old, elements s') \<and> same_config s s' \<and> (settled k s \<longrightarrow> settled k s') \<and>
    (settled k s \<and> keyed k s \<longrightarrow> keyed k s')"
proof -
  obtain m where n: "n = Suc m"
    using assms(3) by (cases n) auto
  from assms(1,2) show ?thesis
  proof (cases rule: remove_attempt_cases [where q = q and emit = emit])
    case (settled old evs s')
    then show ?thesis
      using node_step_config [OF settled(3)] remove_settled [OF assms(1) settled(3,2)] remove_keyed [OF assms(2) settled(2)]
        node_step_index [OF settled(3)] settled(4) by (simp add: n)
  next
    case (repair x evs a key s1)
    let ?g = "topology_write_rekey (cs_index s1)"
    note ok = node_step_config [OF repair(3)]
    note op = open_write(2,4) [OF conjunct1 [OF ok]]
    obtain r g' where c: "commit False P (UpdateMax a key) s1 ?g = Inr (r, s1, g')" "open_ok k s1 g'"
      "open_elements s1 g' = elements s1" "step_frame k s1 (canon (cs_index s1)) s1 (tg_canon g')"
      and moved: "btm_get k (k key) (canon (cs_index s1)) = Some a \<Longrightarrow>
        \<forall>r\<in>set (tg_canon g'). snd r = a \<longrightarrow> k (fst r) \<in> k ` set (cs_nodes s1 a)"
      using commit_update_max_ok [OF op(1), of a key] op(2) by (auto simp: topology_write_rekey_def commit_def)
    have closed: "closed_run k (cs_nodes s1) None (tg_canon g')" if "settled k s"
      by (rule frame_settled [OF c(4) _ open_okD(2) [OF c(2)]])
        (use remove_settled [OF assms(1) repair(3,2) that] in \<open>simp add: settled_def\<close>)
    from guarded_ok [where act = "commit False P (UpdateMax a key)", OF c(1,2)]
    obtain s' where "guarded P ?g (commit False P (UpdateMax a key)) s1 = Inr (r, s')"
      "cset_ok k s'" "elements s' = elements s1" "same_config s1 s'" "settled k s \<longrightarrow> settled k s'" "canon (cs_index s') = tg_canon g'"
      using c(3) closed by auto
    moreover have "keyed k s'" if "keyed k s"
    proof (rule remove_keyed [OF assms(2) _ that])
      show "spec_remove b q (elements s) = (Some x, elements s')"
        using repair(2) calculation by simp
      have "btm_get k (k key) (canon (cs_index s1)) = Some a"
        using get_route [OF cset_okD(4) [OF assms(1)] repair(4)] node_step_index [OF repair(3)] by simp
      then have "k (fst r) \<in> k ` set (contents (cs_nodes s1) (tg_canon g'))" if "r \<in> set (tg_canon g')" "snd r = a" for r
        using moved that by (fastforce simp: contents_def)
      then have "r \<in> set (canon (cs_index s)) \<and> k (fst r) \<noteq> k x \<or> k (fst r) \<in> k ` set (open_elements s1 g')" if "r \<in> set (tg_canon g')" for r
        using frame_keyed [OF c(4) that] that repair(5) node_step_index [OF repair(3)] by (cases "snd r = a") (auto simp: open_elements_def)
      then show "\<forall>r\<in>set (canon (cs_index s')). r \<in> set (canon (cs_index s)) \<and> (\<forall>y. Some x = Some y \<longrightarrow> k (fst r) \<noteq> k y) \<or>
          k (fst r) \<in> k ` set (elements s')"
        using calculation c(3) by simp
    qed
    ultimately show ?thesis
      using repair(1,2) ok by (auto simp: n intro: same_config_trans)
  next
    case (singleton key a)
    let ?g = "topology_write (cs_index s)"
    note op = open_write(1,3) [OF assms(1)]
    have g: "tg_publish ?g" "tg_canon ?g = canon (cs_index s)"
      by (simp_all add: topology_write_def)
    obtain r s1 g1 where c: "remove_singleton emit P b q s ?g = Inr (r, s1, g1)" "open_ok k s1 g1" "same_config s s1"
      "step_frame k s (tg_canon ?g) s1 (tg_canon g1)"
      and res: "case r of None \<Rightarrow> s1 = s \<and> g1 = ?g \<and>
          (\<exists>key a. remove_target b q s (tg_canon ?g) = Some (key, a) \<and> 1 < length (cs_nodes s a))
        | Some (old, evs) \<Rightarrow> spec_remove b q (open_elements s ?g) = (old, open_elements s1 g1) \<and>
            (\<forall>x. old = Some x \<longrightarrow> (\<forall>r\<in>set (tg_canon g1). k (fst r) \<noteq> k x))"
      using remove_singleton_ok [OF op(1) g(1) assms(2), where q = q and emit = emit] by blast
    obtain old evs where r: "r = Some (old, evs)" "spec_remove b q (elements s) = (old, open_elements s1 g1)"
      "\<forall>x. old = Some x \<longrightarrow> (\<forall>r\<in>set (tg_canon g1). k (fst r) \<noteq> k x)"
      using res singleton(2,3) g(2) op(2) by (cases r) auto
    have closed: "closed_run k (cs_nodes s1) None (tg_canon g1)" if "settled k s"
      by (rule frame_settled [OF c(4) _ open_okD(2) [OF c(2)]]) (use that g(2) in \<open>simp add: settled_def\<close>)
    from guarded_ok [where act = "remove_singleton emit P b q", OF c(1,2)]
    obtain s' where "guarded P ?g (remove_singleton emit P b q) s = Inr (r, s')"
      "cset_ok k s'" "elements s' = open_elements s1 g1" "same_config s1 s'" "settled k s \<longrightarrow> settled k s'" "canon (cs_index s') = tg_canon g1"
      using closed by auto
    moreover have "keyed k s'" if "keyed k s"
      by (rule remove_keyed [OF assms(2) _ that, where q = q and old = old];
          use frame_keyed [OF c(4)] r(2,3) calculation g(2) in \<open>simp add: open_elements_def\<close>; blast)
    ultimately show ?thesis
      using singleton(1) r c(3) by (auto simp: n intro: same_config_trans)
  qed
qed

end

end
