(* ===== verification/Concurrent_Read.thy ===== *)
theory Concurrent_Read
  imports Concurrent_Remove
begin

text \<open>
  Point reads of the concurrent set, \<open>lock_node_for_value\<close>, \<open>get_with\<close>, \<open>contains\<close> and \<open>get\<close>. A
  reader takes no lock on the index: it loads the generation, routes through the published index,
  locks the node and loads the generation again. Other threads run in between, so a read is a
  function of the states it meets: \<open>obs t\<close> is the shared state at its \<open>t\<close>-th access. After two
  failed rounds it routes through the canonical index under the structural read lock. Spinning,
  yielding and the reclamation pin have no effect on the result and are left out.
\<close>

section \<open>The read loop\<close>

definition STABLE_READ_BLOCKING_FALLBACK_AFTER :: nat where
  "STABLE_READ_BLOCKING_FALLBACK_AFTER = 2"

text \<open>
  One optimistic round with its accesses: generation, snapshot, lock of the node, generation.
  \<open>None\<close> is a retry, otherwise the node to read, if any.
\<close>

definition stable_round ::
  "('a \<Rightarrow> 'q::linorder) \<Rightarrow> 'q \<Rightarrow> (nat \<Rightarrow> 'a cset) \<Rightarrow> nat \<Rightarrow> addr option option res" where
  "stable_round b q obs t =
     (let gen = generation (cs_index (obs t)) in
      if odd gen then Inr None
      else
        rbind (read_target_published b q (cs_borrow_order_matches (obs t)) (published (cs_index (obs (t + 1))))) (\<lambda>node.
        case node of
          None \<Rightarrow> Inr (if generation (cs_index (obs (t + 2))) = gen then Some None else None)
        | Some a \<Rightarrow> Inr (if generation (cs_index (obs (t + 3))) = gen then Some (Some a) else None)))"

lemma stable_round_code [code]:
  "stable_round b q obs t =
     (let gen = generation (cs_index (obs t)) in
      if bit gen 0 then Inr None
      else
        rbind (read_target_published b q (cs_borrow_order_matches (obs t)) (published (cs_index (obs (t + 1))))) (\<lambda>node.
        case node of
          None \<Rightarrow> Inr (if generation (cs_index (obs (t + 2))) = gen then Some None else None)
        | Some a \<Rightarrow> Inr (if generation (cs_index (obs (t + 3))) = gen then Some (Some a) else None)))"
  by (simp add: stable_round_def bit_0)

text \<open>The node to read and the instant at which it was locked.\<close>

function lock_node_for_value ::
  "('a \<Rightarrow> 'q::linorder) \<Rightarrow> 'q \<Rightarrow> (nat \<Rightarrow> 'a cset) \<Rightarrow> nat \<Rightarrow> nat \<Rightarrow> (addr option \<times> nat) res" where
  "lock_node_for_value b q obs retries t =
     (if STABLE_READ_BLOCKING_FALLBACK_AFTER \<le> retries then
        Inr (read_target_canonical b q (cs_borrow_order_matches (obs t)) (canon (cs_index (obs t))), t)
      else
        rbind (stable_round b q obs t) (\<lambda>r.
        case r of
          Some node \<Rightarrow> Inr (node, t + 2)
        | None \<Rightarrow> lock_node_for_value b q obs (Suc retries) (t + 4)))"
  by pat_completeness auto
termination
  by (relation "measure (\<lambda>(b, q, obs, retries, t). STABLE_READ_BLOCKING_FALLBACK_AFTER - retries)") auto

declare lock_node_for_value.simps [simp del]

definition get_with ::
  "'a search_fn \<Rightarrow> ('a \<Rightarrow> 'q::linorder) \<Rightarrow> 'q \<Rightarrow> ('a \<Rightarrow> 'r) \<Rightarrow> (nat \<Rightarrow> 'a cset) \<Rightarrow> 'r option res" where
  "get_with srch b q read obs =
     rbind (lock_node_for_value b q obs 0 0) (\<lambda>(node, t).
     case node of
       None \<Rightarrow> Inr None
     | Some a \<Rightarrow> get_with_guard srch b (cs_nodes (obs t) a) q read)"

definition cset_contains :: "'a search_fn \<Rightarrow> ('a \<Rightarrow> 'q::linorder) \<Rightarrow> 'q \<Rightarrow> (nat \<Rightarrow> 'a cset) \<Rightarrow> bool res" where
  "cset_contains srch b q obs = rbind (get_with srch b q (\<lambda>_. ()) obs) (\<lambda>r. Inr (r \<noteq> None))"

text \<open>\<open>get\<close> returns a reference into the locked node: its address, the position and the instant.\<close>

definition cset_get ::
  "'a search_fn \<Rightarrow> ('a \<Rightarrow> 'q::linorder) \<Rightarrow> 'q \<Rightarrow> (nat \<Rightarrow> 'a cset) \<Rightarrow> (addr \<times> nat \<times> nat) option res" where
  "cset_get srch b q obs =
     rbind (lock_node_for_value b q obs 0 0) (\<lambda>(node, t).
     case node of
       None \<Rightarrow> Inr None
     | Some a \<Rightarrow> rbind (node_try_select srch b (cs_nodes (obs t) a) q) (\<lambda>position.
         Inr (map_option (\<lambda>i. (a, i, t)) position)))"

section \<open>Both indexes route alike\<close>

lemma read_target_route: "read_target_canonical b q m idx = map_option snd (route b q idx)"
  by (cases idx rule: rev_cases) (auto simp: read_target_canonical_def route_def or_else_def first_for_borrowed_bound_def
      split: option.splits)

lemma read_target_published_eq:
  assumes "in_step k idx p keys" and "\<And>x y. k x = k y \<Longrightarrow> b x = b y" and "m \<Longrightarrow> borrow_ok k b"
  shows "read_target_published b q m p = Inr (read_target_canonical b q m idx)"
proof -
  note st = in_stepD [OF assms(1)]
  have "first_published_for_borrowed_bound b p (Included q) m = Inr (btm_first_from b (Included q) (pub_iter p))"
    using first_for_bound_eq [OF st(3) assms(3)]
    by (cases m) (simp_all add: first_published_for_borrowed_bound_def btm_first_from_def)
  moreover have "pub_last_key_value p = vec_last (pub_iter p)" "pub_first_key_value p = vec_first (pub_iter p)"
    using pub_ends [of p] st(3) by (simp_all add: pub_ok_def)
  moreover have "read_target_canonical b q m (pub_iter p) = read_target_canonical b q m idx"
    unfolding read_target_route using assms(2) by (rule route_in_step [OF assms(1)])
  ultimately show ?thesis
    by (simp add: read_target_published_def read_target_canonical_def first_for_borrowed_bound_def)
qed

context cset_ops
begin

lemma get_with_guard_eq:
  assumes "sorted_keys b n"
  shows "get_with_guard (op_search P) b n q read = Inr (map_option read (find_key b q n))"
proof (cases "has_key b q n")
  case True
  note at = has_key_partition_point [OF assms True refl]
  then show ?thesis
    using True srch.node_try_select_eq [OF assms] find_key_nth [OF assms at(1)]
    by (simp add: get_with_guard_def node_get_ith_def)
next
  case False
  then show ?thesis
    using srch.node_try_select_eq [OF assms] find_key_None [of b q n] by (simp add: get_with_guard_def)
qed

text \<open>Reading the node the index routes to is looking the value up among all elements.\<close>

lemma read_routed:
  assumes "borrow_ok k b" and "ranged k nodes None idx" and "sorted_keys (k \<circ> fst) idx" and "distinct (map snd idx)"
  shows "(case read_target_canonical b q m idx of
      None \<Rightarrow> Inr None | Some a \<Rightarrow> get_with_guard (op_search P) b (nodes a) q read) =
    Inr (map_option read (find_key b q (contents nodes idx)))"
proof (cases "idx = []")
  case True
  then show ?thesis
    by (simp add: read_target_route route_def btm_first_from_def find_key_def)
next
  case False
  obtain A key a B where r: "route b q idx = Some (key, a)" and fo: "focus b q idx A key a B"
    by (rule route_focus [OF False])
  note bf = borrow_focus_facts [OF assms fo]
  note f = focus_facts [OF assms(2-4) bf(3)]
  have "sorted_keys b (nodes a)"
    using f(3) sorted_keys_borrow [OF assms(1)] by (simp add: node_in_def)
  then have "get_with_guard (op_search P) b (nodes a) q read = Inr (map_option read (find_key b q (nodes a)))"
    by (rule get_with_guard_eq)
  then show ?thesis
    unfolding f(9) find_key_mid [OF bf(1,2)] by (simp add: read_target_route r)
qed

lemma get_with_optimistic_eq:
  assumes "cset_ok k s" and "borrow_ok k b"
  shows "get_with_optimistic (op_search P) b q read s = Inr (map_option read (find_key b q (elements s)))"
  using read_routed [OF assms(2) cset_okD(3-5) [OF assms(1)]]
  by (simp add: get_with_optimistic_def elements_def)

end

end
