(* ===== verification/Interleaving.thy ===== *)
theory Interleaving
  imports Concurrent_Read
begin

text \<open>
  Threads that insert into and remove from one concurrent set, \<open>put_checked_inner\<close>, \<open>put_inner\<close> and
  \<open>remove_inner\<close> of \<open>src/concurrent/set.rs\<close> run side by side. A step of a thread is one critical
  section: its turn under the structural read lock and a node lock, taking the structural write
  lock, the section under the write guard, dropping the guard. A thread that finds the structural
  lock taken waits. Replacing a stored value needs the node lock only, which the thread keeps since
  its search, so search and replacement are one step.
\<close>

datatype ('a, 'q) call = CPut 'a | CRemove 'q

text \<open>What a thread wants the structural write lock for, with the events it already has.\<close>

datatype 'a want =
    WantSplit addr 'a
  | WantRekey addr 'a "'a option" "'a change_event list"
  | WantRoot
  | WantUnlink

text \<open>\<open>Leaving\<close> holds the result, or \<open>None\<close> to start over.\<close>

datatype ('a, 'q) pc =
    Start "('a, 'q) call"
  | Waiting "('a, 'q) call" "'a want"
  | Inside "('a, 'q) call" "'a want"
  | Leaving "('a, 'q) call" "('a option \<times> 'a change_event list) option"
  | Returned "'a option" "'a change_event list"

record ('a, 'q) sys =
  sy_set :: "'a cset"
  sy_guard :: "'a write_guard option"
  sy_pcs :: "('a, 'q) pc list"

definition sys_start :: "'a cset \<Rightarrow> ('a, 'q) call list \<Rightarrow> ('a, 'q) sys" where
  "sys_start s cs = \<lparr> sy_set = s, sy_guard = None, sy_pcs = map Start cs \<rparr>"

section \<open>Steps\<close>

text \<open>Under the structural read lock: one pass of the loop up to where the lock is released.\<close>

definition start_put ::
  "bool \<Rightarrow> ('a, 'k::linorder) ops \<Rightarrow> 'a \<Rightarrow> 'a cset \<Rightarrow> (('a, 'q) pc \<times> 'a cset) res" where
  "start_put emit P v s =
     rbind (put_attempt emit P v s) (\<lambda>(r, s1).
     case r of
       PutDone old evs \<Rightarrow> Inr (Returned old evs, s1)
     | PutOccupied a idx mx \<Rightarrow>
         rbind (put_replace emit P v a idx mx s1) (\<lambda>((old, evs), s2). Inr (Returned old evs, s2))
     | PutPending (UpdateMax a key) evs \<Rightarrow> Inr (Waiting (CPut v) (WantRekey a key None evs), s1)
     | PutPending (Split a key _) evs \<Rightarrow> Inr (Waiting (CPut v) (WantSplit a key), s1)
     | PutRoot \<Rightarrow> Inr (Waiting (CPut v) WantRoot, s1))"

definition start_remove ::
  "bool \<Rightarrow> ('a, 'k::linorder) ops \<Rightarrow> ('a \<Rightarrow> 'q::linorder) \<Rightarrow> 'q \<Rightarrow> 'a cset \<Rightarrow> (('a, 'q) pc \<times> 'a cset) res" where
  "start_remove emit P b q s =
     rbind (remove_attempt emit P b q s) (\<lambda>(r, s1).
     Inr (case r of
         RemoveDone old evs \<Rightarrow> Returned old evs
       | RemoveRepair x evs (UpdateMax a key) \<Rightarrow> Waiting (CRemove q) (WantRekey a key (Some x) evs)
       | RemoveRepair x evs (Split _ _ _) \<Rightarrow> Returned (Some x) evs
       | RemoveSingleton \<Rightarrow> Waiting (CRemove q) WantUnlink, s1))"

definition open_guard :: "'a want \<Rightarrow> 'a topology \<Rightarrow> 'a write_guard" where
  "open_guard w t = (case w of WantRekey _ _ _ _ \<Rightarrow> topology_write_rekey t | _ \<Rightarrow> topology_write t)"

text \<open>Under the write guard: the result for the caller, or \<open>None\<close> to start over.\<close>

definition guard_section ::
  "bool \<Rightarrow> ('a, 'k::linorder) ops \<Rightarrow> ('a \<Rightarrow> 'q::linorder) \<Rightarrow> ('a, 'q) call \<Rightarrow> 'a want \<Rightarrow> 'a cset \<Rightarrow> 'a write_guard \<Rightarrow>
     (('a option \<times> 'a change_event list) option \<times> 'a cset \<times> 'a write_guard) res" where
  "guard_section emit P b c w s g =
     (case (c, w) of
        (CPut v, WantSplit a key) \<Rightarrow> put_commit emit P (Split a key v) [] s g
      | (CPut v, WantRekey a key _ evs) \<Rightarrow> put_commit emit P (UpdateMax a key) evs s g
      | (CPut v, WantRoot) \<Rightarrow>
          rbind (put_root emit P v s g) (\<lambda>(r, s1, g1). Inr (map_option (\<lambda>evs. (None, evs)) r, s1, g1))
      | (CRemove q, WantRekey a key old evs) \<Rightarrow>
          rbind (commit False P (UpdateMax a key) s g) (\<lambda>(_, s1, g1). Inr (Some (old, evs), s1, g1))
      | (CRemove q, WantUnlink) \<Rightarrow> remove_singleton emit P b q s g
      | _ \<Rightarrow> Inr (None, s, g))"

definition with_topology :: "'a topology \<Rightarrow> 'a cset \<Rightarrow> 'a cset" where
  "with_topology t s = s\<lparr> cs_index := t \<rparr>"

text \<open>The step of one thread; a thread that has to wait leaves the system as it is.\<close>

definition pc_step ::
  "bool \<Rightarrow> ('a, 'k::linorder) ops \<Rightarrow> ('a \<Rightarrow> 'q::linorder) \<Rightarrow> ('a, 'q) pc \<Rightarrow> 'a cset \<Rightarrow> 'a write_guard option \<Rightarrow>
     (('a, 'q) pc \<times> 'a cset \<times> 'a write_guard option) res" where
  "pc_step emit P b pc s lock =
     (case (pc, lock) of
        (Start (CPut v), None) \<Rightarrow> rbind (start_put emit P v s) (\<lambda>(pc', s'). Inr (pc', s', None))
      | (Start (CRemove q), None) \<Rightarrow> rbind (start_remove emit P b q s) (\<lambda>(pc', s'). Inr (pc', s', None))
      | (Waiting c w, None) \<Rightarrow>
          (let g = open_guard w (cs_index s) in Inr (Inside c w, with_topology (tg_topology g) s, Some g))
      | (Inside c w, Some g) \<Rightarrow>
          rbind (guard_section emit P b c w s g) (\<lambda>(r, s1, g1).
          Inr (Leaving c r, with_topology (tg_topology g1) s1, Some g1))
      | (Leaving c r, Some g) \<Rightarrow>
          rbind (drop_guard (op_key P) g) (\<lambda>t.
          Inr (case r of Some (old, evs) \<Rightarrow> Returned old evs | None \<Rightarrow> Start c, with_topology t s, None))
      | _ \<Rightarrow> Inr (pc, s, lock))"

definition sys_step ::
  "bool \<Rightarrow> ('a, 'k::linorder) ops \<Rightarrow> ('a \<Rightarrow> 'q::linorder) \<Rightarrow> nat \<Rightarrow> ('a, 'q) sys \<Rightarrow> ('a, 'q) sys res" where
  "sys_step emit P b i y =
     (if i < length (sy_pcs y) then
        rbind (pc_step emit P b (sy_pcs y ! i) (sy_set y) (sy_guard y)) (\<lambda>(pc, s, lock).
        Inr \<lparr> sy_set = s, sy_guard = lock, sy_pcs = (sy_pcs y)[i := pc] \<rparr>)
      else Inr y)"

fun sys_run ::
  "bool \<Rightarrow> ('a, 'k::linorder) ops \<Rightarrow> ('a \<Rightarrow> 'q::linorder) \<Rightarrow> nat list \<Rightarrow> ('a, 'q) sys \<Rightarrow> ('a, 'q) sys res" where
  "sys_run emit P b [] y = Inr y"
| "sys_run emit P b (i # is) y = rbind (sys_step emit P b i y) (sys_run emit P b is)"

end
