(* ===== verification/Interleaving_Facts.thy ===== *)
theory Interleaving_Facts
  imports Interleaving
begin

text \<open>
  Every step of every thread keeps the invariant of the system, and acts on the elements either as
  nothing or as the thread's own operation, once. The condition is that a split which still finds
  its node in the index has a value that still routes there; \<open>Concurrent_Props\<close> has a run where
  this fails.
\<close>

section \<open>What a program counter says\<close>

definition spec_call ::
  "('a, 'k::linorder) ops \<Rightarrow> ('a \<Rightarrow> 'q) \<Rightarrow> ('a, 'q) call \<Rightarrow> 'a list \<Rightarrow> 'a option \<times> 'a list" where
  "spec_call P b c xs = (case c of CPut v \<Rightarrow> spec_put (op_key P) (op_adopt P) v xs | CRemove q \<Rightarrow> spec_remove b q xs)"

fun want_answer :: "'a want \<Rightarrow> 'a option option" where
  "want_answer (WantRekey _ _ old _) = Some old"
| "want_answer (WantSplit _ _) = None"
| "want_answer WantRoot = None"
| "want_answer WantUnlink = None"

text \<open>The result that is already fixed, and the operation of a thread that has not returned.\<close>

fun answered :: "('a, 'q) pc \<Rightarrow> 'a option option" where
  "answered (Start c) = None"
| "answered (Waiting c w) = want_answer w"
| "answered (Inside c w) = want_answer w"
| "answered (Leaving c r) = map_option fst r"
| "answered (Returned old evs) = Some old"

fun pc_call :: "('a, 'q) pc \<Rightarrow> ('a, 'q) call option" where
  "pc_call (Start c) = Some c"
| "pc_call (Waiting c w) = Some c"
| "pc_call (Inside c w) = Some c"
| "pc_call (Leaving c r) = Some c"
| "pc_call (Returned old evs) = None"

fun holds :: "('a, 'q) pc \<Rightarrow> bool" where
  "holds (Inside c w) = True"
| "holds (Leaving c r) = True"
| "holds _ = False"

definition want_ok :: "('a, 'q) call \<Rightarrow> 'a want \<Rightarrow> bool" where
  "want_ok c w = (case (c, w) of (CPut v, WantRekey a key old evs) \<Rightarrow> old = None | _ \<Rightarrow> True)"

fun pc_ok :: "('a, 'q) pc \<Rightarrow> bool" where
  "pc_ok (Waiting c w) = want_ok c w"
| "pc_ok (Inside c w) = want_ok c w"
| "pc_ok _ = True"

definition is_rekey :: "'a want \<Rightarrow> bool" where
  "is_rekey w = (case w of WantRekey _ _ _ _ \<Rightarrow> True | _ \<Rightarrow> False)"

text \<open>A thread inside has just opened the guard it needs.\<close>

fun guard_fits :: "('a, 'q) pc \<Rightarrow> 'a write_guard \<Rightarrow> bool" where
  "guard_fits (Inside c w) g \<longleftrightarrow> \<not> tg_dirty g \<and> (tg_publish g \<longleftrightarrow> \<not> is_rekey w)"
| "guard_fits _ g \<longleftrightarrow> True"

definition fresh_split :: "('a, 'k::linorder) ops \<Rightarrow> ('a, 'q) pc \<Rightarrow> 'a write_guard option \<Rightarrow> bool" where
  "fresh_split P pc lock = (case (pc, lock) of
     (Inside (CPut v) (WantSplit a key), Some g) \<Rightarrow>
       btm_get (op_key P) (op_key P key) (tg_canon g) = Some a \<longrightarrow>
       map_option snd (put_target P v (tg_canon g)) = Some a
   | _ \<Rightarrow> True)"

section \<open>Invariants\<close>

definition lock_ok :: "('a \<Rightarrow> 'k::linorder) \<Rightarrow> 'a cset \<Rightarrow> 'a write_guard option \<Rightarrow> bool" where
  "lock_ok k s lock = (case lock of None \<Rightarrow> cset_ok k s | Some g \<Rightarrow> open_ok k s g \<and> cs_index s = tg_topology g)"

text \<open>A step is silent, or it is the one at which the thread's operation takes effect.\<close>

definition effect ::
  "('a, 'k::linorder) ops \<Rightarrow> ('a \<Rightarrow> 'q) \<Rightarrow> ('a, 'q) pc \<Rightarrow> 'a list \<Rightarrow> ('a, 'q) pc \<Rightarrow> 'a list \<Rightarrow> bool" where
  "effect P b pc xs pc' xs' \<longleftrightarrow> answered pc' = answered pc \<and> xs' = xs \<or>
     answered pc = None \<and> (\<exists>c old. pc_call pc = Some c \<and> answered pc' = Some old \<and> spec_call P b c xs = (old, xs'))"

text \<open>A thread that still has to move the key of the last node: while none does, the set is settled.\<close>

fun rekeys :: "('a, 'q) pc \<Rightarrow> 'a route option" where
  "rekeys (Waiting c (WantRekey a key old evs)) = Some (key, a)"
| "rekeys (Inside c (WantRekey a key old evs)) = Some (key, a)"
| "rekeys _ = None"

definition pends :: "('a \<Rightarrow> 'k) \<Rightarrow> 'a cset \<Rightarrow> ('a, 'q) pc \<Rightarrow> bool" where
  "pends k s pc \<longleftrightarrow> (\<exists>key key' a. rekeys pc = Some (key, a) \<and> vec_last (canon (cs_index s)) = Some (key', a) \<and> k key' = k key)"

definition settle_step :: "('a \<Rightarrow> 'k::linorder) \<Rightarrow> ('a, 'q) pc \<Rightarrow> 'a cset \<Rightarrow> ('a, 'q) pc \<Rightarrow> 'a cset \<Rightarrow> bool" where
  "settle_step k pc s pc' s' \<longleftrightarrow> settled k s' \<or>
     vec_last (canon (cs_index s')) = vec_last (canon (cs_index s)) \<and> (settled k s \<or> pends k s pc \<longrightarrow> pends k s' pc')"

lemma pends_None [simp]: "rekeys pc = None \<Longrightarrow> \<not> pends k s pc"
  by (simp add: pends_def)

lemma settle_step_keep:
  "rekeys pc = None \<Longrightarrow> vec_last (canon (cs_index s')) = vec_last (canon (cs_index s)) \<Longrightarrow> (settled k s \<Longrightarrow> settled k s') \<Longrightarrow>
    settle_step k pc s pc' s'"
  by (auto simp: settle_step_def)

definition pc_step_ok ::
  "('a, 'k::linorder) ops \<Rightarrow> ('a \<Rightarrow> 'q) \<Rightarrow> ('a, 'q) pc \<Rightarrow> 'a cset \<Rightarrow> ('a, 'q) pc \<Rightarrow> 'a cset \<Rightarrow> 'a write_guard option \<Rightarrow> bool" where
  "pc_step_ok P b pc s pc' s' lock' \<longleftrightarrow> lock_ok (op_key P) s' lock' \<and> pc_ok pc' \<and> (holds pc' \<longleftrightarrow> lock' \<noteq> None) \<and>
     (\<forall>g. lock' = Some g \<longrightarrow> guard_fits pc' g) \<and> effect P b pc (elements s) pc' (elements s') \<and>
     (pc_call pc' = pc_call pc \<or> pc_call pc' = None) \<and> same_config s s' \<and>
     node_frame s (canon (cs_index s)) s' (canon (cs_index s')) \<and> settle_step (op_key P) pc s pc' s'"

lemma open_elements_elements: "cs_index s = tg_topology g \<Longrightarrow> open_elements s g = elements s"
  by (simp add: open_elements_def elements_def)

lemma with_topology_simps [simp]:
  "node_frame s idx (with_topology t s') idx' = node_frame s idx s' idx'"
  "cs_index (with_topology t s) = t" "cs_nodes (with_topology t s) = cs_nodes s" "cs_next (with_topology t s) = cs_next s"
  "elements (with_topology t s) = contents (cs_nodes s) (canon t)" "same_config s (with_topology t s)"
  "same_config s' (with_topology t s) = same_config s' s"
  by (simp_all add: with_topology_def elements_def same_config_def node_frame_def)

lemma open_ok_with_topology [simp]: "open_ok k (with_topology t s) g = open_ok k s g"
  by (simp add: open_ok_def heap_ok_def)

context cset_ops
begin

text \<open>Steps under the structural read lock change one node, and unsettle the set only by leaving a rekey behind.\<close>

lemma start_ok:
  assumes "node_step k s (elements s') s'" and "effect P b (Start c) (elements s) pc' (elements s')"
    and "pc_ok pc'" and "\<not> holds pc'" and "pc_call pc' = Some c \<or> pc_call pc' = None"
    and "settled k s \<Longrightarrow> settled k s' \<or> pends k s' pc'"
  shows "pc_step_ok P b (Start c) s pc' s' None"
proof -
  have "cs_index s' = cs_index s"
    using assms(1) by (simp add: node_step_def)
  then have "settle_step k (Start c) s pc' s'"
    using assms(6) by (auto simp: settle_step_def)
  then show ?thesis
    using assms(2-5) node_step_config [OF assms(1)] node_step_frame [OF assms(1)] by (simp add: pc_step_ok_def lock_ok_def)
qed

lemma grown_pends:
  assumes "cset_ok k s" and "node_step k s (elements s') s'" and "put v (elements s) = (old, elements s')" and "settled k s"
    and "focus k (k v) (canon (cs_index s)) A key a B" and "rekeys pc' = Some (key, a)"
  shows "settled k s' \<or> pends k s' pc'"
  using grown_last [OF assms(1-5)] assms(6) by (auto simp: pends_def)

lemma start_put_ok:
  assumes "cset_ok k s"
  shows "\<exists>pc' s'. start_put emit P v s = Inr (pc', s') \<and> pc_step_ok P b (Start (CPut v)) s pc' s' None"
  using assms
proof (cases rule: put_attempt_cases [where v = v and emit = emit])
  case (inserted evs s')
  have "pc_step_ok P b (Start (CPut v)) s (Returned None evs) s' None"
    using put_settled [OF assms inserted(3,2) _ inserted(4)] inserted(2)
    by (intro start_ok [OF inserted(3)]) (auto simp: effect_def spec_call_def)
  then show ?thesis
    using inserted(1) by (simp add: start_put_def)
next
  case (grown a key evs s' A B)
  have "pc_step_ok P b (Start (CPut v)) s (Waiting (CPut v) (WantRekey a key None evs)) s' None"
    using grown_pends [OF assms grown(3,2) _ grown(4), where pc' = "Waiting (CPut v) (WantRekey a key None evs)"] grown(2)
    by (intro start_ok [OF grown(3)]) (auto simp: effect_def spec_call_def want_ok_def)
  then show ?thesis
    using grown(1) by (simp add: start_put_def)
next
  case (occupied A key a B j)
  obtain old evs s' where r: "put_replace emit P v a j (last (cs_nodes s a)) s = Inr ((old, evs), s')"
    "put v (elements s) = (old, elements s')" "node_step k s (elements s') s'"
    using put_replace_ok [OF assms occupied(2-4)] by blast
  have "set (cs_nodes s a) \<subseteq> set (elements s)"
    using occupied(2) by (auto simp: elements_def focus_def)
  then have "\<exists>x\<in>set (elements s). k v \<le> k x"
    using occupied(3) by (auto simp: has_key_def)
  then have "pc_step_ok P b (Start (CPut v)) s (Returned old evs) s' None"
    using put_settled [OF assms r(3,2)] r(2) by (intro start_ok [OF r(3)]) (auto simp: effect_def spec_call_def)
  then show ?thesis
    using occupied(1) r(1) by (simp add: start_put_def)
next
  case (full A key a B)
  have "pc_step_ok P b (Start (CPut v)) s (Waiting (CPut v) (WantSplit a key)) s None"
    by (rule start_ok [OF node_step_refl [OF assms]]) (simp_all add: effect_def want_ok_def)
  then show ?thesis
    using full(1) by (simp add: start_put_def)
next
  case root
  have "pc_step_ok P b (Start (CPut v)) s (Waiting (CPut v) WantRoot) s None"
    by (rule start_ok [OF node_step_refl [OF assms]]) (simp_all add: effect_def want_ok_def)
  then show ?thesis
    using root(1) by (simp add: start_put_def)
qed

lemma start_remove_ok:
  assumes "cset_ok k s" and "borrow_ok k b"
  shows "\<exists>pc' s'. start_remove emit P b q s = Inr (pc', s') \<and> pc_step_ok P b (Start (CRemove q)) s pc' s' None"
  using assms
proof (cases rule: remove_attempt_cases [where q = q and emit = emit])
  case (settled old evs s')
  have "pc_step_ok P b (Start (CRemove q)) s (Returned old evs) s' None"
    using remove_settled [OF assms(1) settled(3,2)] settled(2)
    by (intro start_ok [OF settled(3)]) (auto simp: effect_def spec_call_def)
  then show ?thesis
    using settled(1) by (simp add: start_remove_def)
next
  case (repair x evs a key s')
  have "pc_step_ok P b (Start (CRemove q)) s (Waiting (CRemove q) (WantRekey a key (Some x) evs)) s' None"
    using remove_settled [OF assms(1) repair(3,2)] repair(2)
    by (intro start_ok [OF repair(3)]) (auto simp: effect_def spec_call_def want_ok_def)
  then show ?thesis
    using repair(1) by (simp add: start_remove_def)
next
  case (singleton key a)
  have "pc_step_ok P b (Start (CRemove q)) s (Waiting (CRemove q) WantUnlink) s None"
    by (rule start_ok [OF node_step_refl [OF assms(1)]]) (simp_all add: effect_def want_ok_def)
  then show ?thesis
    using singleton(1) by (simp add: start_remove_def)
qed

text \<open>Taking and dropping the guard are silent.\<close>

lemma waiting_ok:
  assumes "cset_ok k s" and "want_ok c w"
  shows "pc_step_ok P b (Waiting c w) s (Inside c w) (with_topology (tg_topology (open_guard w (cs_index s))) s)
    (Some (open_guard w (cs_index s)))"
proof -
  have "open_ok k s (open_guard w (cs_index s))" "tg_canon (open_guard w (cs_index s)) = canon (cs_index s)"
    "\<not> tg_dirty (open_guard w (cs_index s))" "tg_publish (open_guard w (cs_index s)) \<longleftrightarrow> \<not> is_rekey w"
    using open_write(1,2) [OF assms(1)]
    by (auto simp: open_guard_def is_rekey_def topology_write_def topology_write_rekey_def split: want.splits)
  moreover from this have "settle_step k (Waiting c w) s (Inside c w) (with_topology (tg_topology (open_guard w (cs_index s))) s)"
    by (cases w) (simp_all add: settle_step_def pends_def settled_def)
  ultimately show ?thesis
    using assms(2) by (simp add: pc_step_ok_def lock_ok_def effect_def elements_def)
qed

lemma leaving_ok:
  assumes "open_ok k s g" and "cs_index s = tg_topology g"
  shows "\<exists>t. drop_guard k g = Inr t \<and> pc_step_ok P b (Leaving c r) s
    (case r of Some (old, evs) \<Rightarrow> Returned old evs | None \<Rightarrow> Start c) (with_topology t s) None"
proof -
  obtain t where t: "drop_guard k g = Inr t" "topology_ok k t" "canon t = tg_canon g"
    using drop_guard_ok [OF open_okD(1) [OF assms(1)]] by blast
  moreover have "settle_step k (Leaving c r) s pc' (with_topology t s)" for pc'
    using t(3) assms(2) by (intro settle_step_keep) (simp_all add: settled_def)
  ultimately show ?thesis
    using assms by (auto simp: pc_step_ok_def lock_ok_def effect_def cset_ok_def open_ok_def heap_ok_def elements_def
        split: option.splits)
qed

section \<open>Sections under the guard\<close>

lemma inside_ok:
  assumes "open_ok k s1 g1" and "same_config s s1" and "cs_index s = tg_topology g"
    and "step_frame k s (tg_canon g) s1 (tg_canon g1)" and "pends k s (Inside c w) \<Longrightarrow> closed_run k (cs_nodes s1) None (tg_canon g1)"
    and "map_option fst r = want_answer w \<and> open_elements s1 g1 = elements s \<or>
      want_answer w = None \<and> (\<exists>old. map_option fst r = Some old \<and> spec_call P b c (elements s) = (old, open_elements s1 g1))"
  shows "pc_step_ok P b (Inside c w) s (Leaving c r) (with_topology (tg_topology g1) s1) (Some g1)"
proof -
  have "settle_step k (Inside c w) s (Leaving c r) (with_topology (tg_topology g1) s1)"
    using assms(3,4,5) frame_settled [OF assms(4) _ open_okD(2) [OF assms(1)]]
    by (auto simp: settle_step_def settled_def step_frame_def)
  then show ?thesis
    using assms by (auto simp: pc_step_ok_def lock_ok_def effect_def open_elements_def step_frame_def node_frame_def)
qed

lemma inside_idle:
  assumes "open_ok k s g" and "cs_index s = tg_topology g" and "want_answer w = None"
  shows "pc_step_ok P b (Inside c w) s (Leaving c None) (with_topology (tg_topology g) s) (Some g)"
  by (rule inside_ok [OF assms(1) same_config_simps assms(2) step_frame_refl])
    (use assms(2,3) in \<open>cases w; simp add: open_elements_elements\<close>)+

lemma routed_split:
  assumes "open_ok k s g" and "btm_get k (k key) (tg_canon g) = Some a"
    and "map_option snd (put_target P v (tg_canon g)) = Some a"
  obtains A key' B where "focus k (k v) (tg_canon g) A key' a B" "k key = k key'"
proof -
  note ok = open_okD [OF assms(1)]
  obtain A x B where x: "focus k (k key) (tg_canon g) A x a B" "k x = k key"
    by (rule get_focus [OF ok(3) assms(2)])
  then have ne: "tg_canon g \<noteq> []"
    by (simp add: focus_def)
  obtain A' key' a' B' where r: "route k (k v) (tg_canon g) = Some (key', a')" "focus k (k v) (tg_canon g) A' key' a' B'"
    by (rule route_focus [OF ne])
  then have a': "a' = a"
    using assms(3) by (simp add: put_target_route)
  have "(x, a) \<in> set (tg_canon g)"
    using x(1) by (simp add: focus_def)
  moreover have "(key', a) \<in> set (tg_canon g)"
    using r(2) a' by (simp add: focus_def)
  moreover have "inj_on snd (set (tg_canon g))"
    using ok(4) by (simp add: distinct_map)
  ultimately have "x = key'"
    by (metis inj_onD prod.inject snd_conv)
  then show thesis
    using that r(2) a' x(2) by simp
qed

lemma split_section:
  assumes "open_ok k s g" and "cs_index s = tg_topology g" and "tg_publish g"
    and "fresh_split P (Inside (CPut v) (WantSplit a key)) (Some g)"
  shows "\<exists>r s1 g1. put_commit emit P (Split a key v) [] s g = Inr (r, s1, g1) \<and>
    pc_step_ok P b (Inside (CPut v) (WantSplit a key)) s (Leaving (CPut v) r) (with_topology (tg_topology g1) s1) (Some g1)"
proof (cases "btm_get k (k key) (tg_canon g) = Some a")
  case False
  then have "put_commit emit P (Split a key v) [] s g = Inr (None, s, g)"
    by (simp add: put_commit_def commit_def commit_split_def)
  then show ?thesis
    using inside_idle [OF assms(1,2), where w = "WantSplit a key"] by simp
next
  case True
  have "map_option snd (put_target P v (tg_canon g)) = Some a"
    using assms(4) True by (simp add: fresh_split_def)
  then obtain A key' B where fo: "focus k (k v) (tg_canon g) A key' a B" "k key = k key'"
    by (rule routed_split [OF assms(1) True])
  obtain old evs s1 g1 where c: "commit_split emit P a key v s g = Inr (Some (old, evs), s1, g1)" "open_ok k s1 g1"
    "put v (open_elements s g) = (old, open_elements s1 g1)" "same_config s s1" "step_frame k s (tg_canon g) s1 (tg_canon g1)"
    using commit_split_ok [OF assms(1,3) fo] by blast
  obtain evs' s2 where e: "emit_events emit evs s1 = (evs', s2)"
    by force
  note e' = emit_open [OF c(2) e]
  have "put_commit emit P (Split a key v) [] s g = Inr (Some (old, evs'), s2, g1)"
    using c(1) e by (simp add: put_commit_def commit_def)
  moreover have "pc_step_ok P b (Inside (CPut v) (WantSplit a key)) s (Leaving (CPut v) (Some (old, evs')))
      (with_topology (tg_topology g1) s2) (Some g1)"
    by (rule inside_ok [OF e'(1) same_config_trans [OF c(4) e'(3)] assms(2) e'(4) [OF c(5)]])
      (use c(3) e'(2) assms(2) in \<open>simp_all add: open_elements_elements spec_call_def\<close>)
  ultimately show ?thesis
    by simp
qed

lemma rekey_section:
  assumes "open_ok k s g" and "cs_index s = tg_topology g" and "\<not> tg_publish g" and "\<not> tg_dirty g"
    and "want_ok c (WantRekey a key old evs)"
  shows "\<exists>r s1 g1. guard_section emit P b c (WantRekey a key old evs) s g = Inr (r, s1, g1) \<and>
    pc_step_ok P b (Inside c (WantRekey a key old evs)) s (Leaving c r) (with_topology (tg_topology g1) s1) (Some g1)"
proof -
  obtain r g1 where c: "commit_update_max P a key s g = Inr (r, s, g1)" "open_ok k s g1"
    "open_elements s g1 = open_elements s g" "r = None \<or> r = Some (None, [])" "step_frame k s (tg_canon g) s (tg_canon g1)"
    and last: "btm_get k (k key) (tg_canon g) = Some a \<Longrightarrow> map_option snd (vec_last (tg_canon g)) = Some a \<Longrightarrow>
      closed_run k (cs_nodes s) None (tg_canon g1)"
    using commit_update_max_ok [OF assms(1,3,4), of a key] by blast
  obtain evs' where run: "guard_section emit P b c (WantRekey a key old evs) s g = Inr (Some (old, evs'), s, g1)"
    using c(1,4) assms(5)
    by (cases c) (auto simp: guard_section_def put_commit_def commit_def emit_events_def want_ok_def)
  have "closed_run k (cs_nodes s) None (tg_canon g1)" if "pends k s (Inside c (WantRekey a key old evs))"
    using that last get_last [OF open_okD(3) [OF assms(1)]] assms(2) by (auto simp: pends_def)
  then have "pc_step_ok P b (Inside c (WantRekey a key old evs)) s (Leaving c (Some (old, evs')))
      (with_topology (tg_topology g1) s) (Some g1)"
    by (rule inside_ok [OF c(2) same_config_simps assms(2) c(5)])
      (use c(3) open_elements_elements [OF assms(2)] in simp_all)
  then show ?thesis
    using run by blast
qed

lemma root_section:
  assumes "open_ok k s g" and "cs_index s = tg_topology g" and "tg_publish g"
  shows "\<exists>r s1 g1. guard_section emit P b (CPut v) WantRoot s g = Inr (r, s1, g1) \<and>
    pc_step_ok P b (Inside (CPut v) WantRoot) s (Leaving (CPut v) r) (with_topology (tg_topology g1) s1) (Some g1)"
proof (cases "tg_canon g = []")
  case True
  obtain evs s1 g1 where c: "put_root emit P v s g = Inr (Some evs, s1, g1)" "open_ok k s1 g1" "open_elements s1 g1 = [v]"
    "same_config s s1" "step_frame k s (tg_canon g) s1 (tg_canon g1)"
    using put_root_ok [OF assms(1,3) True] by blast
  moreover have "spec_call P b (CPut v) (elements s) = (None, [v])"
    using True assms(2) by (simp add: spec_call_def elements_def spec_put_def find_key_def ins_key_def)
  ultimately have "pc_step_ok P b (Inside (CPut v) WantRoot) s (Leaving (CPut v) (Some (None, evs)))
      (with_topology (tg_topology g1) s1) (Some g1)"
    by (intro inside_ok [OF c(2,4) assms(2) c(5)]) simp_all
  then show ?thesis
    using c(1) by (simp add: guard_section_def)
next
  case False
  then show ?thesis
    using inside_idle [OF assms(1,2), where w = WantRoot] by (simp add: guard_section_def put_root_def)
qed

lemma unlink_section:
  assumes "open_ok k s g" and "cs_index s = tg_topology g" and "tg_publish g" and "borrow_ok k b"
  shows "\<exists>r s1 g1. remove_singleton emit P b q s g = Inr (r, s1, g1) \<and>
    pc_step_ok P b (Inside (CRemove q) WantUnlink) s (Leaving (CRemove q) r) (with_topology (tg_topology g1) s1) (Some g1)"
proof -
  obtain r s1 g1 where c: "remove_singleton emit P b q s g = Inr (r, s1, g1)" "open_ok k s1 g1" "same_config s s1"
    "step_frame k s (tg_canon g) s1 (tg_canon g1)"
    and res: "case r of None \<Rightarrow> s1 = s \<and> g1 = g \<and>
        (\<exists>key a. remove_target b q s (tg_canon g) = Some (key, a) \<and> 1 < length (cs_nodes s a))
      | Some (old, evs) \<Rightarrow> spec_remove b q (open_elements s g) = (old, open_elements s1 g1) \<and>
          (\<forall>x. old = Some x \<longrightarrow> (\<forall>r\<in>set (tg_canon g1). k (fst r) \<noteq> k x))"
    using remove_singleton_ok [OF assms(1,3,4), where q = q and emit = emit] by blast
  have "pc_step_ok P b (Inside (CRemove q) WantUnlink) s (Leaving (CRemove q) r) (with_topology (tg_topology g1) s1) (Some g1)"
    using res by (intro inside_ok [OF c(2,3) assms(2) c(4)])
      (auto simp: open_elements_elements [OF assms(2)] spec_call_def split: option.splits)
  then show ?thesis
    using c(1) by blast
qed

lemma guard_section_ok:
  assumes "open_ok k s g" and "cs_index s = tg_topology g" and "guard_fits (Inside c w) g" and "want_ok c w"
    and "fresh_split P (Inside c w) (Some g)" and "borrow_ok k b"
  shows "\<exists>r s1 g1. guard_section emit P b c w s g = Inr (r, s1, g1) \<and>
    pc_step_ok P b (Inside c w) s (Leaving c r) (with_topology (tg_topology g1) s1) (Some g1)"
proof (cases w)
  case (WantRekey a key old evs)
  then show ?thesis
    using rekey_section [OF assms(1,2)] assms(3,4) by (simp add: is_rekey_def)
next
  case w: (WantSplit a key)
  show ?thesis
    using split_section [OF assms(1,2), where emit = emit and b = b] assms(3,5) w
    by (cases c) (simp_all add: is_rekey_def guard_section_def inside_idle [OF assms(1,2)])
next
  case w: WantRoot
  show ?thesis
    using root_section [OF assms(1,2), where emit = emit and b = b] assms(3) w
    by (cases c) (simp_all add: is_rekey_def guard_section_def inside_idle [OF assms(1,2)])
next
  case w: WantUnlink
  show ?thesis
    using unlink_section [OF assms(1,2) _ assms(6), where emit = emit] assms(3) w
    by (cases c) (simp_all add: is_rekey_def guard_section_def inside_idle [OF assms(1,2)])
qed

text \<open>The step of a thread: it waits, or it does what its program counter promises.\<close>

lemma pc_step_cases:
  assumes "lock_ok k s lock" and "pc_ok pc" and "holds pc \<Longrightarrow> \<exists>g. lock = Some g \<and> guard_fits pc g"
    and "fresh_split P pc lock" and "borrow_ok k b"
  obtains (blocked) "pc_step emit P b pc s lock = Inr (pc, s, lock)" "lock \<noteq> None" "\<not> holds pc"
    | (moved) pc' s' lock' where "pc_step emit P b pc s lock = Inr (pc', s', lock')" "lock = None \<or> holds pc"
      "pc_step_ok P b pc s pc' s' lock'"
proof (cases "lock \<noteq> None \<and> \<not> holds pc")
  case True
  then show ?thesis
    by (cases pc; cases lock) (auto simp: pc_step_def intro: blocked split: call.splits)
next
  case False
  have "\<exists>pc' s' lock'. pc_step emit P b pc s lock = Inr (pc', s', lock') \<and> pc_step_ok P b pc s pc' s' lock'"
  proof (cases pc)
    case (Start c)
    then have lock: "lock = None" "cset_ok k s"
      using False assms(1) by (auto simp: lock_ok_def)
    show ?thesis
    proof (cases c)
      case (CPut v)
      obtain pc' s' where "start_put emit P v s = Inr (pc', s')" "pc_step_ok P b pc s pc' s' None"
        using start_put_ok [OF lock(2)] Start CPut by blast
      then show ?thesis
        using lock(1) Start CPut by (simp add: pc_step_def)
    next
      case (CRemove q)
      obtain pc' s' where "start_remove emit P b q s = Inr (pc', s')" "pc_step_ok P b pc s pc' s' None"
        using start_remove_ok [OF lock(2) assms(5)] Start CRemove by blast
      then show ?thesis
        using lock(1) Start CRemove by (simp add: pc_step_def)
    qed
  next
    case (Waiting c w)
    then show ?thesis
      using False assms(1,2) waiting_ok [of s c w b] by (auto simp: pc_step_def lock_ok_def Let_def)
  next
    case (Inside c w)
    then obtain g where "lock = Some g" "guard_fits pc g"
      using assms(3) by auto
    then show ?thesis
      using assms(1,2,4) guard_section_ok [OF _ _ _ _ _ assms(5), of s g c w emit] Inside
      by (fastforce simp: pc_step_def lock_ok_def)
  next
    case (Leaving c r)
    then obtain g where "lock = Some g"
      using assms(3) by auto
    then show ?thesis
      using assms(1) leaving_ok [of s g b c r] Leaving by (fastforce simp: pc_step_def lock_ok_def)
  next
    case (Returned old evs)
    then show ?thesis
      using False assms(1) by (simp add: pc_step_def pc_step_ok_def effect_def lock_ok_def settle_step_keep)
  qed
  then obtain pc' s' lock' where "pc_step emit P b pc s lock = Inr (pc', s', lock')" "pc_step_ok P b pc s pc' s' lock'"
    by (elim exE conjE)
  then show ?thesis
    using False by (intro moved) auto
qed

end

section \<open>Runs\<close>

definition sys_ok :: "('a \<Rightarrow> 'k::linorder) \<Rightarrow> ('a, 'q) sys \<Rightarrow> bool" where
  "sys_ok k y \<longleftrightarrow> lock_ok k (sy_set y) (sy_guard y) \<and> (\<forall>pc\<in>set (sy_pcs y). pc_ok pc) \<and>
     (\<forall>i<length (sy_pcs y). holds (sy_pcs y ! i) \<longrightarrow> (\<exists>g. sy_guard y = Some g \<and> guard_fits (sy_pcs y ! i) g)) \<and>
     (\<forall>i<length (sy_pcs y). \<forall>j<length (sy_pcs y). holds (sy_pcs y ! i) \<and> holds (sy_pcs y ! j) \<longrightarrow> i = j) \<and>
     (sy_guard y \<noteq> None \<longrightarrow> (\<exists>i<length (sy_pcs y). holds (sy_pcs y ! i)))"

text \<open>No step of the run splits a node that its value no longer routes to.\<close>

fun fresh_run ::
  "bool \<Rightarrow> ('a, 'k::linorder) ops \<Rightarrow> ('a \<Rightarrow> 'q::linorder) \<Rightarrow> nat list \<Rightarrow> ('a, 'q) sys \<Rightarrow> bool" where
  "fresh_run emit P b [] y \<longleftrightarrow> True"
| "fresh_run emit P b (i # is) y \<longleftrightarrow>
     (i < length (sy_pcs y) \<longrightarrow> fresh_split P (sy_pcs y ! i) (sy_guard y)) \<and>
     (case sys_step emit P b i y of Inl _ \<Rightarrow> True | Inr y' \<Rightarrow> fresh_run emit P b is y')"

text \<open>
  A linearization: the operations in the order in which they take effect, with their results,
  executed by the abstract set one after the other.
\<close>

fun linearized ::
  "('a, 'k::linorder) ops \<Rightarrow> ('a \<Rightarrow> 'q) \<Rightarrow> ('a, 'q) call list \<Rightarrow> (nat \<times> 'a option) list \<Rightarrow> 'a list \<Rightarrow> 'a list \<Rightarrow> bool" where
  "linearized P b cs [] xs ys \<longleftrightarrow> ys = xs"
| "linearized P b cs ((i, old) # log) xs ys \<longleftrightarrow>
     fst (spec_call P b (cs ! i) xs) = old \<and> linearized P b cs log (snd (spec_call P b (cs ! i) xs)) ys"

lemma linearized_snoc:
  "linearized P b cs log xs ys \<Longrightarrow> spec_call P b (cs ! i) ys = (old, zs) \<Longrightarrow> linearized P b cs (log @ [(i, old)]) xs zs"
  by (induction P b cs log xs ys rule: linearized.induct) auto

definition log_ok ::
  "('a, 'k::linorder) ops \<Rightarrow> ('a \<Rightarrow> 'q) \<Rightarrow> ('a, 'q) call list \<Rightarrow> (nat \<times> 'a option) list \<Rightarrow> 'a list \<Rightarrow> ('a, 'q) sys \<Rightarrow> bool" where
  "log_ok P b cs log xs y \<longleftrightarrow> linearized P b cs log xs (elements (sy_set y)) \<and> distinct (map fst log) \<and>
     length (sy_pcs y) = length cs \<and> fst ` set log \<subseteq> {..<length cs} \<and>
     (\<forall>i<length cs. answered (sy_pcs y ! i) = map_of log i \<and> (pc_call (sy_pcs y ! i) = Some (cs ! i) \<or> pc_call (sy_pcs y ! i) = None))"

context cset_ops
begin

lemma sys_step_cases:
  assumes "sys_ok k y" and "borrow_ok k b" and "i < length (sy_pcs y) \<Longrightarrow> fresh_split P (sy_pcs y ! i) (sy_guard y)"
  obtains (same) "sys_step emit P b i y = Inr y"
    | (moved) pc' s' lock' where "i < length (sy_pcs y)" "pc_step_ok P b (sy_pcs y ! i) (sy_set y) pc' s' lock'"
      "sys_step emit P b i y = Inr \<lparr> sy_set = s', sy_guard = lock', sy_pcs = (sy_pcs y)[i := pc'] \<rparr>"
      "sy_guard y = None \<or> holds (sy_pcs y ! i)"
proof (cases "i < length (sy_pcs y)")
  case True
  have pre: "lock_ok k (sy_set y) (sy_guard y)" "pc_ok (sy_pcs y ! i)"
    "holds (sy_pcs y ! i) \<Longrightarrow> \<exists>g. sy_guard y = Some g \<and> guard_fits (sy_pcs y ! i) g"
    using assms(1) True by (auto simp: sys_ok_def)
  show ?thesis
  proof (rule pc_step_cases [OF pre assms(3) [OF True] assms(2), where emit = emit])
    assume "pc_step emit P b (sy_pcs y ! i) (sy_set y) (sy_guard y) = Inr (sy_pcs y ! i, sy_set y, sy_guard y)"
    then show thesis
      using same True by (simp add: sys_step_def)
  next
    fix pc' s' lock'
    assume "pc_step emit P b (sy_pcs y ! i) (sy_set y) (sy_guard y) = Inr (pc', s', lock')"
      "sy_guard y = None \<or> holds (sy_pcs y ! i)" "pc_step_ok P b (sy_pcs y ! i) (sy_set y) pc' s' lock'"
    then show thesis
      using moved True by (simp add: sys_step_def)
  qed
qed (use same in \<open>simp add: sys_step_def\<close>)

lemma sys_ok_moved:
  assumes "sys_ok k y" and "i < length (sy_pcs y)" and "pc_step_ok P b (sy_pcs y ! i) (sy_set y) pc' s' lock'"
    and "sy_guard y = None \<or> holds (sy_pcs y ! i)"
  shows "sys_ok k \<lparr> sy_set = s', sy_guard = lock', sy_pcs = (sy_pcs y)[i := pc'] \<rparr>"
proof -
  have others: "\<not> holds (sy_pcs y ! j)" if "j < length (sy_pcs y)" "j \<noteq> i" for j
    using that assms(1,2,4) unfolding sys_ok_def by (metis option.distinct(1))
  have new: "lock_ok k s' lock'" "pc_ok pc'" "holds pc' \<longleftrightarrow> lock' \<noteq> None" "\<And>g. lock' = Some g \<Longrightarrow> guard_fits pc' g"
    using assms(3) by (auto simp: pc_step_ok_def)
  have "pc_ok pc" if "pc \<in> set ((sy_pcs y)[i := pc'])" for pc
    using that assms(1) new(2) set_update_subset_insert [of "sy_pcs y" i pc'] by (auto simp: sys_ok_def)
  then show ?thesis
    using new others assms(2) by (auto simp: sys_ok_def nth_list_update)
qed

lemma log_ok_moved:
  assumes "log_ok P b cs log xs y" and "i < length (sy_pcs y)"
    and "pc_step_ok P b (sy_pcs y ! i) (sy_set y) pc' s' lock'"
  shows "\<exists>ext. log_ok P b cs (log @ ext) xs \<lparr> sy_set = s', sy_guard = lock', sy_pcs = (sy_pcs y)[i := pc'] \<rparr>"
proof -
  let ?y = "\<lparr> sy_set = s', sy_guard = lock', sy_pcs = (sy_pcs y)[i := pc'] \<rparr>"
  have i: "i < length cs" and ans: "answered (sy_pcs y ! i) = map_of log i"
    using assms(1,2) by (auto simp: log_ok_def)
  have calls': "pc_call (sy_pcs y ! i) = Some (cs ! i) \<or> pc_call (sy_pcs y ! i) = None"
    "pc_call pc' = pc_call (sy_pcs y ! i) \<or> pc_call pc' = None"
    using assms(1,3) i by (auto simp: log_ok_def pc_step_ok_def)
  from assms(3) have "effect P b (sy_pcs y ! i) (elements (sy_set y)) pc' (elements s')"
    by (simp add: pc_step_ok_def)
  then consider "answered pc' = answered (sy_pcs y ! i)" "elements s' = elements (sy_set y)"
    | old where "answered (sy_pcs y ! i) = None" "answered pc' = Some old" "pc_call (sy_pcs y ! i) = Some (cs ! i)"
      "spec_call P b (cs ! i) (elements (sy_set y)) = (old, elements s')"
    using calls'(1) by (auto simp: effect_def)
  then show ?thesis
  proof cases
    case 1
    then have "log_ok P b cs (log @ []) xs ?y"
      using assms(1,2) calls' by (auto simp: log_ok_def nth_list_update)
    then show ?thesis
      by blast
  next
    case 2
    then have none: "map_of log i = None"
      using ans by simp
    then have new: "i \<notin> fst ` set log"
      by (simp add: map_of_eq_None_iff)
    have "map_of (log @ [(i, old)]) j = (if j = i then Some old else map_of log j)" for j
      using none by (simp add: map_add_def split: option.splits)
    then have "log_ok P b cs (log @ [(i, old)]) xs ?y"
      using assms(1,2) 2 calls' i new linearized_snoc [where P = P and b = b and cs = cs]
      by (auto simp: log_ok_def nth_list_update)
    then show ?thesis
      by blast
  qed
qed

lemma sys_run_ok:
  assumes "borrow_ok k b"
  shows "sys_ok k y \<Longrightarrow> fresh_run emit P b is y \<Longrightarrow> log_ok P b cs log xs y \<Longrightarrow>
    \<exists>y' ext. sys_run emit P b is y = Inr y' \<and> sys_ok k y' \<and> log_ok P b cs (log @ ext) xs y'"
proof (induction "is" arbitrary: y log)
  case (Cons i "is")
  have fresh: "i < length (sy_pcs y) \<Longrightarrow> fresh_split P (sy_pcs y ! i) (sy_guard y)"
    using Cons.prems(2) by simp
  show ?case
  proof (rule sys_step_cases [OF Cons.prems(1) assms fresh, where emit = emit])
    assume "sys_step emit P b i y = Inr y"
    then show ?case
      using Cons by simp
  next
    fix pc' s' lock'
    let ?y = "\<lparr> sy_set = s', sy_guard = lock', sy_pcs = (sy_pcs y)[i := pc'] \<rparr>"
    assume st: "i < length (sy_pcs y)" "pc_step_ok P b (sy_pcs y ! i) (sy_set y) pc' s' lock'"
      "sys_step emit P b i y = Inr ?y" "sy_guard y = None \<or> holds (sy_pcs y ! i)"
    obtain ext where log: "log_ok P b cs (log @ ext) xs ?y"
      using log_ok_moved [OF Cons.prems(3) st(1,2)] by blast
    have "sys_ok k ?y"
      by (rule sys_ok_moved [OF Cons.prems(1) st(1,2,4)])
    moreover have "fresh_run emit P b is ?y"
      using Cons.prems(2) st(3) by simp
    ultimately obtain y' ext' where "sys_run emit P b is ?y = Inr y'" "sys_ok k y'" "log_ok P b cs ((log @ ext) @ ext') xs y'"
      using Cons.IH log by blast
    then have "sys_run emit P b (i # is) y = Inr y'" "sys_ok k y'" "log_ok P b cs (log @ (ext @ ext')) xs y'"
      using st(3) by simp_all
    then show ?case
      by blast
  qed
next
  case Nil
  then show ?case
    by (metis append_Nil2 sys_run.simps(1))
qed

lemma sys_start_ok:
  assumes "cset_ok k s"
  shows "sys_ok k (sys_start s cs)" "log_ok P b cs [] (elements s) (sys_start s cs)"
  using assms by (auto simp: sys_ok_def sys_start_def lock_ok_def log_ok_def)

end

end
