(* ===== verification/Interleaving_Read.thy ===== *)
theory Interleaving_Read
  imports Interleaving_Facts
begin

text \<open>
  Readers among writers. The published index changes only when the generation does, and the
  generation only counts up, so between two equal even loads, fewer than \<open>2 ^ 64\<close> steps apart,
  nothing is published. A read then answers for one instant of its own duration.
\<close>

section \<open>What only a changed generation changes\<close>

text \<open>Operations on the guard leave the published index and the generation alone.\<close>

definition frozen :: "'a write_guard \<Rightarrow> 'a write_guard \<Rightarrow> bool" where
  "frozen g g' \<longleftrightarrow> published (tg_topology g') = published (tg_topology g) \<and>
     generation (tg_topology g') = generation (tg_topology g)"

lemma frozen_refl [simp]: "frozen g g"
  by (simp add: frozen_def)

lemma frozen_trans: "frozen g g' \<Longrightarrow> frozen g' g'' \<Longrightarrow> frozen g g''"
  by (simp add: frozen_def)

lemma frozen_simps [simp]:
  "frozen g (ensure_publication_snapshot g)" "frozen g (rebuild_publication g)"
  by (simp_all add: frozen_def ensure_publication_snapshot_def rebuild_publication_def set_topology_def Let_def)

lemma frozen_repair: "on_ok (frozen g) (repair_last_route_before_insert k g)"
  by (auto simp: repair_last_route_before_insert_def wp Let_def frozen_def rebuild_publication_def
      set_topology_def split: option.split if_split prod.split)

lemma frozen_unpublish: "on_ok (\<lambda>(_, g'). frozen g g') (unpublish_node k g a)"
  by (auto simp: unpublish_node_def wp Let_def frozen_def set_topology_def split: option.split prod.split)

lemma frozen_insert_after: "on_ok (\<lambda>(_, g'). frozen g g') (insert_after_last_route_repair k g key a)"
  by (auto simp: insert_after_last_route_repair_def wp Let_def frozen_def rebuild_publication_def
      set_topology_def split: option.split if_split prod.split dest!: on_okD [OF frozen_unpublish])

lemma frozen_tg_insert: "on_ok (\<lambda>(_, g'). frozen g g') (tg_insert k g key a)"
  by (auto simp: tg_insert_def wp on_ok_def rbind_eq_Inr dest!: on_okD [OF frozen_repair] on_okD [OF frozen_insert_after]
      intro: frozen_trans)

lemma frozen_tg_remove: "on_ok (\<lambda>(_, g'). frozen g g') (tg_remove k g q)"
  by (auto simp: tg_remove_def wp Let_def frozen_def rebuild_publication_def
      set_topology_def split: option.split if_split prod.split dest!: on_okD [OF frozen_unpublish])

lemma frozen_rekey: "on_ok (frozen g) (rekey_last_node k g old new a)"
  by (auto simp: rekey_last_node_def wp Let_def frozen_def set_topology_def split: prod.split)

section \<open>Every step counts the generation up or publishes nothing\<close>

text \<open>Only dropping a guard publishes.\<close>

definition ticks :: "'a topology \<Rightarrow> 'a topology \<Rightarrow> bool" where
  "ticks t t' \<longleftrightarrow> published t' = published t \<and> (generation t' = generation t \<or> generation t' = generation t + 1)"

definition moves :: "'a topology \<Rightarrow> 'a topology \<Rightarrow> bool" where
  "moves t t' \<longleftrightarrow> published t' = published t \<and> generation t' = generation t \<or> generation t' = generation t + 1"

lemma ticks_moves: "ticks t t' \<Longrightarrow> moves t t'"
  by (auto simp: ticks_def moves_def)

lemma frozen_ticks: "frozen g g' \<Longrightarrow> ticks (tg_topology g) (tg_topology g')"
  by (simp add: frozen_def ticks_def)

lemmas frozen_ops =
  on_okD [OF frozen_tg_insert] on_okD [OF frozen_tg_remove] on_okD [OF frozen_rekey]

lemma frozen_commit_left: "on_ok (\<lambda>(_, _, _, _, g'). frozen g g') (commit_left emit P a v half g)"
  by (auto simp: commit_left_def wp split: option.split prod.split dest!: frozen_ops)

lemma frozen_commit_right: "on_ok (\<lambda>(_, _, _, g'). frozen g g') (commit_right emit P a v att half g)"
  by (auto simp: commit_right_def wp split: option.split prod.split dest!: frozen_ops)

lemma frozen_commit_split: "on_ok (\<lambda>(_, _, g'). frozen g g') (commit_split emit P a old_max v s g)"
proof -
  have "frozen g g3" if "tg_remove (op_key P) g q = Inr (r, g1)" "commit_left emit P a v left g1 = Inr (l, o1, at, e1, g2)"
    "commit_right emit P c v at right g2 = Inr (r', o2, e2, g3)" for q r g1 left l o1 at e1 g2 c right r' o2 e2 g3
    using that by (auto dest!: frozen_ops on_okD [OF frozen_commit_left] on_okD [OF frozen_commit_right] intro: frozen_trans)
  then show ?thesis
    by (auto simp: commit_split_def wp Let_def split: option.split prod.split)
qed

lemma ticks_update_max: "on_ok (\<lambda>(_, _, g'). ticks (tg_topology g) (tg_topology g')) (commit_update_max P a old_max s g)"
proof -
  have "ticks (tg_topology g) (tg_topology g3)" if "enable_publication g = Inr g1"
    "tg_remove (op_key P) g1 q = Inr (r, g2)" "tg_insert (op_key P) g2 key a = Inr (r', g3)" for q r g1 g2 key r' g3
  proof -
    have "frozen g1 g3"
      using that(2,3) by (auto dest!: frozen_ops intro: frozen_trans)
    moreover have "ticks (tg_topology g) (tg_topology g1) \<and> published (tg_topology g1) = published (tg_topology g)"
      using that(1) by (auto simp: enable_publication_def rbind_eq_Inr set_topology_def ticks_def split: if_splits)
    ultimately show ?thesis
      by (auto simp: ticks_def frozen_def)
  qed
  then show ?thesis
    by (auto simp: commit_update_max_def wp split: option.split prod.split dest!: frozen_ops intro: frozen_ticks)
qed

lemma ticks_commit: "on_ok (\<lambda>(_, _, g'). ticks (tg_topology g) (tg_topology g')) (commit emit P operation s g)"
  by (cases operation) (auto simp: commit_def on_ok_def dest!: on_okD [OF frozen_commit_split]
      on_okD [OF ticks_update_max] intro: frozen_ticks)

lemma ticks_put_commit: "on_ok (\<lambda>(_, _, g'). ticks (tg_topology g) (tg_topology g')) (put_commit emit P operation evs s g)"
  by (auto simp: put_commit_def wp Let_def dest!: on_okD [OF ticks_commit] split: option.split prod.split operation.split)

lemma ticks_guard_section:
  "on_ok (\<lambda>(_, _, g'). ticks (tg_topology g) (tg_topology g')) (guard_section emit P b c w s g)"
proof -
  have "on_ok (\<lambda>(_, _, g'). frozen g g') (put_root emit P v s g)" for v
    by (auto simp: put_root_def wp Let_def split: prod.split dest!: frozen_ops)
  moreover have "on_ok (\<lambda>(_, _, g'). frozen g g') (remove_singleton emit P b q s g)" for q
    by (auto simp: remove_singleton_def wp Let_def split: prod.split option.split dest!: frozen_ops)
  ultimately show ?thesis
    by (cases c; cases w) (auto simp: guard_section_def wp on_ok_def rbind_eq_Inr dest!:
        on_okD [OF ticks_put_commit] on_okD [OF ticks_commit] intro: frozen_ticks)
qed

lemma start_keeps_topology:
  "on_ok (\<lambda>(_, s'). cs_index s' = cs_index s) (start_put emit P v s)"
  "on_ok (\<lambda>(_, s'). cs_index s' = cs_index s) (start_remove emit P b q s)"
proof -
  have ev: "cs_index s' = cs_index s" if "emit_events e us s = (evs, s')" for e us evs s s'
    using emit_events_frame(1) [of e us s] that by simp
  have "on_ok (\<lambda>(_, s'). cs_index s' = cs_index s) (put_replace emit P v a j mx s)" for a j mx s
    by (auto simp: put_replace_def wp Let_def split: prod.split dest: ev)
  then have "cs_index s' = cs_index s" if "put_replace emit P v a j mx s = Inr (r, s')" for a j mx r s s'
    using that by (fastforce dest: on_okD)
  moreover have "on_ok (\<lambda>(_, s'). cs_index s' = cs_index s) (put_attempt emit P v s)"
    by (auto simp: put_attempt_def wp Let_def split: option.split prod.split dest: ev)
  ultimately show "on_ok (\<lambda>(_, s'). cs_index s' = cs_index s) (start_put emit P v s)"
    by (auto simp: start_put_def wp split: put_outcome.split operation.split dest!: on_okD)
  have "on_ok (\<lambda>(_, s'). cs_index s' = cs_index s) (remove_attempt emit P b q s)"
    by (auto simp: remove_attempt_def wp Let_def split: option.split prod.split dest: ev)
  then show "on_ok (\<lambda>(_, s'). cs_index s' = cs_index s) (start_remove emit P b q s)"
    by (auto simp: start_remove_def wp dest!: on_okD)
qed

lemma moves_drop: "on_ok (\<lambda>t. moves (tg_topology g) t) (drop_guard k g)"
  by (auto simp: drop_guard_def wp moves_def)

lemma ticks_open [simp]: "ticks t (tg_topology (open_guard w t))"
  by (cases w) (simp_all add: open_guard_def topology_write_def topology_write_rekey_def ticks_def)

lemma moves_refl [simp]: "moves t t" "ticks t t"
  by (simp_all add: moves_def ticks_def)

lemma pc_step_ticks:
  assumes "pc_step emit P b pc s lock = Inr (pc', s', lock')" and "lock_ok k s lock"
  shows "ticks (cs_index s) (cs_index s') \<or> lock' = None \<and> moves (cs_index s) (cs_index s')"
proof (cases lock)
  case None
  then show ?thesis
    using assms(1)
    by (cases pc) (auto simp: pc_step_def rbind_eq_Inr Let_def split: call.splits dest!: on_okD [OF start_keeps_topology(1)]
        on_okD [OF start_keeps_topology(2)])
next
  case (Some g)
  then have "cs_index s = tg_topology g"
    using assms(2) by (simp add: lock_ok_def)
  then show ?thesis
    using assms(1) Some by (cases pc) (auto simp: pc_step_def rbind_eq_Inr split: call.splits
        dest!: on_okD [OF ticks_guard_section] on_okD [OF moves_drop])
qed

section \<open>What a reader meets\<close>

definition view_ok :: "('a \<Rightarrow> 'k::linorder) \<Rightarrow> 'a cset \<Rightarrow> bool" where
  "view_ok k s \<longleftrightarrow> in_step k (canon (cs_index s)) (published (cs_index s)) (published_keys (cs_index s)) \<and>
     heap_ok k s (canon (cs_index s))"

definition gen_of :: "'a cset \<Rightarrow> 64 word" where
  "gen_of s = generation (cs_index s)"

lemma cset_ok_view: "cset_ok k s \<longleftrightarrow> view_ok k s \<and> even (gen_of s)"
  by (auto simp: cset_ok_def topology_ok_def view_ok_def gen_of_def)

text \<open>With an even generation no guard is publishing, so the published index is in step.\<close>

lemma lock_ok_view:
  assumes "lock_ok k s lock" and "even (gen_of s)"
  shows "view_ok k s"
proof (cases lock)
  case None
  then show ?thesis
    using assms(1) by (simp add: lock_ok_def cset_ok_view)
next
  case (Some g)
  then have g: "guard_ok k g" "heap_ok k s (tg_canon g)" "cs_index s = tg_topology g"
    using assms(1) by (simp_all add: lock_ok_def open_ok_def)
  then have "\<not> tg_publish g"
    using assms(2) by (simp add: guard_ok_def gen_of_def)
  then have "tg_side g = published (tg_topology g)"
    using g(1) by (auto simp: guard_ok_def tg_side_def split: option.splits)
  then show ?thesis
    using g guard_okD(1) [OF g(1)] by (simp add: view_ok_def)
qed

lemma sys_run_snoc: "sys_run emit P b (is @ [i]) y = rbind (sys_run emit P b is y) (sys_step emit P b i)"
proof (induction "is" arbitrary: y)
  case Nil
  show ?case
    by (cases "sys_step emit P b i y") simp_all
next
  case (Cons j "is")
  then show ?case
    by (cases "sys_step emit P b j y") simp_all
qed

lemma sys_step_ticks:
  assumes "sys_step emit P b i y = Inr y'" and "lock_ok k (sy_set y) (sy_guard y)"
  shows "moves (cs_index (sy_set y)) (cs_index (sy_set y'))"
    and "published (cs_index (sy_set y')) = published (cs_index (sy_set y)) \<or> sy_guard y' = None"
  using assms by (auto simp: sys_step_def rbind_eq_Inr ticks_def split: if_splits dest!: pc_step_ticks intro: ticks_moves)

text \<open>The state after \<open>n\<close> steps of a schedule, which then stands still.\<close>

definition sys_state ::
  "bool \<Rightarrow> ('a, 'k::linorder) ops \<Rightarrow> ('a \<Rightarrow> 'q::linorder) \<Rightarrow> nat list \<Rightarrow> ('a, 'q) sys \<Rightarrow> nat \<Rightarrow> ('a, 'q) sys" where
  "sys_state emit P b is y n = (case sys_run emit P b (take n is) y of Inr y' \<Rightarrow> y' | Inl _ \<Rightarrow> y)"

lemma fresh_run_take: "fresh_run emit P b is y \<Longrightarrow> fresh_run emit P b (take n is) y"
  by (induction "is" arbitrary: y n) (auto simp: take_Cons split: nat.split sum.splits)

context cset_ops
begin

lemma sys_state_ok:
  assumes "borrow_ok k b" and "cset_ok k s" and "fresh_run emit P b is (sys_start s cs)"
  shows "sys_run emit P b (take n is) (sys_start s cs) = Inr (sys_state emit P b is (sys_start s cs) n)"
    and "sys_ok k (sys_state emit P b is (sys_start s cs) n)"
proof -
  obtain y where "sys_run emit P b (take n is) (sys_start s cs) = Inr y" "sys_ok k y"
    using sys_run_ok [OF assms(1) sys_start_ok(1) [OF assms(2)] fresh_run_take [OF assms(3)] sys_start_ok(2) [OF assms(2)]]
    by blast
  then show "sys_run emit P b (take n is) (sys_start s cs) = Inr (sys_state emit P b is (sys_start s cs) n)"
    "sys_ok k (sys_state emit P b is (sys_start s cs) n)"
    by (simp_all add: sys_state_def)
qed

lemma sys_state_step:
  assumes "borrow_ok k b" and "cset_ok k s" and "fresh_run emit P b is (sys_start s cs)" and "n < length is"
  shows "sys_step emit P b (is ! n) (sys_state emit P b is (sys_start s cs) n) =
    Inr (sys_state emit P b is (sys_start s cs) (Suc n))"
  using sys_state_ok(1) [OF assms(1-3), of "Suc n"] sys_state_ok(1) [OF assms(1-3), of n] assms(4)
  by (simp add: take_Suc_conv_app_nth sys_run_snoc)

lemma sys_state_moves:
  assumes "borrow_ok k b" and "cset_ok k s" and "fresh_run emit P b is (sys_start s cs)"
  shows "moves (cs_index (sy_set (sys_state emit P b is (sys_start s cs) n)))
    (cs_index (sy_set (sys_state emit P b is (sys_start s cs) (Suc n))))"
proof (cases "n < length is")
  case True
  let ?y = "sys_state emit P b is (sys_start s cs) n" and ?y' = "sys_state emit P b is (sys_start s cs) (Suc n)"
  have "sys_step emit P b (is ! n) ?y = Inr ?y'"
    by (rule sys_state_step [OF assms True])
  moreover have "lock_ok k (sy_set ?y) (sy_guard ?y)"
    using sys_state_ok(2) [OF assms, of n] by (simp add: sys_ok_def)
  ultimately show ?thesis
    by (rule sys_step_ticks(1))
next
  case False
  then show ?thesis
    by (simp add: sys_state_def)
qed

end

text \<open>Counting generations along a sequence of states.\<close>

lemma moves_count:
  assumes "\<And>n. moves (T n) (T (Suc n))" and "n \<le> m"
  shows "\<exists>d\<le>m - n. generation (T m) = generation (T n) + of_nat d \<and> (d = 0 \<longrightarrow> published (T m) = published (T n))"
  using assms(2)
proof (induction m rule: dec_induct)
  case (step m)
  obtain d where d: "d \<le> m - n" "generation (T m) = generation (T n) + of_nat d" "d = 0 \<longrightarrow> published (T m) = published (T n)"
    using step.IH by blast
  show ?case
  proof (cases "generation (T (Suc m)) = generation (T m) + 1")
    case True
    then show ?thesis
      using d step.hyps by (intro exI [of _ "Suc d"]) (auto simp: ac_simps)
  next
    case False
    then show ?thesis
      using d assms(1) [of m] step.hyps by (intro exI [of _ d]) (auto simp: moves_def)
  qed
qed auto

lemma moves_stable:
  assumes "\<And>n. moves (T n) (T (Suc n))" and "n \<le> u" and "u \<le> m" and "m - n < 2 ^ 64"
    and "generation (T m) = generation (T n)"
  shows "generation (T u) = generation (T n)" and "published (T u) = published (T n)"
proof -
  obtain d e where d: "d \<le> u - n" "generation (T u) = generation (T n) + of_nat d" "d = 0 \<longrightarrow> published (T u) = published (T n)"
    and e: "e \<le> m - u" "generation (T m) = generation (T u) + of_nat e"
    using moves_count [of T, OF assms(1,2)] moves_count [of T, OF assms(1,3)] by blast
  have "(of_nat (d + e) :: 64 word) = 0"
    using d(2) e(2) assms(5) by simp
  then have "(2::nat) ^ LENGTH(64) dvd d + e"
    by (simp only: word_of_nat_eq_0_iff)
  moreover have "d + e < 2 ^ 64"
    using d(1) e(1) assms(2-4) by linarith
  ultimately have "d + e = 0"
    by (auto dest: dvd_imp_le)
  then have "d = 0"
    by simp
  then show "generation (T u) = generation (T n)" "published (T u) = published (T n)"
    using d by simp_all
qed

section \<open>A read answers for an instant of its own\<close>

text \<open>
  What the reader's accesses have in common: well-formed published indexes, states in step
  whenever the generation is even, and generations that stand still between equal loads.
\<close>

definition reader_view :: "('a \<Rightarrow> 'k::linorder) \<Rightarrow> (nat \<Rightarrow> 'a cset) \<Rightarrow> bool" where
  "reader_view k obs \<longleftrightarrow> (\<forall>t. pub_ok k (published (cs_index (obs t)))) \<and> (\<forall>t. even (gen_of (obs t)) \<longrightarrow> view_ok k (obs t)) \<and>
     (\<forall>t u m. t \<le> u \<and> u \<le> m \<and> gen_of (obs m) = gen_of (obs t) \<longrightarrow>
        gen_of (obs u) = gen_of (obs t) \<and> published (cs_index (obs u)) = published (cs_index (obs t)))"

lemma borrow_key_eq: "borrow_ok k b \<Longrightarrow> k x = k y \<Longrightarrow> b x = b y"
  by (rule antisym) (simp_all add: borrow_le [symmetric])

lemma reader_viewD:
  assumes "reader_view k obs"
  shows "pub_ok k (published (cs_index (obs t)))" and "even (gen_of (obs t)) \<Longrightarrow> view_ok k (obs t)"
    and "t \<le> u \<Longrightarrow> u \<le> m \<Longrightarrow> gen_of (obs m) = gen_of (obs t) \<Longrightarrow> gen_of (obs u) = gen_of (obs t)"
    and "t \<le> u \<Longrightarrow> u \<le> m \<Longrightarrow> gen_of (obs m) = gen_of (obs t) \<Longrightarrow>
      published (cs_index (obs u)) = published (cs_index (obs t))"
  using assms unfolding reader_view_def by blast+

lemma read_target_published_total:
  assumes "pub_ok k p" and "borrow_ok k b"
  shows "\<exists>node. read_target_published b q m p = Inr node"
  using first_for_bound_eq [OF assms]
  by (cases m) (simp_all add: read_target_published_def first_published_for_borrowed_bound_def)

lemma view_read_target:
  assumes "view_ok k s" and "borrow_ok k b"
  shows "read_target_published b q m (published (cs_index s)) = Inr (read_target_canonical b q m' (canon (cs_index s)))"
proof -
  have "in_step k (canon (cs_index s)) (published (cs_index s)) (published_keys (cs_index s))"
    using assms(1) by (simp add: view_ok_def)
  from read_target_published_eq [OF this borrow_key_eq [OF assms(2)] assms(2)] show ?thesis
    by (simp only: read_target_route)
qed

lemma stable_round_sound:
  assumes "reader_view k obs" and "borrow_ok k b"
  shows "\<exists>r. stable_round b q obs t = Inr r \<and>
    (\<forall>node. r = Some node \<longrightarrow> view_ok k (obs (t + 2)) \<and> node = read_target_canonical b q m (canon (cs_index (obs (t + 2)))))"
proof (cases "even (gen_of (obs t))")
  case False
  then show ?thesis
    by (simp add: stable_round_def gen_of_def Let_def)
next
  case True
  let ?p = "published (cs_index (obs (t + 1)))"
  obtain node where node: "read_target_published b q (cs_borrow_order_matches (obs t)) ?p = Inr node"
    using read_target_published_total [OF reader_viewD(1) [OF assms(1)] assms(2)] by blast
  have answer: "view_ok k (obs (t + 2)) \<and> node = read_target_canonical b q m (canon (cs_index (obs (t + 2))))"
    if "gen_of (obs u) = gen_of (obs t)" "t + 2 \<le> u" for u
  proof -
    have same: "gen_of (obs (t + 2)) = gen_of (obs t)" "published (cs_index (obs (t + 2))) = published (cs_index (obs t))"
      "?p = published (cs_index (obs t))"
      using that(2) by (auto intro: reader_viewD(3,4) [OF assms(1) _ _ that(1)])
    then have "view_ok k (obs (t + 2))"
      using True reader_viewD(2) [OF assms(1)] by simp
    then show ?thesis
      using view_read_target [OF _ assms(2), of "obs (t + 2)" q "cs_borrow_order_matches (obs t)" m] node same(2,3) by simp
  qed
  show ?thesis
    using True node answer [of "t + 2"] answer [of "t + 3"]
    by (cases node) (auto simp: stable_round_def gen_of_def Let_def)
qed

lemma lock_node_sound:
  assumes "reader_view k obs" and "borrow_ok k b" and "cset_ok k (obs (t + 4 * (2 - retries)))"
  shows "\<exists>t' node. lock_node_for_value b q obs retries t = Inr (node, t') \<and> t \<le> t' \<and> t' \<le> t + 4 * (2 - retries) \<and>
    view_ok k (obs t') \<and> node = read_target_canonical b q m (canon (cs_index (obs t')))"
  using assms(3)
proof (induction "2 - retries" arbitrary: retries t)
  case 0
  then show ?case
    by (simp add: lock_node_for_value.simps [of b q obs retries t] STABLE_READ_BLOCKING_FALLBACK_AFTER_def
        cset_ok_view read_target_route)
next
  case (Suc n)
  then have less: "\<not> STABLE_READ_BLOCKING_FALLBACK_AFTER \<le> retries" and n: "n = 2 - Suc retries" "Suc n = 2 - retries"
    by (simp_all add: STABLE_READ_BLOCKING_FALLBACK_AFTER_def)
  obtain r where r: "stable_round b q obs t = Inr r"
    "\<And>node. r = Some node \<Longrightarrow> view_ok k (obs (t + 2)) \<and> node = read_target_canonical b q m (canon (cs_index (obs (t + 2))))"
    using stable_round_sound [OF assms(1,2)] by blast
  show ?case
  proof (cases r)
    case None
    have "t + 4 + 4 * (2 - Suc retries) = t + 4 * (2 - retries)"
      using n by simp
    then obtain t' node where "lock_node_for_value b q obs (Suc retries) (t + 4) = Inr (node, t')" "t + 4 \<le> t'"
      "t' \<le> t + 4 * (2 - retries)" "view_ok k (obs t')" "node = read_target_canonical b q m (canon (cs_index (obs t')))"
      using Suc.hyps(1) [OF n(1), of "t + 4"] Suc.prems by metis
    then show ?thesis
      using less r(1) None by (simp add: lock_node_for_value.simps [of b q obs retries t])
  next
    case (Some node)
    then show ?thesis
      using less r n by (simp add: lock_node_for_value.simps [of b q obs retries t])
  qed
qed

context cset_ops
begin

lemma get_with_sound:
  assumes "reader_view k obs" and "borrow_ok k b" and "cset_ok k (obs 8)"
  shows "\<exists>t\<le>8. get_with (op_search P) b q read obs = Inr (map_option read (find_key b q (elements (obs t))))"
proof -
  obtain t node where l: "lock_node_for_value b q obs 0 0 = Inr (node, t)" "t \<le> 8" "view_ok k (obs t)"
    "node = read_target_canonical b q True (canon (cs_index (obs t)))"
    using lock_node_sound [OF assms(1,2), of 0 0 q True] assms(3) by auto
  have "in_step k (canon (cs_index (obs t))) (published (cs_index (obs t))) (published_keys (cs_index (obs t)))"
    "ranged k (cs_nodes (obs t)) None (canon (cs_index (obs t)))"
    using l(3) by (simp_all add: view_ok_def heap_ok_def)
  note read = read_routed [OF assms(2) this(2) in_stepD(1,2) [OF this(1)], where m = True]
  have "get_with (op_search P) b q read obs = Inr (map_option read (find_key b q (elements (obs t))))"
    using l(1) read by (simp add: get_with_def l(4) elements_def)
  with l(2) show ?thesis
    by blast
qed

lemma sys_state_published:
  assumes "borrow_ok k b" and "cset_ok k s" and "fresh_run emit P b is (sys_start s cs)"
  shows "pub_ok k (published (cs_index (sy_set (sys_state emit P b is (sys_start s cs) n))))"
proof (induction n)
  case 0
  have "cset_ok k (sy_set (sys_state emit P b is (sys_start s cs) 0))"
    using assms(2) by (simp add: sys_state_def sys_start_def)
  then show ?case
    by (auto simp: cset_ok_view view_ok_def dest: in_stepD(3))
next
  case (Suc n)
  let ?y = "sys_state emit P b is (sys_start s cs)"
  have lock: "lock_ok k (sy_set (?y j)) (sy_guard (?y j))" for j
    using sys_state_ok(2) [OF assms, of j] by (simp add: sys_ok_def)
  show ?case
  proof (cases "sy_guard (?y (Suc n)) = None")
    case True
    then show ?thesis
      using lock [of "Suc n"] by (auto simp: lock_ok_def cset_ok_view view_ok_def dest: in_stepD(3))
  next
    case False
    have "published (cs_index (sy_set (?y (Suc n)))) = published (cs_index (sy_set (?y n)))"
    proof (cases "n < length is")
      case True
      from sys_step_ticks(2) [OF sys_state_step [OF assms True] lock] show ?thesis
        using False by simp
    qed (simp add: sys_state_def)
    then show ?thesis
      using Suc.IH by simp
  qed
qed

text \<open>Accesses at the instants \<open>f 0 \<le> f 1 \<le> \<dots>\<close> of a run of fewer than \<open>2 ^ 64\<close> steps.\<close>

lemma run_reader_view:
  assumes "borrow_ok k b" and "cset_ok k s" and "fresh_run emit P b is (sys_start s cs)" and "mono f"
    and "length is < 2 ^ 64"
  shows "reader_view k (\<lambda>t. sy_set (sys_state emit P b is (sys_start s cs) (f t)))"
proof -
  let ?y = "sys_state emit P b is (sys_start s cs)"
  define T where "T n = cs_index (sy_set (?y n))" for n
  have T: "moves (T n) (T (Suc n))" for n
    unfolding T_def by (rule sys_state_moves [OF assms(1-3)])
  have capped: "?y n = ?y (min n (length is))" for n
    by (cases "n \<le> length is") (simp_all add: sys_state_def min_def)
  have "generation (T (f u)) = generation (T (f t)) \<and> published (T (f u)) = published (T (f t))"
    if "t \<le> u" "u \<le> m" "generation (T (f m)) = generation (T (f t))" for t u m
  proof -
    let ?g = "\<lambda>n. min (f n) (length is)"
    have cap: "T (f n) = T (?g n)" for n
      unfolding T_def using capped by metis
    have "?g t \<le> ?g u" "?g u \<le> ?g m"
      using monoD [OF assms(4) that(1)] monoD [OF assms(4) that(2)] by auto
    then show ?thesis
      using moves_stable [of T, OF T, of "?g t" "?g u" "?g m"] that(3) assms(5) unfolding cap by simp
  qed
  moreover have "view_ok k (sy_set (?y n))" if "even (gen_of (sy_set (?y n)))" for n
    by (rule lock_ok_view [OF _ that, of _ "sy_guard (?y n)"]) (use sys_state_ok(2) [OF assms(1-3)] in \<open>simp add: sys_ok_def\<close>)
  ultimately show ?thesis
    using sys_state_published [OF assms(1-3)] by (auto simp: reader_view_def gen_of_def T_def)
qed

end

end
