(* ===== verification/Interleaving_Progress.thy ===== *)
theory Interleaving_Progress
  imports Interleaving_Facts
begin

text \<open>
  Progress of the threads: the system never deadlocks, and a thread that runs alone from the start
  of its loop returns within four steps, because what it found under the read lock still holds
  when it takes the write lock.
\<close>

section \<open>No deadlock\<close>

definition returned :: "('a, 'q) pc \<Rightarrow> bool" where
  "returned pc = (case pc of Returned _ _ \<Rightarrow> True | _ \<Rightarrow> False)"

lemma start_moves:
  "on_ok (\<lambda>(pc', _). pc' \<noteq> Start c) (start_put emit P v s)"
  "on_ok (\<lambda>(pc', _). pc' \<noteq> Start c) (start_remove emit P b q s)"
  by (auto simp: start_put_def start_remove_def wp split: put_outcome.split operation.split remove_outcome.split)

lemma pc_step_changes:
  assumes "pc_step emit P b pc s lock = Inr (pc', s', lock')" and "holds pc \<longleftrightarrow> lock \<noteq> None" and "\<not> returned pc"
  shows "pc' \<noteq> pc"
  using assms by (cases pc; cases lock) (auto simp: pc_step_def rbind_eq_Inr returned_def Let_def
      split: call.splits option.splits dest!: on_okD [OF start_moves(1)] on_okD [OF start_moves(2)])

context cset_ops
begin

lemma sys_progress:
  assumes "sys_ok k y" and "borrow_ok k b" and "\<forall>i<length (sy_pcs y). fresh_split P (sy_pcs y ! i) (sy_guard y)"
    and "\<exists>pc\<in>set (sy_pcs y). \<not> returned pc"
  shows "\<exists>i y'. i < length (sy_pcs y) \<and> sys_step emit P b i y = Inr y' \<and> sy_pcs y' ! i \<noteq> sy_pcs y ! i"
proof -
  obtain i where i: "i < length (sy_pcs y)" "\<not> returned (sy_pcs y ! i)" "holds (sy_pcs y ! i) \<longleftrightarrow> sy_guard y \<noteq> None"
  proof (cases "sy_guard y = None")
    case True
    obtain i where "i < length (sy_pcs y)" "\<not> returned (sy_pcs y ! i)"
      using assms(4) by (auto simp: in_set_conv_nth)
    moreover have "\<not> holds (sy_pcs y ! i)"
      using assms(1) True calculation(1) by (auto simp: sys_ok_def)
    ultimately show thesis
      using that True by blast
  next
    case False
    then obtain i where "i < length (sy_pcs y)" "holds (sy_pcs y ! i)"
      using assms(1) by (auto simp: sys_ok_def)
    moreover have "\<not> returned pc" if "holds pc" for pc :: "('a, 'b) pc"
      using that by (cases pc) (simp_all add: returned_def)
    ultimately show thesis
      using that False by blast
  qed
  have fresh: "fresh_split P (sy_pcs y ! i) (sy_guard y)"
    using assms(3) i(1) by blast
  have pre: "lock_ok k (sy_set y) (sy_guard y)" "pc_ok (sy_pcs y ! i)"
    "holds (sy_pcs y ! i) \<Longrightarrow> \<exists>g. sy_guard y = Some g \<and> guard_fits (sy_pcs y ! i) g"
    using assms(1) i(1) by (auto simp: sys_ok_def)
  obtain pc' s' lock' where st: "pc_step emit P b (sy_pcs y ! i) (sy_set y) (sy_guard y) = Inr (pc', s', lock')"
    by (rule pc_step_cases [OF pre fresh assms(2)])
  then have "pc' \<noteq> sy_pcs y ! i"
    using pc_step_changes i(2,3) by blast
  with st show ?thesis
    using i(1) by (intro exI [of _ i]) (simp add: sys_step_def)
qed

section \<open>A thread on its own\<close>

text \<open>What the write lock is wanted for is still to be done.\<close>

definition sure :: "('a \<Rightarrow> 'q::linorder) \<Rightarrow> ('a, 'q) call \<Rightarrow> 'a want \<Rightarrow> 'a cset \<Rightarrow> 'a route list \<Rightarrow> bool" where
  "sure b c w s idx = (case (c, w) of
     (_, WantRekey _ _ _ _) \<Rightarrow> True
   | (CPut v, WantSplit a key) \<Rightarrow> put_target P v idx = Some (key, a)
   | (CPut v, WantRoot) \<Rightarrow> idx = []
   | (CRemove q, WantUnlink) \<Rightarrow> (\<forall>key a. remove_target b q s idx = Some (key, a) \<longrightarrow> length (cs_nodes s a) \<le> 1)
   | _ \<Rightarrow> False)"

lemma put_target_focus: "focus k (k v) idx A key a B \<Longrightarrow> put_target P v idx = Some (key, a)"
proof -
  assume "focus k (k v) idx A key a B"
  then have idx: "idx = A @ (key, a) # B" and none: "find (\<lambda>r. k v \<le> k (fst r)) A = None" and B: "B = [] \<or> k v \<le> k key"
    by (auto simp: focus_def find_None_iff not_le)
  show ?thesis
    using none B by (auto simp: put_target_route route_def btm_first_from_def above_def idx find_append)
qed

lemma start_put_sure:
  assumes "cset_ok k s" and "start_put emit P v s = Inr (pc', s')" and "\<not> returned pc'"
  shows "\<exists>w. pc' = Waiting (CPut v) w \<and> sure b (CPut v) w s' (canon (cs_index s'))"
  using assms(1)
proof (cases rule: put_attempt_cases [where v = v and emit = emit])
  case (occupied A key a B j)
  then show ?thesis
    using assms(2,3) by (auto simp: start_put_def rbind_eq_Inr returned_def)
qed (use assms(2,3) in \<open>auto simp: start_put_def returned_def sure_def put_target_focus\<close>)

lemma start_remove_sure:
  assumes "cset_ok k s" and "borrow_ok k b" and "start_remove emit P b q s = Inr (pc', s')" and "\<not> returned pc'"
  shows "\<exists>w. pc' = Waiting (CRemove q) w \<and> sure b (CRemove q) w s' (canon (cs_index s'))"
  using assms(1,2)
  by (cases rule: remove_attempt_cases [where q = q and emit = emit])
    (use assms(3,4) in \<open>auto simp: start_remove_def returned_def sure_def\<close>)

lemma section_sure:
  assumes "open_ok k s g" and "guard_fits (Inside c w) g" and "borrow_ok k b" and "sure b c w s (tg_canon g)"
  shows "fresh_split P (Inside c w) (Some g)" and "guard_section emit P b c w s g = Inr (r, s1, g1) \<Longrightarrow> r \<noteq> None"
proof -
  show "fresh_split P (Inside c w) (Some g)"
    using assms(4) by (auto simp: fresh_split_def sure_def split: pc.splits call.splits want.splits)
  assume res: "guard_section emit P b c w s g = Inr (r, s1, g1)"
  show "r \<noteq> None"
  proof (cases w)
    case (WantSplit a key)
    then obtain v where c: "c = CPut v" "put_target P v (tg_canon g) = Some (key, a)"
      using assms(4) by (cases c) (auto simp: sure_def)
    then have "tg_canon g \<noteq> []"
      by (auto simp: put_target_route route_def btm_first_from_def)
    then obtain A key' a' B where r: "route k (k v) (tg_canon g) = Some (key', a')" "focus k (k v) (tg_canon g) A key' a' B"
      by (rule route_focus)
    then have "focus k (k v) (tg_canon g) A key a B"
      using c(2) by (simp add: put_target_route)
    then show ?thesis
      using commit_split_ok [OF assms(1) _ _ refl, of v A key a B emit] res assms(2) c(1) WantSplit
      by (auto simp: guard_section_def put_commit_def commit_def is_rekey_def split: prod.splits)
  next
    case (WantRekey a key old evs)
    have "on_ok (\<lambda>(r, _, _). r \<noteq> None) (guard_section emit P b c (WantRekey a key old evs) s g)"
      by (cases c) (auto simp: guard_section_def put_commit_def wp Let_def split: option.split prod.split)
    then show ?thesis
      using res WantRekey by (auto dest!: on_okD)
  next
    case WantRoot
    then obtain v where c: "c = CPut v" "tg_canon g = []"
      using assms(4) by (cases c) (auto simp: sure_def)
    then show ?thesis
      using put_root_ok [OF assms(1) _ c(2), of emit v] res assms(2) WantRoot by (auto simp: guard_section_def is_rekey_def)
  next
    case WantUnlink
    then obtain q where c: "c = CRemove q"
      using assms(4) by (cases c) (auto simp: sure_def)
    have pub: "tg_publish g"
      using assms(2) WantUnlink by (simp add: is_rekey_def)
    have short: "\<not> 1 < length (cs_nodes s a)" if "remove_target b q s (tg_canon g) = Some (key, a)" for key a
      using that assms(4) c WantUnlink by (auto simp: sure_def)
    have "remove_singleton emit P b q s g = Inr (r, s1, g1)"
      using res c WantUnlink by (simp add: guard_section_def)
    then show ?thesis
      using remove_singleton_ok [OF assms(1) pub assms(3), where emit = emit and q = q] short by (auto split: option.splits)
  qed
qed

text \<open>Four steps of one thread, from the start of its loop with the structural lock free.\<close>

lemma pc_call_effect:
  "effect P b pc xs pc' xs' \<Longrightarrow> effect P b pc' xs' pc'' xs'' \<Longrightarrow> pc_call pc' = pc_call pc \<Longrightarrow> effect P b pc xs pc'' xs''"
  by (auto simp: effect_def)

lemma solo_waiting:
  assumes "cset_ok k s" and "want_ok c w" and "sure b c w s (canon (cs_index s))" and "borrow_ok k b"
  shows "\<exists>s1 g1 s2 g2 old evs s'. pc_step emit P b (Waiting c w) s None = Inr (Inside c w, s1, Some g1) \<and>
    pc_step emit P b (Inside c w) s1 (Some g1) = Inr (Leaving c (Some (old, evs)), s2, Some g2) \<and>
    pc_step emit P b (Leaving c (Some (old, evs))) s2 (Some g2) = Inr (Returned old evs, s', None) \<and>
    cset_ok k s' \<and> effect P b (Waiting c w) (elements s) (Returned old evs) (elements s')"
proof -
  let ?g1 = "open_guard w (cs_index s)"
  let ?s1 = "with_topology (tg_topology ?g1) s"
  note open' = waiting_ok [OF assms(1,2), of b]
  then have o1: "open_ok k ?s1 ?g1" "cs_index ?s1 = tg_topology ?g1" "guard_fits (Inside c w) ?g1"
    by (simp_all add: pc_step_ok_def lock_ok_def del: guard_fits.simps)
  have "tg_canon ?g1 = canon (cs_index s)"
    by (cases w) (simp_all add: open_guard_def topology_write_def topology_write_rekey_def)
  then have sure1: "sure b c w ?s1 (tg_canon ?g1)"
    using assms(3) by (auto simp: sure_def remove_target_route split: call.splits want.splits)
  note inside = section_sure [OF o1(1,3) assms(4) sure1]
  obtain r s2 g2 where sec: "guard_section emit P b c w ?s1 ?g1 = Inr (r, s2, g2)"
    "pc_step_ok P b (Inside c w) ?s1 (Leaving c r) (with_topology (tg_topology g2) s2) (Some g2)"
    using guard_section_ok [OF o1 assms(2) inside(1) assms(4), where emit = emit] by blast
  obtain old evs where r: "r = Some (old, evs)"
    using inside(2) [OF sec(1)] by auto
  obtain t where t: "drop_guard k g2 = Inr t" "pc_step_ok P b (Leaving c r) (with_topology (tg_topology g2) s2)
      (Returned old evs) (with_topology t (with_topology (tg_topology g2) s2)) None"
    using leaving_ok [of "with_topology (tg_topology g2) s2" g2 b c r] sec(2) r by (auto simp: pc_step_ok_def lock_ok_def)
  have "effect P b (Waiting c w) (elements s) (Returned old evs) (elements (with_topology t (with_topology (tg_topology g2) s2)))"
    by (rule pc_call_effect [OF pc_call_effect])
      (use open' sec(2) t(2) r in \<open>auto simp: pc_step_ok_def simp del: with_topology_simps\<close>)
  moreover have "cset_ok k (with_topology t (with_topology (tg_topology g2) s2))"
    using t(2) by (simp add: pc_step_ok_def lock_ok_def)
  ultimately show ?thesis
    using sec(1) t(1) r by (simp add: pc_step_def Let_def)
qed

lemma sys_step_at:
  assumes "i < length (sy_pcs y)" and "pc_step emit P b (sy_pcs y ! i) (sy_set y) (sy_guard y) = Inr (pc', s', lock')"
  shows "sys_step emit P b i y = Inr \<lparr> sy_set = s', sy_guard = lock', sy_pcs = (sy_pcs y)[i := pc'] \<rparr>"
  using assms by (simp add: sys_step_def)

lemma solo_returns:
  assumes "sys_ok k y" and "borrow_ok k b" and "sy_guard y = None" and "i < length (sy_pcs y)" and "sy_pcs y ! i = Start c"
  shows "\<exists>y' old evs. sys_run emit P b [i, i, i, i] y = Inr y' \<and> sy_pcs y' = (sy_pcs y)[i := Returned old evs] \<and>
    sy_guard y' = None \<and> spec_call P b c (elements (sy_set y)) = (old, elements (sy_set y'))"
proof -
  let ?s = "sy_set y"
  have ok: "cset_ok k ?s"
    using assms(1,3) by (simp add: sys_ok_def lock_ok_def)
  obtain pc' s' where first: "pc_step emit P b (Start c) ?s None = Inr (pc', s', None)" "pc_step_ok P b (Start c) ?s pc' s' None"
    and sure: "\<not> returned pc' \<Longrightarrow> \<exists>w. pc' = Waiting c w \<and> sure b c w s' (canon (cs_index s'))"
  proof (cases c)
    case (CPut v)
    obtain pc' s' where st: "start_put emit P v ?s = Inr (pc', s')" "pc_step_ok P b (Start c) ?s pc' s' None"
      using start_put_ok [OF ok] CPut by blast
    then have "pc_step emit P b (Start c) ?s None = Inr (pc', s', None)"
      using CPut by (simp add: pc_step_def)
    then show thesis
      using st(2) by (rule that) (use start_put_sure [OF ok st(1)] CPut in blast)
  next
    case (CRemove q)
    obtain pc' s' where st: "start_remove emit P b q ?s = Inr (pc', s')" "pc_step_ok P b (Start c) ?s pc' s' None"
      using start_remove_ok [OF ok assms(2)] CRemove by blast
    then have "pc_step emit P b (Start c) ?s None = Inr (pc', s', None)"
      using CRemove by (simp add: pc_step_def)
    then show thesis
      using st(2) by (rule that) (use start_remove_sure [OF ok assms(2) st(1)] CRemove in blast)
  qed
  let ?y = "\<lparr> sy_set = s', sy_guard = None, sy_pcs = (sy_pcs y)[i := pc'] \<rparr>"
  have step1: "sys_step emit P b i y = Inr ?y"
    using sys_step_at [OF assms(4)] first(1) assms(3,5) by simp
  show ?thesis
  proof (cases "returned pc'")
    case True
    then obtain old evs where pc': "pc' = Returned old evs"
      by (cases pc') (simp_all add: returned_def)
    have stay: "sys_step emit P b i ?y = Inr ?y"
      using assms(4) pc' by (simp add: sys_step_def pc_step_def)
    have "spec_call P b c (elements ?s) = (old, elements s')"
      using first(2) pc' by (simp add: pc_step_ok_def effect_def)
    then show ?thesis
      using step1 stay pc' by auto
  next
    case False
    then obtain w where w: "pc' = Waiting c w" "sure b c w s' (canon (cs_index s'))"
      using sure by blast
    have "cset_ok k s'" "want_ok c w"
      using first(2) w(1) by (simp_all add: pc_step_ok_def lock_ok_def)
    then obtain s1 g1 s2 g2 old evs s3 where run: "pc_step emit P b (Waiting c w) s' None = Inr (Inside c w, s1, Some g1)"
      "pc_step emit P b (Inside c w) s1 (Some g1) = Inr (Leaving c (Some (old, evs)), s2, Some g2)"
      "pc_step emit P b (Leaving c (Some (old, evs))) s2 (Some g2) = Inr (Returned old evs, s3, None)"
      "effect P b (Waiting c w) (elements s') (Returned old evs) (elements s3)"
      using solo_waiting [OF _ _ w(2) assms(2), where emit = emit] by blast
    have "effect P b (Start c) (elements ?s) (Returned old evs) (elements s3)"
      by (rule pc_call_effect [OF _ run(4)]) (use first(2) w(1) in \<open>auto simp: pc_step_ok_def\<close>)
    then have "spec_call P b c (elements ?s) = (old, elements s3)"
      by (simp add: effect_def)
    then show ?thesis
      using step1 run(1-3) w(1) assms(4) by (auto simp: sys_step_at)
  qed
qed

end

end
