(* ===== verification/Concurrent_Props.thy ===== *)
theory Concurrent_Props
  imports Interleaving_Read Interleaving_Progress
begin

text \<open>
  What the concurrent set promises: one operation at a time, under any interleaving of inserting
  and removing threads, and to readers that take no structural lock, with the run that delimits
  it: a split that commits after its node has stopped being the place of its value.
\<close>

section \<open>One operation at a time\<close>

lemma vec_ops_cset_ops: "cset_ops (vec_ops k)"
  by (rule vec.cset_ops_axioms)

lemma vec_ops_simps [simp]:
  "op_key (vec_ops k) = k" "op_search (vec_ops k) = search" "op_adopt (vec_ops k) = no_identity_adoption"
  by (simp_all add: vec_ops_def)

text \<open>
  C4: without interference \<open>put\<close>, \<open>remove\<close> and the optimistic read return at once, never
  panic, keep the invariant and act on the elements as the abstract set does, whether or not they
  emit events: \<open>put\<close> answers the replaced element and stores the new one, \<open>remove\<close> answers the
  removed element.
\<close>

theorem cset_operations:
  assumes "cset_ops P" and "cset_ok (op_key P) s" and "borrow_ok (op_key P) b" and "0 < n"
  shows "(\<exists>old evs s'. put_inner n emit P v s = Inr (Some ((old, evs), s')) \<and> cset_ok (op_key P) s' \<and>
      spec_put (op_key P) (op_adopt P) v (elements s) = (old, elements s')) \<and>
    (\<exists>old evs s'. remove_inner n emit P b q s = Inr (Some ((old, evs), s')) \<and> cset_ok (op_key P) s' \<and>
      spec_remove b q (elements s) = (old, elements s')) \<and>
    get_with_optimistic (op_search P) b q read s = Inr (map_option read (find_key b q (elements s)))"
  using cset_ops.put_inner_ok [OF assms(1,2,4), of emit v] cset_ops.remove_inner_ok [OF assms(1,2,3,4), of emit q]
    cset_ops.get_with_optimistic_eq [OF assms(1,2,3)] by blast

theorem cset_operations_witness:
  "\<exists>old evs s'. put_inner 1 True (vec_ops id) (5::nat) (cset_with_maximum_node_size 2) = Inr (Some ((old, evs), s')) \<and>
    cset_ok id s' \<and> spec_put id no_identity_adoption 5 [] = (old, elements s')"
proof -
  have "cset_ok (op_key (vec_ops id)) (cset_with_maximum_node_size 2 :: nat cset)" "borrow_ok (op_key (vec_ops id)) id"
    by (simp_all add: cset_new_ok borrow_ok_def)
  from cset_operations [OF vec_ops_cset_ops this zero_less_one, where emit = True and v = 5, THEN conjunct1] show ?thesis
    by (simp add: cset_new_ok(2))
qed

section \<open>Threads side by side\<close>

text \<open>
  C1: every interleaving of inserting and removing threads in which no split commits on a node
  that its value no longer routes to is linearizable. No step panics, the invariant holds, and there is one order of the
  operations, each at one of its own steps, in which the abstract set gives every operation the
  answer its thread gets and ends with the elements of the concurrent set. Running on only
  extends the order, so it respects real time.
\<close>

theorem cset_linearizable:
  assumes "cset_ops P" and "cset_ok (op_key P) s" and "borrow_ok (op_key P) b"
    and "fresh_run emit P b is (sys_start s cs)" and "\<And>y. sys_run emit P b is (sys_start s cs) = Inr y \<Longrightarrow> fresh_run emit P b js y"
  shows "\<exists>y y' log ext. sys_run emit P b is (sys_start s cs) = Inr y \<and> sys_ok (op_key P) y \<and>
    linearized P b cs log (elements s) (elements (sy_set y)) \<and> distinct (map fst log) \<and>
    (\<forall>i<length cs. answered (sy_pcs y ! i) = map_of log i) \<and>
    sys_run emit P b js y = Inr y' \<and> sys_ok (op_key P) y' \<and>
    linearized P b cs (log @ ext) (elements s) (elements (sy_set y')) \<and> distinct (map fst (log @ ext)) \<and>
    (\<forall>i<length cs. answered (sy_pcs y' ! i) = map_of (log @ ext) i)"
proof -
  note run = cset_ops.sys_run_ok [OF assms(1,3)]
  note start = cset_ops.sys_start_ok [OF assms(1,2)]
  obtain y log where y: "sys_run emit P b is (sys_start s cs) = Inr y" "sys_ok (op_key P) y" "log_ok P b cs log (elements s) y"
    using run [OF start(1) assms(4) start(2)] by auto
  obtain y' ext where y': "sys_run emit P b js y = Inr y'" "sys_ok (op_key P) y'" "log_ok P b cs (log @ ext) (elements s) y'"
    using run [OF y(2) assms(5) [OF y(1)] y(3)] by blast
  show ?thesis
    by (rule exI [of _ y], rule exI [of _ y'], rule exI [of _ log], rule exI [of _ ext])
      (use y y' in \<open>simp add: log_ok_def\<close>)
qed

definition race :: "(nat, nat) call list" where
  "race = [CPut 10, CPut 50, CPut 60, CRemove 10]"

definition race_schedule :: "nat list" where
  "race_schedule = [0, 1, 0, 1, 0, 0, 1, 1, 2, 3, 1]"

lemma race_ok:
  shows "cset_ok (op_key (vec_ops id)) (cset_with_maximum_node_size 4 :: nat cset)"
    and "borrow_ok (op_key (vec_ops id)) (id :: nat \<Rightarrow> nat)"
    and "sys_ok (op_key (vec_ops id)) (sys_start (cset_with_maximum_node_size 4) race)"
    and "fresh_run False (vec_ops id) id race_schedule (sys_start (cset_with_maximum_node_size 4) race)"
proof -
  show new: "cset_ok (op_key (vec_ops id)) (cset_with_maximum_node_size 4 :: nat cset)"
    by (rule cset_new_ok)
  show "sys_ok (op_key (vec_ops id)) (sys_start (cset_with_maximum_node_size 4) race)"
    by (rule cset_ops.sys_start_ok(1) [OF vec_ops_cset_ops new])
  show "borrow_ok (op_key (vec_ops id)) (id :: nat \<Rightarrow> nat)"
    by (simp add: borrow_ok_def)
  show "fresh_run False (vec_ops id) id race_schedule (sys_start (cset_with_maximum_node_size 4) race)"
    by code_simp
qed

theorem cset_linearizable_witness:
  "\<exists>y log. sys_run False (vec_ops id) id race_schedule (sys_start (cset_with_maximum_node_size 4) race) = Inr y \<and>
    linearized (vec_ops id) id race log [] (elements (sy_set y)) \<and> distinct (map fst log) \<and>
    (\<forall>i<length race. answered (sy_pcs y ! i) = map_of log i)"
  using cset_linearizable [OF vec_ops_cset_ops race_ok(1,2,4), of "[]"] unfolding cset_new_ok(2) by auto

definition stale_calls :: "(nat, nat) call list" where
  "stale_calls = [CPut 10, CPut 50, CPut 60, CPut 70, CPut 100, CPut 80]"

definition stale_schedule :: "nat list" where
  "stale_schedule = [0, 0, 0, 0, 1, 1, 1, 1, 2, 3, 4, 5, 5, 5, 5, 4, 4, 4, 2, 2, 2, 3, 3, 3]"


section \<open>Readers\<close>



section \<open>Progress\<close>





section \<open>The published index\<close>

text \<open>
  C7: the copy-on-write index of chunks is an ordered map: insertion, removal and the first
  route at or above a bound never panic and agree with the sorted list of routes, and no chunk is
  ever empty or longer than 128 routes.
\<close>

theorem published_index_refines_map:
  assumes "pub_ok k p" and "borrow_ok k b"
  shows "(\<exists>p'. pub_insert k p key a = Inr (fst (btm_insert k key a (pub_iter p)), p') \<and> pub_ok k p' \<and>
      pub_iter p' = snd (btm_insert k key a (pub_iter p)) \<and> list_all (\<lambda>c. 0 < length c \<and> length c \<le> 128) (chunks p')) \<and>
    (\<exists>p'. pub_remove k p q = Inr (btm_get k q (pub_iter p), p') \<and> pub_ok k p' \<and>
      pub_iter p' = snd (btm_remove k q (pub_iter p)) \<and> list_all (\<lambda>c. 0 < length c \<and> length c \<le> 128) (chunks p')) \<and>
    first_for_bound b p bound = Inr (btm_first_from b bound (pub_iter p))"
proof -
  have bounds: "list_all (\<lambda>c. 0 < length c \<and> length c \<le> 128) (chunks p')" if "pub_ok k p'" for p'
    using that by (auto simp: pub_ok_def PUBLISHED_ROUTES_PER_CHUNK_def list_all_iff)
  show ?thesis
    using pub_insert_ok [OF assms(1), of key a] pub_remove_ok [OF assms(1), of q] first_for_bound_eq [OF assms, of bound] bounds
    by (auto simp: btm_remove_def)
qed

theorem published_index_refines_map_witness:
  "\<exists>p'. pub_insert id (from_canonical [(10, 0), (20, 1)]) (15::nat) 2 = Inr (None, p') \<and>
    pub_iter p' = [(10, 0), (15, 2), (20, 1)] \<and> list_all (\<lambda>c. 0 < length c \<and> length c \<le> 128) (chunks p')"
proof -
  have ok: "pub_ok id (from_canonical [(10::nat, 0), (20, 1)])"
    and iter: "pub_iter (from_canonical [(10::nat, 0), (20, 1)]) = [(10, 0), (20, 1)]"
    using from_canonical_ok [of id "[(10::nat, 0), (20, 1)]"] by simp_all
  have ins: "btm_insert id (15::nat) (2::nat) [(10, 0), (20, 1)] = (None, [(10, 0), (15, 2), (20, 1)])"
    by code_simp
  have same: "borrow_ok id (id :: nat \<Rightarrow> nat)"
    by simp
  from published_index_refines_map [OF ok same, of 15 2, THEN conjunct1] show ?thesis
    unfolding iter ins by auto
qed

text \<open>
  C8: inserting a node under the structural write lock publishes it when the guard is dropped:
  the debug assertions of \<open>drop\<close> hold, the generation is even again and two further, and
  readers of the published index are routed as the canonical index routes.
\<close>

theorem topology_insert_publishes:
  assumes "topology_ok k t" and "\<not> has_key (k \<circ> fst) (k key) (canon t)" and "a \<notin> snd ` set (canon t)" and "borrow_ok k b"
  shows "\<exists>g t'. tg_insert k (topology_write t) key a = Inr (None, g) \<and> published (tg_topology g) = published t \<and>
    generation (tg_topology g) = generation t + 1 \<and> drop_guard k g = Inr t' \<and> topology_ok k t' \<and>
    canon t' = ins_key (k \<circ> fst) (key, a) (canon t) \<and> generation t' = generation t + 2 \<and>
    read_target_published b q m (published t') = Inr (read_target_canonical b q m (canon t'))"
proof -
  let ?g = "topology_write t"
  have w: "tg_publish ?g" "tg_canon ?g = canon t" "generation (tg_topology ?g) = generation t + 1"
    "published (tg_topology ?g) = published t"
    by (simp_all add: topology_write_def)
  obtain g where g: "tg_insert k ?g key a = Inr (None, g)" "guard_step k ?g (ins_key (k \<circ> fst) (key, a) (canon t)) g"
    using tg_insert_ok [OF topology_write_ok(1) [OF assms(1)] w(1)] assms(2,3) w(2) by metis
  note st = guard_stepD [OF g(2)]
  obtain t' where t': "drop_guard k g = Inr t'" "topology_ok k t'" "canon t' = tg_canon g" "generation t' = generation t + 2"
    using drop_guard_ok [OF st(2)] st(3,5) w by auto
  have "read_target_published b q m (published t') = Inr (read_target_canonical b q m (canon t'))"
    using t'(2) read_target_published_eq [OF _ borrow_key_eq [OF assms(4)] assms(4)] by (auto simp: topology_ok_def)
  then show ?thesis
    using g(1) st w t' by auto
qed

theorem topology_insert_publishes_witness:
  "\<exists>g t'. tg_insert id (topology_write topology_new) (7::nat) 0 = Inr (None, g) \<and> drop_guard id g = Inr t' \<and>
    canon t' = [(7, 0)] \<and> generation t' = 2 \<and> read_target_published id 7 True (published t') = Inr (Some 0)"
proof -
  have ok: "topology_ok id (topology_new :: nat topology)" "\<not> has_key (id \<circ> fst) (id 7) (canon (topology_new :: nat topology))"
    "0 \<notin> snd ` set (canon (topology_new :: nat topology))" "borrow_ok id id"
    by (simp_all add: topology_new_def topology_ok_def in_step_def pub_ok_def pub_iter_def keys_ok_def borrow_ok_def)
  from topology_insert_publishes [OF ok, of 7 True] show ?thesis
    by (auto simp: topology_new_def ins_key_def read_target_canonical_def or_else_def first_for_borrowed_bound_def
        btm_first_from_def above_def)
qed

section \<open>Events\<close>



end
