(* ===== verification/Concurrent_Iter.thy ===== *)
theory Concurrent_Iter
  imports Concurrent_Set Iterators
begin

text \<open>
  The iterators of \<open>src/concurrent/set.rs\<close>: \<open>Iter\<close> with its batches, \<open>Range::new\<close>, and
  \<open>remove_range\<close>. An iterator keeps no lock between its steps: each turn of the loop in \<open>next\<close>
  sees the set as it is then, so the loops take the state of the set at each moment.
\<close>

section \<open>Iterators\<close>

record 'a citer =
  ci_front_batch :: "'a list option"
  ci_back_batch :: "'a list option"
  ci_exhausted_front :: "addr option"
  ci_exhausted_back :: "addr option"
  ci_front_partial :: "(addr \<times> nat) option"
  ci_back_partial :: "(addr \<times> nat) option"
  ci_front_limit :: nat
  ci_back_limit :: nat
  ci_front_value :: "'a option"
  ci_back_value :: "'a option"
  ci_met :: bool

definition INITIAL_BATCH :: nat where
  "INITIAL_BATCH = 4"

definition MAX_BATCH :: nat where
  "MAX_BATCH = 4096"

text \<open>The initial state of both \<open>Iter::new\<close> and \<open>Range::new\<close>, with its two sentinels.\<close>

definition citer_between :: "'a option \<Rightarrow> 'a option \<Rightarrow> bool \<Rightarrow> 'a citer" where
  "citer_between front_value back_value met = \<lparr> ci_front_batch = None, ci_back_batch = None,
     ci_exhausted_front = None, ci_exhausted_back = None, ci_front_partial = None, ci_back_partial = None,
     ci_front_limit = INITIAL_BATCH, ci_back_limit = INITIAL_BATCH,
     ci_front_value = front_value, ci_back_value = back_value, ci_met = met \<rparr>"

definition citer_new :: "'a citer" where
  "citer_new = citer_between None None False"

text \<open>\<open>index.range(..key).next_back()\<close>.\<close>

definition btm_last_below :: "('a \<Rightarrow> 'k::linorder) \<Rightarrow> 'k \<Rightarrow> ('a \<times> 'v) list \<Rightarrow> ('a \<times> 'v) option" where
  "btm_last_below k q m = vec_last (filter (\<lambda>r. k (fst r) < q) m)"

text \<open>The node covering the cursor, and the one read next: its neighbour when it is exhausted.\<close>

definition front_candidate :: "('a \<Rightarrow> 'k::linorder) \<Rightarrow> 'a option \<Rightarrow> 'a route list \<Rightarrow> 'a route option" where
  "front_candidate k cursor idx =
     (case cursor of
        Some last_yielded \<Rightarrow> btm_first_from k (Excluded (k last_yielded)) idx
      | None \<Rightarrow> vec_first idx)"

definition front_entry :: "('a \<Rightarrow> 'k::linorder) \<Rightarrow> 'a citer \<Rightarrow> 'a route list \<Rightarrow> 'a route option" where
  "front_entry k it idx =
     (let candidate = front_candidate k (ci_front_value it) idx
      in case candidate of
          Some (key, node) \<Rightarrow>
            if ci_exhausted_front it = Some node then btm_first_from k (Excluded (k key)) idx else candidate
        | None \<Rightarrow> candidate)"

definition back_candidate :: "('a \<Rightarrow> 'k::linorder) \<Rightarrow> 'a option \<Rightarrow> 'a route list \<Rightarrow> 'a route option" where
  "back_candidate k cursor idx =
     (case cursor of
        Some last_yielded \<Rightarrow> or_else (btm_first_from k (Included (k last_yielded)) idx) (vec_last idx)
      | None \<Rightarrow> vec_last idx)"

definition back_entry :: "('a \<Rightarrow> 'k::linorder) \<Rightarrow> 'a citer \<Rightarrow> 'a route list \<Rightarrow> 'a route option" where
  "back_entry k it idx =
     (let candidate = back_candidate k (ci_back_value it) idx
      in case candidate of
          Some (key, node) \<Rightarrow>
            if ci_exhausted_back it = Some node then btm_last_below k (k key) idx else candidate
        | None \<Rightarrow> candidate)"

text \<open>\<open>rank(bound, from_start).map_or(0, |rank| rank + 1)\<close>.\<close>

definition rank_past :: "('a \<Rightarrow> 'q::linorder) \<Rightarrow> 'a list \<Rightarrow> 'q bound \<Rightarrow> bool \<Rightarrow> nat" where
  "rank_past b node bound from_start = (case node_rank b node bound from_start of None \<Rightarrow> 0 | Some rank \<Rightarrow> rank + 1)"

text \<open>How much of a node a direction has behind it: by the cursor, or by count before the first yield.\<close>

definition passed ::
  "('a \<Rightarrow> 'k::linorder) \<Rightarrow> 'a list \<Rightarrow> addr \<Rightarrow> 'a option \<Rightarrow> (addr \<times> nat) option \<Rightarrow> bool \<Rightarrow> nat" where
  "passed k node a cursor part from_start =
     (case cursor of
        Some v \<Rightarrow> rank_past k node (Excluded (k v)) from_start
      | None \<Rightarrow> (case part of Some (p, taken) \<Rightarrow> if p = a then taken else 0 | None \<Rightarrow> 0))"

definition install_front_batch :: "('a \<Rightarrow> 'k::linorder) \<Rightarrow> 'a cset \<Rightarrow> 'a citer \<Rightarrow> bool \<times> 'a citer" where
  "install_front_batch k s it =
     (case front_entry k it (canon (cs_index s)) of
        None \<Rightarrow> (False, it)
      | Some (_, a) \<Rightarrow>
          (let node = cs_nodes s a;
               skip = passed k node a (ci_front_value it) (ci_front_partial it) True;
               available = length node - skip;
               n = min available (ci_front_limit it)
           in (True, it\<lparr>
                ci_exhausted_front := if n = available then Some a else None,
                ci_front_partial := if n = available then None else Some (a, skip + n),
                ci_front_limit := min (ci_front_limit it * 2) MAX_BATCH,
                ci_front_batch := Some (take n (drop skip node)) \<rparr>)))"

definition install_back_batch :: "('a \<Rightarrow> 'k::linorder) \<Rightarrow> 'a cset \<Rightarrow> 'a citer \<Rightarrow> bool \<times> 'a citer" where
  "install_back_batch k s it =
     (case back_entry k it (canon (cs_index s)) of
        None \<Rightarrow> (False, it)
      | Some (_, a) \<Rightarrow>
          (let node = cs_nodes s a;
               truncate = passed k node a (ci_back_value it) (ci_back_partial it) False;
               available = length node - truncate;
               n = min available (ci_back_limit it);
               skip = available - n
           in (True, it\<lparr>
                ci_exhausted_back := if n = available then Some a else None,
                ci_back_partial := if n = available then None else Some (a, truncate + n),
                ci_back_limit := min (ci_back_limit it * 2) MAX_BATCH,
                ci_back_batch := Some (take n (drop skip node)) \<rparr>)))"

text \<open>One turn of the loop: \<open>continue\<close> or the end of the loop, or a value to return.\<close>

datatype 'a turn = Again | Yield "'a option"

definition at_or_below :: "('a \<Rightarrow> 'k::linorder) \<Rightarrow> 'a \<Rightarrow> 'a option \<Rightarrow> bool" where
  "at_or_below k v cursor = (case cursor of None \<Rightarrow> False | Some c \<Rightarrow> k v \<le> k c)"

definition at_or_above :: "('a \<Rightarrow> 'k::linorder) \<Rightarrow> 'a \<Rightarrow> 'a option \<Rightarrow> bool" where
  "at_or_above k v cursor = (case cursor of None \<Rightarrow> False | Some c \<Rightarrow> k c \<le> k v)"

definition front_turn :: "('a \<Rightarrow> 'k::linorder) \<Rightarrow> 'a cset \<Rightarrow> 'a citer \<Rightarrow> ('a turn \<times> 'a citer) res" where
  "front_turn k s it =
     (if ci_met it then Inr (Yield None, it)
      else
        (let (installed, it1) = (if ci_front_batch it = None then install_front_batch k s it else (True, it))
         in if \<not> installed then Inr (Yield None, it1)
            else rbind (unwrap (ci_front_batch it1)) (\<lambda>batch. case batch of
                [] \<Rightarrow> Inr (Again, it1\<lparr> ci_front_batch := None \<rparr>)
              | v # vs \<Rightarrow>
                  (let it2 = it1\<lparr> ci_front_batch := Some vs \<rparr>
                   in if at_or_below k v (ci_front_value it2) then Inr (Again, it2)
                      else if at_or_above k v (ci_back_value it2) then Inr (Yield None, it2\<lparr> ci_met := True \<rparr>)
                      else Inr (Yield (Some v), it2\<lparr> ci_front_value := Some v \<rparr>)))))"

definition back_turn :: "('a \<Rightarrow> 'k::linorder) \<Rightarrow> 'a cset \<Rightarrow> 'a citer \<Rightarrow> ('a turn \<times> 'a citer) res" where
  "back_turn k s it =
     (if ci_met it then Inr (Yield None, it)
      else
        (let (installed, it1) = (if ci_back_batch it = None then install_back_batch k s it else (True, it))
         in if \<not> installed then Inr (Yield None, it1)
            else rbind (unwrap (ci_back_batch it1)) (\<lambda>batch.
              case vec_last batch of
                None \<Rightarrow> Inr (Again, it1\<lparr> ci_back_batch := None \<rparr>)
              | Some v \<Rightarrow>
                  (let it2 = it1\<lparr> ci_back_batch := Some (butlast batch) \<rparr>
                   in if at_or_above k v (ci_back_value it2) then Inr (Again, it2)
                      else if at_or_below k v (ci_front_value it2) then Inr (Yield None, it2\<lparr> ci_met := True \<rparr>)
                      else Inr (Yield (Some v), it2\<lparr> ci_back_value := Some v \<rparr>)))))"

text \<open>
  \<open>next\<close> and \<open>next_back\<close> on a set that changes under them: turn number \<open>t\<close> sees the set \<open>st t\<close>. The
  fuel bounds the turns; \<open>None\<close> when it runs out.
\<close>

fun turns ::
  "('a cset \<Rightarrow> 'a citer \<Rightarrow> ('a turn \<times> 'a citer) res) \<Rightarrow> nat \<Rightarrow> (nat \<Rightarrow> 'a cset) \<Rightarrow> nat \<Rightarrow> 'a citer \<Rightarrow>
     ('a option \<times> nat \<times> 'a citer) option res" where
  "turns turn 0 st t it = Inr None"
| "turns turn (Suc n) st t it =
     rbind (turn (st t) it) (\<lambda>(r, it'). case r of
        Yield x \<Rightarrow> Inr (Some (x, Suc t, it'))
      | Again \<Rightarrow> turns turn n st (Suc t) it')"

definition citer_next ::
  "nat \<Rightarrow> ('a \<Rightarrow> 'k::linorder) \<Rightarrow> (nat \<Rightarrow> 'a cset) \<Rightarrow> nat \<Rightarrow> 'a citer \<Rightarrow> ('a option \<times> nat \<times> 'a citer) option res" where
  "citer_next n k st t it = turns (front_turn k) n st t it"

definition citer_next_back ::
  "nat \<Rightarrow> ('a \<Rightarrow> 'k::linorder) \<Rightarrow> (nat \<Rightarrow> 'a cset) \<Rightarrow> nat \<Rightarrow> 'a citer \<Rightarrow> ('a option \<times> nat \<times> 'a citer) option res" where
  "citer_next_back n k st t it = turns (back_turn k) n st t it"

text \<open>A \<open>for\<close> loop over either of them: the values in order, and whether the iterator ran out before the fuel.\<close>

fun scan ::
  "((nat \<Rightarrow> 'a cset) \<Rightarrow> nat \<Rightarrow> 'a citer \<Rightarrow> ('a option \<times> nat \<times> 'a citer) option res) \<Rightarrow> nat \<Rightarrow> (nat \<Rightarrow> 'a cset) \<Rightarrow> nat \<Rightarrow>
     'a citer \<Rightarrow> ('a list \<times> bool) res" where
  "scan nxt 0 st t it = Inr ([], False)"
| "scan nxt (Suc n) st t it =
     rbind (nxt st t it) (\<lambda>r. case r of
        None \<Rightarrow> Inr ([], False)
      | Some (None, _, _) \<Rightarrow> Inr ([], True)
      | Some (Some v, t', it') \<Rightarrow> rbind (scan nxt n st t' it') (\<lambda>(vs, finished). Inr (v # vs, finished)))"

text \<open>Both on a set that nobody changes; three turns are enough there, the panic for more is never reached.\<close>

definition still_next :: "('a \<Rightarrow> 'k::linorder) \<Rightarrow> 'a cset \<Rightarrow> ('a citer, 'a) step_fn" where
  "still_next k s it = rbind (citer_next 3 k (\<lambda>_. s) 0 it) (\<lambda>r.
     case r of None \<Rightarrow> Inl StackOverflow | Some (x, _, it') \<Rightarrow> Inr (x, it'))"

definition still_next_back :: "('a \<Rightarrow> 'k::linorder) \<Rightarrow> 'a cset \<Rightarrow> ('a citer, 'a) step_fn" where
  "still_next_back k s it = rbind (citer_next_back 3 k (\<lambda>_. s) 0 it) (\<lambda>r.
     case r of None \<Rightarrow> Inl StackOverflow | Some (x, _, it') \<Rightarrow> Inr (x, it'))"

section \<open>Ranges\<close>

definition node_for_borrowed_end ::
  "('a \<Rightarrow> 'q::linorder) \<Rightarrow> 'a route list \<Rightarrow> 'q \<Rightarrow> bool \<Rightarrow> 'a route option" where
  "node_for_borrowed_end b idx upper borrow_order_matches =
     (if borrow_order_matches then or_else (btm_first_from b (Included upper) idx) (vec_last idx)
      else or_else (or_else (find (\<lambda>r. upper < b (fst r)) idx) (vec_last (filter (\<lambda>r. b (fst r) = upper) idx))) (vec_last idx))"

text \<open>The last node that can hold an element inside the upper bound.\<close>

definition range_end_entry ::
  "('a \<Rightarrow> 'q::linorder) \<Rightarrow> 'a route list \<Rightarrow> 'q bound \<Rightarrow> bool \<Rightarrow> 'a route option" where
  "range_end_entry b idx hi borrow_order_matches =
     (case hi of
        Included u \<Rightarrow> node_for_borrowed_end b idx u borrow_order_matches
      | Excluded u \<Rightarrow> node_for_borrowed_end b idx u borrow_order_matches
      | Unbounded \<Rightarrow> vec_last idx)"

definition range_is_empty :: "'q::linorder bound \<Rightarrow> 'q bound \<Rightarrow> bool" where
  "range_is_empty lo hi =
     (case (lo, hi) of
        (Included l, Included u) \<Rightarrow> u < l
      | (Included l, Excluded u) \<Rightarrow> u \<le> l
      | (Excluded l, Included u) \<Rightarrow> u \<le> l
      | (Excluded l, Excluded u) \<Rightarrow> u \<le> l
      | _ \<Rightarrow> False)"

text \<open>The element before the range, and the element after it.\<close>

definition range_front_value ::
  "('a \<Rightarrow> 'k::linorder) \<Rightarrow> ('a \<Rightarrow> 'q::linorder) \<Rightarrow> 'q bound \<Rightarrow> 'a cset \<Rightarrow> 'a option" where
  "range_front_value k b lo s =
     (let idx = canon (cs_index s) in
      case first_for_borrowed_bound b idx lo (cs_borrow_order_matches s) of
        None \<Rightarrow> None
      | Some (front_key, front_node) \<Rightarrow>
          (case node_rank b (cs_nodes s front_node) lo True of
             Some rank \<Rightarrow> vec_get (cs_nodes s front_node) rank
           | None \<Rightarrow> (case btm_last_below k (k front_key) idx of
               Some (_, pre_front_node) \<Rightarrow> vec_last (cs_nodes s pre_front_node)
             | None \<Rightarrow> None)))"

definition range_back_value ::
  "('a \<Rightarrow> 'k::linorder) \<Rightarrow> ('a \<Rightarrow> 'q::linorder) \<Rightarrow> 'q bound \<Rightarrow> 'a cset \<Rightarrow> 'a option" where
  "range_back_value k b hi s =
     (let idx = canon (cs_index s) in
      case range_end_entry b idx hi (cs_borrow_order_matches s) of
        None \<Rightarrow> None
      | Some (back_key, back_node) \<Rightarrow>
          (case node_rank b (cs_nodes s back_node) hi False of
             Some rank \<Rightarrow> vec_get (rev (cs_nodes s back_node)) rank
           | None \<Rightarrow> (case btm_first_from k (Excluded (k back_key)) idx of
               Some (_, next_back_node) \<Rightarrow> vec_first (cs_nodes s next_back_node)
             | None \<Rightarrow> None)))"

text \<open>With no sentinel on either side the range is everything or nothing.\<close>

definition range_misses ::
  "('a \<Rightarrow> 'q::linorder) \<Rightarrow> 'q bound \<Rightarrow> 'q bound \<Rightarrow> 'a cset \<Rightarrow> bool" where
  "range_misses b lo hi s =
     (let idx = canon (cs_index s);
          greatest = Option.bind (vec_last idx) (\<lambda>(_, a). node_max (cs_nodes s a));
          least = Option.bind (vec_first idx) (\<lambda>(_, a). node_min (cs_nodes s a))
      in (lo \<noteq> Unbounded \<or> hi \<noteq> Unbounded) \<and>
        ((case greatest of None \<Rightarrow> False | Some m \<Rightarrow>
            (case lo of Included v \<Rightarrow> b m < v | Excluded v \<Rightarrow> b m \<le> v | Unbounded \<Rightarrow> False)) \<or>
         (case least of None \<Rightarrow> False | Some m \<Rightarrow>
            (case hi of Included v \<Rightarrow> v < b m | Excluded v \<Rightarrow> v \<le> b m | Unbounded \<Rightarrow> False))))"

definition cset_range ::
  "('a \<Rightarrow> 'k::linorder) \<Rightarrow> ('a \<Rightarrow> 'q::linorder) \<Rightarrow> 'q bound \<Rightarrow> 'q bound \<Rightarrow> 'a cset \<Rightarrow> 'a citer" where
  "cset_range k b lo hi s =
     (let front_value = range_front_value k b lo s;
          back_value = range_back_value k b hi s
      in citer_between front_value back_value
           (range_is_empty lo hi \<or> front_value = None \<and> back_value = None \<and> range_misses b lo hi s))"

section \<open>Removing a range\<close>

definition vec_drain :: "'a list \<Rightarrow> nat \<Rightarrow> nat \<Rightarrow> 'a list res" where
  "vec_drain xs i j = (if i \<le> j \<and> j \<le> length xs then Inr (take i xs @ drop j xs) else Inl SliceOutOfRange)"

definition removed_prefix_len :: "('a \<Rightarrow> 'q::linorder) \<Rightarrow> 'q bound \<Rightarrow> 'a list \<Rightarrow> nat" where
  "removed_prefix_len b hi node =
     (case hi of
        Included u \<Rightarrow> rank_past b node (Excluded u) True
      | Excluded u \<Rightarrow> rank_past b node (Included u) True
      | Unbounded \<Rightarrow> length node)"

definition set_node :: "addr \<Rightarrow> 'a list \<Rightarrow> 'a cset \<Rightarrow> 'a cset" where
  "set_node a node s = s\<lparr> cs_nodes := (cs_nodes s)(a := node) \<rparr>"

text \<open>A range inside one node.\<close>

definition remove_within ::
  "('a \<Rightarrow> 'k::linorder) \<Rightarrow> ('a \<Rightarrow> 'q::linorder) \<Rightarrow> 'q bound \<Rightarrow> 'q bound \<Rightarrow> 'a route \<Rightarrow> 'a cset \<Rightarrow> 'a write_guard \<Rightarrow>
     (unit \<times> 'a cset \<times> 'a write_guard) res" where
  "remove_within k b lo hi front s g =
     (let (front_key, front_node) = front;
          node = cs_nodes s front_node;
          front_position = rank_past b node lo True;
          back_position = removed_prefix_len b hi node
      in if back_position \<le> front_position then Inr ((), s, g)
         else rbind (vec_drain node front_position back_position) (\<lambda>node'.
           let s' = set_node front_node node' s in
           if back_position = length node then
             rbind (tg_remove k g (k front_key)) (\<lambda>(_, g1).
             case vec_last node' of
               None \<Rightarrow> Inr ((), s', g1)
             | Some new_max \<Rightarrow> rbind (tg_insert k g1 new_max front_node) (\<lambda>(_, g2). Inr ((), s', g2)))
           else Inr ((), s', g)))"

text \<open>Taking the nodes between the front and the back one out of the index and emptying them.\<close>

fun remove_middle ::
  "('a \<Rightarrow> 'k::linorder) \<Rightarrow> 'a list \<Rightarrow> 'a cset \<Rightarrow> 'a write_guard \<Rightarrow> ('a cset \<times> 'a write_guard) res" where
  "remove_middle k [] s g = Inr (s, g)"
| "remove_middle k (key # ks) s g =
     rbind (tg_remove k g (k key)) (\<lambda>(removed, g1).
     rbind (unwrap removed) (\<lambda>node.
     remove_middle k ks (set_node node [] s) g1))"

definition remove_across ::
  "('a \<Rightarrow> 'k::linorder) \<Rightarrow> ('a \<Rightarrow> 'q::linorder) \<Rightarrow> 'q bound \<Rightarrow> 'q bound \<Rightarrow> 'a route \<Rightarrow> 'a route \<Rightarrow> 'a cset \<Rightarrow> 'a write_guard \<Rightarrow>
     (unit \<times> 'a cset \<times> 'a write_guard) res" where
  "remove_across k b lo hi front bk s g =
     (let (front_key, front_node) = front;
          (back_key, back_node) = bk;
          front_position = rank_past b (cs_nodes s front_node) lo True;
          back_position = removed_prefix_len b hi (cs_nodes s back_node);
          middle_keys = map fst (filter (\<lambda>r. k front_key < k (fst r) \<and> k (fst r) < k back_key) (tg_canon g))
      in rbind (remove_middle k middle_keys s g) (\<lambda>(s1, g1).
         rbind (tg_remove k g1 (k front_key)) (\<lambda>(_, g2).
         rbind (vec_drain (cs_nodes s1 front_node) front_position (length (cs_nodes s1 front_node))) (\<lambda>node'.
         let s2 = set_node front_node node' s1 in
         rbind (if \<not> node_is_empty node'
                then rbind (unwrap (vec_last node')) (\<lambda>new_front_max. tg_insert k g2 new_front_max front_node)
                else Inr (None, g2)) (\<lambda>(_, g3).
         if length (cs_nodes s2 back_node) \<le> back_position then
           rbind (tg_remove k g3 (k back_key)) (\<lambda>(_, g4). Inr ((), set_node back_node [] s2, g4))
         else if 0 < back_position then
           rbind (vec_drain (cs_nodes s2 back_node) 0 back_position) (\<lambda>node'. Inr ((), set_node back_node node' s2, g3))
         else Inr ((), s2, g3))))))"

definition remove_range_section ::
  "('a \<Rightarrow> 'k::linorder) \<Rightarrow> ('a \<Rightarrow> 'q::linorder) \<Rightarrow> 'q bound \<Rightarrow> 'q bound \<Rightarrow> 'a cset \<Rightarrow> 'a write_guard \<Rightarrow>
     (unit \<times> 'a cset \<times> 'a write_guard) res" where
  "remove_range_section k b lo hi s g =
     (case first_for_borrowed_bound b (tg_canon g) lo (cs_borrow_order_matches s) of
        None \<Rightarrow> Inr ((), s, g)
      | Some front \<Rightarrow>
          (case range_end_entry b (tg_canon g) hi (cs_borrow_order_matches s) of
             None \<Rightarrow> Inr ((), s, g)
           | Some bk \<Rightarrow>
               if k (fst bk) < k (fst front) then Inr ((), s, g)
               else if snd front = snd bk then remove_within k b lo hi front s g
               else remove_across k b lo hi front bk s g))"

definition cset_remove_range ::
  "('a, 'k::linorder) ops \<Rightarrow> ('a \<Rightarrow> 'q::linorder) \<Rightarrow> 'q bound \<Rightarrow> 'q bound \<Rightarrow> 'a cset \<Rightarrow> 'a cset res" where
  "cset_remove_range P b lo hi s =
     rbind (guarded P (topology_write (cs_index s)) (remove_range_section (op_key P) b lo hi) s) (\<lambda>(_, s'). Inr s')"

end
