(* ===== verification/Concurrent_Iter_Facts.thy ===== *)
theory Concurrent_Iter_Facts
  imports Concurrent_Iter Concurrent_Remove
begin

text \<open>
  What the iterators of the concurrent set yield. Each direction keeps an invariant relative to
  the keys it has to account for; on a set that nobody changes both together make the iterator a
  double-ended queue of the elements between its two cursors.
\<close>

section \<open>Cursors and bounds\<close>

definition short_of :: "'k::linorder option \<Rightarrow> 'k \<Rightarrow> bool" where
  "short_of hi x = (case hi of None \<Rightarrow> True | Some h \<Rightarrow> x < h)"

lemma short_of_simps [simp]: "short_of None x" "short_of (Some h) x \<longleftrightarrow> x < h"
  by (simp_all add: short_of_def)

lemma cursor_tests [simp]:
  "at_or_below k v c \<longleftrightarrow> \<not> over (map_option k c) (k v)" "at_or_above k v c \<longleftrightarrow> \<not> short_of (map_option k c) (k v)"
  by (cases c; auto simp: at_or_below_def at_or_above_def)+

lemma rank_past_simps [simp]:
  "rank_past b xs (Included v) True = partition_point (\<lambda>x. b x < v) xs"
  "rank_past b xs (Excluded v) True = partition_point (\<lambda>x. b x \<le> v) xs"
  "rank_past b xs (Included v) False = length xs - partition_point (\<lambda>x. b x \<le> v) xs"
  "rank_past b xs (Excluded v) False = length xs - partition_point (\<lambda>x. b x < v) xs"
  "rank_past b xs Unbounded dir = 0"
  by (auto simp: rank_past_def node_rank_def compute_positions_to_skip_def Let_def checked_sub_def split: option.split)

lemma drop_passed:
  assumes "sorted (map b xs)"
  shows "drop (partition_point (\<lambda>x. b x \<le> q) xs) xs = filter (\<lambda>x. q < b x) xs"
    and "drop (partition_point (\<lambda>x. b x < q) xs) xs = filter (\<lambda>x. q \<le> b x) xs"
    and "take (partition_point (\<lambda>x. b x < q) xs) xs = filter (\<lambda>x. b x < q) xs"
    and "take (partition_point (\<lambda>x. b x \<le> q) xs) xs = filter (\<lambda>x. b x \<le> q) xs"
  using downward_dropWhile [OF downward_le [OF assms], of q] downward_dropWhile [OF downward_less [OF assms], of q]
    downward_takeWhile [OF downward_less [OF assms], of q] downward_takeWhile [OF downward_le [OF assms], of q]
  by (simp_all add: drop_partition_point take_partition_point not_le not_less)

section \<open>Installing a batch\<close>

definition batch_of :: "'a list option \<Rightarrow> 'a list" where
  "batch_of batch = (case batch of None \<Rightarrow> [] | Some ys \<Rightarrow> ys)"

lemma batch_of_simps [simp]: "batch_of None = []" "batch_of (Some ys) = ys"
  by (simp_all add: batch_of_def)

lemma install_front_eq:
  assumes "front_entry k it (canon (cs_index s)) = Some (key, a)" and "sorted_keys k (cs_nodes s a)"
    and "ci_front_value it = None \<Longrightarrow> ci_front_partial it = None"
    and "ys = filter (\<lambda>x. over (map_option k (ci_front_value it)) (k x)) (cs_nodes s a)"
  obtains skip where "install_front_batch k s it = (True, it\<lparr>
      ci_exhausted_front := if length ys \<le> ci_front_limit it then Some a else None,
      ci_front_partial := if length ys \<le> ci_front_limit it then None else Some (a, skip + ci_front_limit it),
      ci_front_limit := min (ci_front_limit it * 2) MAX_BATCH, ci_front_batch := Some (take (ci_front_limit it) ys) \<rparr>)"
proof -
  let ?skip = "passed k (cs_nodes s a) a (ci_front_value it) (ci_front_partial it) True"
  have ys: "drop ?skip (cs_nodes s a) = ys"
    using assms(3,4) drop_passed(1) [OF sorted_keys_sorted [OF assms(2)]]
    by (cases "ci_front_value it") (simp_all add: passed_def)
  have av: "length (cs_nodes s a) - ?skip = length ys"
    using ys by auto
  show thesis
    by (rule that [of ?skip]) (simp add: install_front_batch_def assms(1) Let_def ys av min_def)
qed

lemma install_back_eq:
  assumes "back_entry k it (canon (cs_index s)) = Some (key, a)" and "sorted_keys k (cs_nodes s a)"
    and "ci_back_value it = None \<Longrightarrow> ci_back_partial it = None"
    and "ys = filter (\<lambda>x. short_of (map_option k (ci_back_value it)) (k x)) (cs_nodes s a)"
  obtains truncate where "install_back_batch k s it = (True, it\<lparr>
      ci_exhausted_back := if length ys \<le> ci_back_limit it then Some a else None,
      ci_back_partial := if length ys \<le> ci_back_limit it then None else Some (a, truncate + ci_back_limit it),
      ci_back_limit := min (ci_back_limit it * 2) MAX_BATCH,
      ci_back_batch := Some (drop (length ys - ci_back_limit it) ys) \<rparr>)"
proof -
  let ?n = "cs_nodes s a"
  let ?tr = "passed k ?n a (ci_back_value it) (ci_back_partial it) False"
  have ys: "take (length ?n - ?tr) ?n = ys"
    using assms(3,4) drop_passed(3) [OF sorted_keys_sorted [OF assms(2)]]
    by (cases "ci_back_value it") (simp_all add: passed_def)
  have av: "length ?n - ?tr = length ys"
    using ys by auto
  have batch: "take (min (length ys) m) (drop (length ys - min (length ys) m) ?n) = drop (length ys - m) ys" for m
  proof -
    have "drop (length ys - m) ys = take (length ys - (length ys - m)) (drop (length ys - m) ?n)"
      using arg_cong [OF ys, of "drop (length ys - m)"] unfolding av drop_take by simp
    moreover have "length ys - (length ys - m) = min (length ys) m" "length ys - min (length ys) m = length ys - m"
      by linarith+
    ultimately show ?thesis
      by simp
  qed
  show thesis
    by (rule that [of ?tr], unfold install_back_batch_def assms(1) option.case prod.case Let_def av batch) (simp add: min_def)
qed

section \<open>The node of a cursor\<close>

lemma find_split: "find P xs = Some x \<Longrightarrow> \<exists>A B. xs = A @ x # B \<and> (\<forall>y\<in>set A. \<not> P y) \<and> P x"
proof (induction xs)
  case (Cons y ys)
  show ?case
  proof (cases "P y")
    case True
    then show ?thesis
      using Cons.prems by (auto intro: exI [of _ "[]"])
  next
    case False
    then obtain A B where "ys = A @ x # B" "\<forall>y\<in>set A. \<not> P y" "P x"
      using Cons by auto
    then show ?thesis
      using False by (intro exI [of _ "y # A"] exI [of _ B]) simp
  qed
qed simp

lemma closed_run_up_to:
  assumes "closed_run k nodes lo A" and "\<forall>r\<in>set A. k (fst r) \<le> q"
  shows "\<forall>x\<in>set (contents nodes A). k x \<le> q"
  using assms by (induction A arbitrary: lo) (fastforce simp: node_in_def)+

lemma front_candidate_split:
  assumes "closed_run k nodes None idx"
  shows "front_candidate k c idx = None \<Longrightarrow> \<forall>x\<in>set (contents nodes idx). \<not> over (map_option k c) (k x)"
    and "front_candidate k c idx = Some (key, a) \<Longrightarrow> \<exists>A B. idx = A @ (key, a) # B \<and>
      (\<forall>x\<in>set (contents nodes A). \<not> over (map_option k c) (k x)) \<and> over (map_option k c) (k key)"
proof -
  have below: "\<forall>x\<in>set (contents nodes A). \<not> over (Some q) (k x)" if "idx = A @ B" "\<forall>r\<in>set A. \<not> q < k (fst r)" for A B q
    using closed_run_up_to [of k nodes None A q] assms that by (auto simp: not_less)
  show "\<forall>x\<in>set (contents nodes idx). \<not> over (map_option k c) (k x)" if "front_candidate k c idx = None"
  proof (cases c)
    case None
    then show ?thesis
      using that by (cases idx) (simp_all add: front_candidate_def)
  next
    case (Some v)
    then have "\<forall>r\<in>set idx. \<not> k v < k (fst r)"
      using that by (auto simp: front_candidate_def btm_first_from_def above_def find_None_iff)
    then show ?thesis
      using below [of idx "[]" "k v"] Some by simp
  qed
  assume cand: "front_candidate k c idx = Some (key, a)"
  show "\<exists>A B. idx = A @ (key, a) # B \<and>
      (\<forall>x\<in>set (contents nodes A). \<not> over (map_option k c) (k x)) \<and> over (map_option k c) (k key)"
  proof (cases c)
    case None
    then show ?thesis
      using cand by (cases idx) (auto simp: front_candidate_def intro: exI [of _ "[]"])
  next
    case (Some v)
    then have "find (\<lambda>r. k v < k (fst r)) idx = Some (key, a)"
      using cand by (simp add: front_candidate_def btm_first_from_def above_def)
    then obtain A B where "idx = A @ (key, a) # B" "\<forall>r\<in>set A. \<not> k v < k (fst r)" "k v < k key"
      using find_split [of _ idx] by fastforce
    then show ?thesis
      using below [of A "(key, a) # B" "k v"] Some by auto
  qed
qed

text \<open>The neighbour of a node in the index.\<close>

lemma find_none_before: "\<forall>x\<in>set A. \<not> P x \<Longrightarrow> find P (A @ B) = find P B"
  by (induction A) auto

lemma next_entry:
  assumes "sorted_keys (k \<circ> fst) (A @ (key, a) # B)"
  shows "btm_first_from k (Excluded (k key)) (A @ (key, a) # B) = vec_first B"
    and "btm_last_below k (k key) (A @ (key, a) # B) = vec_last A"
proof -
  have ord: "\<forall>r\<in>set A. k (fst r) < k key" "\<forall>r\<in>set B. k key < k (fst r)"
    using assms by auto
  have "find (\<lambda>r. k key < k (fst r)) (A @ (key, a) # B) = vec_first B"
    using ord find_none_before [of "A @ [(key, a)]" "\<lambda>r. k key < k (fst r)" B] by (cases B) fastforce+
  then show "btm_first_from k (Excluded (k key)) (A @ (key, a) # B) = vec_first B"
    by (simp add: btm_first_from_def above_def)
  have "filter (\<lambda>r. k (fst r) < k key) (A @ (key, a) # B) = A"
    using ord by (auto simp: filter_id_conv filter_empty_conv)
  then show "btm_last_below k (k key) (A @ (key, a) # B) = vec_last A"
    by (simp add: btm_last_below_def)
qed

lemma back_candidate_split:
  assumes "ranged k nodes None idx" and "sorted_keys (k \<circ> fst) idx" and "distinct (map snd idx)"
  shows "back_candidate k c idx = None \<Longrightarrow> idx = []"
    and "back_candidate k c idx = Some (key, a) \<Longrightarrow> \<exists>A B. idx = A @ (key, a) # B \<and>
      (\<forall>x\<in>set (contents nodes A). short_of (map_option k c) (k x)) \<and>
      (\<forall>x\<in>set (contents nodes B). \<not> short_of (map_option k c) (k x))"
proof -
  have route: "back_candidate k (Some v) idx = route k (k v) idx" for v
    by (simp add: back_candidate_def route_def or_else_def)
  show "idx = []" if "back_candidate k c idx = None"
    using that by (cases c; cases idx rule: rev_cases)
      (auto simp: back_candidate_def or_else_def split: option.splits)
  assume cand: "back_candidate k c idx = Some (key, a)"
  show "\<exists>A B. idx = A @ (key, a) # B \<and>
      (\<forall>x\<in>set (contents nodes A). short_of (map_option k c) (k x)) \<and>
      (\<forall>x\<in>set (contents nodes B). \<not> short_of (map_option k c) (k x))"
  proof (cases c)
    case None
    then obtain A where "idx = A @ [(key, a)]"
      using cand by (cases idx rule: rev_cases) (auto simp: back_candidate_def)
    then show ?thesis
      using None by (intro exI [of _ A] exI [of _ "[]"]) simp
  next
    case (Some v)
    have "idx \<noteq> []"
      using cand Some by (auto simp: back_candidate_def btm_first_from_def or_else_def)
    then obtain A key' a' B where "route k (k v) idx = Some (key', a')" and f: "focus k (k v) idx A key' a' B"
      by (rule route_focus)
    then have "key' = key" "a' = a"
      using cand Some route by auto
    then show ?thesis
      using f focus_facts(1,2) [OF assms f] Some by (fastforce simp: focus_def)
  qed
qed

section \<open>Invariants of the two directions\<close>

text \<open>
  \<open>K\<close> are the keys a direction has to account for and \<open>M\<close> the values it may yield. Every key of
  \<open>K\<close> above the cursor is in the batch or above all of it, and an exhausted node holds no other.
\<close>

definition front_cover ::
  "('a \<Rightarrow> 'k::linorder) \<Rightarrow> 'k set \<Rightarrow> 'a set \<Rightarrow> 'a cset \<Rightarrow> 'k option \<Rightarrow> 'a list \<Rightarrow> addr option \<Rightarrow> bool" where
  "front_cover k K M s lo ys exhausted \<longleftrightarrow>
     sorted_keys k ys \<and> set ys \<subseteq> M \<and> (\<forall>y\<in>set ys. over lo (k y)) \<and>
     (\<forall>q\<in>K. over lo q \<longrightarrow> q \<in> k ` set ys \<or> (\<forall>y\<in>set ys. k y < q)) \<and>
     (\<forall>a. exhausted = Some a \<longrightarrow> a < cs_next s \<and> (a \<in> snd ` set (canon (cs_index s)) \<longrightarrow>
        (\<forall>x\<in>set (cs_nodes s a). k x \<in> K \<longrightarrow> over lo (k x) \<longrightarrow> k x \<in> k ` set ys)))"

definition back_cover ::
  "('a \<Rightarrow> 'k::linorder) \<Rightarrow> 'k set \<Rightarrow> 'a set \<Rightarrow> 'a cset \<Rightarrow> 'k option \<Rightarrow> 'a list \<Rightarrow> addr option \<Rightarrow> bool" where
  "back_cover k K M s hi ys exhausted \<longleftrightarrow>
     sorted_keys k ys \<and> set ys \<subseteq> M \<and> (\<forall>y\<in>set ys. short_of hi (k y)) \<and>
     (\<forall>q\<in>K. short_of hi q \<longrightarrow> q \<in> k ` set ys \<or> (\<forall>y\<in>set ys. q < k y)) \<and>
     (\<forall>a. exhausted = Some a \<longrightarrow> a < cs_next s \<and> (a \<in> snd ` set (canon (cs_index s)) \<longrightarrow>
        (\<forall>x\<in>set (cs_nodes s a). k x \<in> K \<longrightarrow> short_of hi (k x) \<longrightarrow> k x \<in> k ` set ys)))"

definition front_inv :: "('a \<Rightarrow> 'k::linorder) \<Rightarrow> 'k set \<Rightarrow> 'a set \<Rightarrow> 'a cset \<Rightarrow> 'a citer \<Rightarrow> bool" where
  "front_inv k K M s it \<longleftrightarrow>
     front_cover k K M s (map_option k (ci_front_value it)) (batch_of (ci_front_batch it)) (ci_exhausted_front it) \<and>
     (ci_front_value it = None \<longrightarrow>
        batch_of (ci_front_batch it) = [] \<and> ci_exhausted_front it = None \<and> ci_front_partial it = None) \<and>
     0 < ci_front_limit it"

definition back_inv :: "('a \<Rightarrow> 'k::linorder) \<Rightarrow> 'k set \<Rightarrow> 'a set \<Rightarrow> 'a cset \<Rightarrow> 'a citer \<Rightarrow> bool" where
  "back_inv k K M s it \<longleftrightarrow>
     back_cover k K M s (map_option k (ci_back_value it)) (batch_of (ci_back_batch it)) (ci_exhausted_back it) \<and>
     (ci_back_value it = None \<longrightarrow>
        batch_of (ci_back_batch it) = [] \<and> ci_exhausted_back it = None \<and> ci_back_partial it = None) \<and>
     0 < ci_back_limit it"

text \<open>Taking the next value out of the batch.\<close>

lemma front_cover_pop:
  assumes "front_cover k K M s lo (v # vs) exhausted"
  shows "front_cover k K M s (Some (k v)) vs exhausted" and "v \<in> M" and "over lo (k v)"
    and "\<forall>q\<in>K. over lo q \<longrightarrow> k v \<le> q"
proof -
  note c = assms [unfolded front_cover_def]
  have lo: "over lo q" if "k v < q" for q
    using c that by (auto intro: over_trans less_imp_le)
  have "q \<in> k ` set vs \<or> (\<forall>y\<in>set vs. k y < q)" if "q \<in> K" "k v < q" for q
    using c lo [OF that(2)] that by auto
  moreover have "a < cs_next s \<and> (a \<in> snd ` set (canon (cs_index s)) \<longrightarrow>
      (\<forall>x\<in>set (cs_nodes s a). k x \<in> K \<longrightarrow> k v < k x \<longrightarrow> k x \<in> k ` set vs))" if "exhausted = Some a" for a
    using c lo that by auto
  ultimately show "front_cover k K M s (Some (k v)) vs exhausted"
    using c by (simp add: front_cover_def)
  show "v \<in> M" "over lo (k v)"
    using c by simp_all
  show "\<forall>q\<in>K. over lo q \<longrightarrow> k v \<le> q"
  proof (intro ballI impI)
    fix q
    assume "q \<in> K" "over lo q"
    then have "q \<in> k ` set (v # vs) \<or> k v < q"
      using c by auto
    then show "k v \<le> q"
      using c by (auto intro: less_imp_le)
  qed
qed

lemma short_of_trans: "short_of hi x \<Longrightarrow> y \<le> x \<Longrightarrow> short_of hi y"
  by (cases hi) auto

lemma back_cover_pop:
  assumes "back_cover k K M s hi (vs @ [v]) exhausted"
  shows "back_cover k K M s (Some (k v)) vs exhausted" and "v \<in> M" and "short_of hi (k v)"
    and "\<forall>q\<in>K. short_of hi q \<longrightarrow> q \<le> k v"
proof -
  note c = assms [unfolded back_cover_def]
  have hi: "short_of hi q" if "q < k v" for q
    using c that by (auto intro: short_of_trans less_imp_le)
  have "q \<in> k ` set vs \<or> (\<forall>y\<in>set vs. q < k y)" if "q \<in> K" "q < k v" for q
    using c hi [OF that(2)] that by auto
  moreover have "a < cs_next s \<and> (a \<in> snd ` set (canon (cs_index s)) \<longrightarrow>
      (\<forall>x\<in>set (cs_nodes s a). k x \<in> K \<longrightarrow> k x < k v \<longrightarrow> k x \<in> k ` set vs))" if "exhausted = Some a" for a
    using c hi that by auto
  ultimately show "back_cover k K M s (Some (k v)) vs exhausted"
    using c by (simp add: back_cover_def)
  show "v \<in> M" "short_of hi (k v)"
    using c by simp_all
  show "\<forall>q\<in>K. short_of hi q \<longrightarrow> q \<le> k v"
  proof (intro ballI impI)
    fix q
    assume "q \<in> K" "short_of hi q"
    then have "q \<in> k ` set (vs @ [v]) \<or> q < k v"
      using c by auto
    then show "q \<le> k v"
      using c by (auto intro: less_imp_le)
  qed
qed

text \<open>Reading a node whose predecessors, or successors, hold nothing more.\<close>

lemma front_cover_install:
  assumes "cset_ok k s" and "canon (cs_index s) = A @ (key, a) # B" and "K \<subseteq> k ` set (elements s)" and "set (elements s) \<subseteq> M"
    and "\<forall>x\<in>set (contents (cs_nodes s) A). k x \<in> K \<longrightarrow> \<not> over lo (k x)"
    and "ys = filter (\<lambda>x. over lo (k x)) (cs_nodes s a)"
  shows "front_cover k K M s lo (take n ys) (if length ys \<le> n then Some a else None)"
proof -
  have els: "elements s = contents (cs_nodes s) A @ cs_nodes s a @ contents (cs_nodes s) B"
    by (simp add: elements_def assms(2))
  have srt: "sorted_keys k (cs_nodes s a)" "\<forall>x\<in>set (cs_nodes s a). \<forall>y\<in>set (contents (cs_nodes s) B). k x < k y"
    using cset_okD(6) [OF assms(1)] unfolding els by auto
  then have ys: "sorted_keys k (take n ys @ drop n ys)"
    by (simp add: assms(6) sorted_keys_filter)
  have sub: "set (take n ys) \<subseteq> set ys"
    by (rule set_take_subset)
  have "q \<in> k ` set (take n ys) \<or> (\<forall>y\<in>set (take n ys). k y < q)" if q: "q \<in> K" "over lo q" for q
  proof -
    obtain x where x: "x \<in> set (elements s)" "q = k x"
      using assms(3) q(1) by blast
    then consider "x \<in> set ys" | "x \<in> set (contents (cs_nodes s) B)"
      using assms(5,6) q unfolding els by auto
    then show ?thesis
    proof cases
      case 1
      then have "x \<in> set (take n ys) \<or> x \<in> set (drop n ys)"
        by (metis Un_iff append_take_drop_id set_append)
      then show ?thesis
        using ys x(2) unfolding sorted_keys_append by blast
    next
      case 2
      then show ?thesis
        using srt(2) sub x(2) by (auto simp: assms(6))
    qed
  qed
  moreover have "set ys \<subseteq> M" "\<forall>y\<in>set ys. over lo (k y)"
    using assms(4) by (auto simp: els assms(6))
  moreover have "x \<in> set ys" if "x \<in> set (cs_nodes s a)" "over lo (k x)" for x
    using that by (simp add: assms(6))
  moreover have "a < cs_next s"
    using cset_okD(2) [OF assms(1)] by (simp add: heap_ok_def assms(2))
  ultimately show ?thesis
    using ys sub by (auto simp: front_cover_def sorted_keys_take)
qed

lemma back_cover_install:
  assumes "cset_ok k s" and "canon (cs_index s) = A @ (key, a) # B" and "K \<subseteq> k ` set (elements s)" and "set (elements s) \<subseteq> M"
    and "\<forall>x\<in>set (contents (cs_nodes s) B). k x \<in> K \<longrightarrow> \<not> short_of hi (k x)"
    and "ys = filter (\<lambda>x. short_of hi (k x)) (cs_nodes s a)"
  shows "back_cover k K M s hi (drop (length ys - n) ys) (if length ys \<le> n then Some a else None)"
proof -
  let ?m = "length ys - n"
  have els: "elements s = contents (cs_nodes s) A @ cs_nodes s a @ contents (cs_nodes s) B"
    by (simp add: elements_def assms(2))
  have srt: "sorted_keys k (cs_nodes s a)" "\<forall>x\<in>set (contents (cs_nodes s) A). \<forall>y\<in>set (cs_nodes s a). k x < k y"
    using cset_okD(6) [OF assms(1)] unfolding els by auto
  then have ys: "sorted_keys k (take ?m ys @ drop ?m ys)"
    by (simp add: assms(6) sorted_keys_filter)
  have sub: "set (drop ?m ys) \<subseteq> set ys"
    by (rule set_drop_subset)
  have "q \<in> k ` set (drop ?m ys) \<or> (\<forall>y\<in>set (drop ?m ys). q < k y)" if q: "q \<in> K" "short_of hi q" for q
  proof -
    obtain x where x: "x \<in> set (elements s)" "q = k x"
      using assms(3) q(1) by blast
    then consider "x \<in> set ys" | "x \<in> set (contents (cs_nodes s) A)"
      using assms(5,6) q unfolding els by auto
    then show ?thesis
    proof cases
      case 1
      then have "x \<in> set (take ?m ys) \<or> x \<in> set (drop ?m ys)"
        by (metis Un_iff append_take_drop_id set_append)
      then show ?thesis
        using ys x(2) unfolding sorted_keys_append by blast
    next
      case 2
      then show ?thesis
        using srt(2) sub x(2) by (auto simp: assms(6))
    qed
  qed
  moreover have "set ys \<subseteq> M" "\<forall>y\<in>set ys. short_of hi (k y)"
    using assms(4) by (auto simp: els assms(6))
  moreover have "x \<in> set ys" if "x \<in> set (cs_nodes s a)" "short_of hi (k x)" for x
    using that by (simp add: assms(6))
  moreover have "a < cs_next s"
    using cset_okD(2) [OF assms(1)] by (simp add: heap_ok_def assms(2))
  ultimately show ?thesis
    using ys sub by (auto simp: back_cover_def sorted_keys_drop)
qed

lemma citer_between_inv: "front_inv k K M s (citer_between f b m)" "back_inv k K M s (citer_between f b m)"
  by (simp_all add: front_inv_def back_inv_def front_cover_def back_cover_def citer_between_def INITIAL_BATCH_def)

lemma front_candidate_next:
  assumes "cset_ok k s" and "settled k s" and "front_candidate k c (canon (cs_index s)) = Some (key, a)"
  obtains A B where "canon (cs_index s) = A @ (key, a) # B" "over (map_option k c) (k key)"
    "\<forall>x\<in>set (contents (cs_nodes s) A). \<not> over (map_option k c) (k x)"
    "btm_first_from k (Excluded (k key)) (canon (cs_index s)) = vec_first B"
    "\<forall>x\<in>set (contents (cs_nodes s) B). over (map_option k c) (k x)"
proof -
  note ok = cset_okD [OF assms(1)]
  obtain A B where idx: "canon (cs_index s) = A @ (key, a) # B" and over: "over (map_option k c) (k key)"
    and A: "\<forall>x\<in>set (contents (cs_nodes s) A). \<not> over (map_option k c) (k x)"
    using front_candidate_split(2) [OF assms(2) [unfolded settled_def] assms(3)] by blast
  have "ranged k (cs_nodes s) (Some (k key)) B" "sorted_keys (k \<circ> fst) B" "\<forall>r\<in>set B. k key < k (fst r)"
    using ok(3,4) unfolding idx by (auto simp: ranged_append)
  then have "\<forall>x\<in>set (contents (cs_nodes s) B). over (Some (k key)) (k x)"
    by (intro ranged_above) auto
  then have "\<forall>x\<in>set (contents (cs_nodes s) B). over (map_option k c) (k x)"
    using over by (auto intro: over_trans less_imp_le)
  then show thesis
    using idx over A next_entry(1) [of k A key a B] ok(4) by (intro that) simp_all
qed

text \<open>The entry a direction reads: everything it leaves behind is accounted for.\<close>

lemma front_entry_split:
  assumes "cset_ok k s" and "settled k s" and "front_inv k K M s it" and "batch_of (ci_front_batch it) = []"
    and "lo = map_option k (ci_front_value it)"
  shows "front_entry k it (canon (cs_index s)) = None \<Longrightarrow> \<forall>x\<in>set (elements s). k x \<in> K \<longrightarrow> \<not> over lo (k x)"
    and "front_entry k it (canon (cs_index s)) = Some (key, a) \<Longrightarrow> \<exists>A B. canon (cs_index s) = A @ (key, a) # B \<and>
      (\<forall>x\<in>set (contents (cs_nodes s) A). k x \<in> K \<longrightarrow> \<not> over lo (k x)) \<and>
      (front_candidate k (ci_front_value it) (canon (cs_index s)) = Some (key, a) \<and> over lo (k key) \<or>
       (\<forall>x\<in>set (cs_nodes s a). over lo (k x)))"
proof -
  let ?idx = "canon (cs_index s)"
  note split = front_candidate_split [OF assms(2) [unfolded settled_def], of "ci_front_value it", folded assms(5)]
  have gone: "\<forall>x\<in>set (cs_nodes s a). k x \<in> K \<longrightarrow> \<not> over lo (k x)" if "ci_exhausted_front it = Some a" "a \<in> snd ` set ?idx" for a
    using assms(3-5) that by (simp add: front_inv_def front_cover_def)
  show "\<forall>x\<in>set (elements s). k x \<in> K \<longrightarrow> \<not> over lo (k x)" if none: "front_entry k it ?idx = None"
  proof (cases "front_candidate k (ci_front_value it) ?idx")
    case None
    then show ?thesis
      using split(1) by (simp add: elements_def)
  next
    case (Some r)
    obtain key a where r: "r = (key, a)" by force
    obtain A B where idx: "?idx = A @ (key, a) # B" "\<forall>x\<in>set (contents (cs_nodes s) A). \<not> over lo (k x)"
      "btm_first_from k (Excluded (k key)) ?idx = vec_first B"
      using front_candidate_next [OF assms(1,2) Some [unfolded r]] assms(5) by metis
    have "ci_exhausted_front it = Some a" "B = []"
      using none Some r idx(3) by (auto simp: front_entry_def Let_def vec_first_def split: if_splits list.splits)
    then show ?thesis
      using gone [of a] idx(1,2) by (auto simp: elements_def)
  qed
  assume some: "front_entry k it ?idx = Some (key, a)"
  then obtain key0 a0 where cand: "front_candidate k (ci_front_value it) ?idx = Some (key0, a0)"
    by (auto simp: front_entry_def Let_def split: option.splits)
  obtain A B where idx: "?idx = A @ (key0, a0) # B" "\<forall>x\<in>set (contents (cs_nodes s) A). \<not> over lo (k x)" "over lo (k key0)"
    "btm_first_from k (Excluded (k key0)) ?idx = vec_first B" "\<forall>x\<in>set (contents (cs_nodes s) B). over lo (k x)"
    using front_candidate_next [OF assms(1,2) cand] assms(5) by metis
  show "\<exists>A B. ?idx = A @ (key, a) # B \<and> (\<forall>x\<in>set (contents (cs_nodes s) A). k x \<in> K \<longrightarrow> \<not> over lo (k x)) \<and>
      (front_candidate k (ci_front_value it) ?idx = Some (key, a) \<and> over lo (k key) \<or> (\<forall>x\<in>set (cs_nodes s a). over lo (k x)))"
  proof (cases "ci_exhausted_front it = Some a0")
    case True
    then obtain B' where B: "B = (key, a) # B'"
      using some cand idx(4) by (cases B) (auto simp: front_entry_def)
    have "\<forall>x\<in>set (contents (cs_nodes s) (A @ [(key0, a0)])). k x \<in> K \<longrightarrow> \<not> over lo (k x)"
      using gone [OF True] idx(1,2) by auto
    then show ?thesis
      using idx(1,5) B by (intro exI [of _ "A @ [(key0, a0)]"] exI [of _ B']) auto
  next
    case False
    then have "key0 = key" "a0 = a"
      using some cand by (auto simp: front_entry_def)
    then show ?thesis
      using cand idx by blast
  qed
qed

lemma back_entry_split:
  assumes "cset_ok k s" and "back_inv k K M s it" and "batch_of (ci_back_batch it) = []"
    and "hi = map_option k (ci_back_value it)"
  shows "back_entry k it (canon (cs_index s)) = None \<Longrightarrow> \<forall>x\<in>set (elements s). k x \<in> K \<longrightarrow> \<not> short_of hi (k x)"
    and "back_entry k it (canon (cs_index s)) = Some (key, a) \<Longrightarrow> \<exists>A B. canon (cs_index s) = A @ (key, a) # B \<and>
      (\<forall>x\<in>set (contents (cs_nodes s) B). k x \<in> K \<longrightarrow> \<not> short_of hi (k x)) \<and>
      (back_candidate k (ci_back_value it) (canon (cs_index s)) = Some (key, a) \<or> (\<forall>x\<in>set (cs_nodes s a). short_of hi (k x)))"
proof -
  let ?idx = "canon (cs_index s)"
  note ok = cset_okD [OF assms(1)]
  note split = back_candidate_split [OF ok(3-5), of "ci_back_value it", folded assms(4)]
  have gone: "\<forall>x\<in>set (cs_nodes s a). k x \<in> K \<longrightarrow> \<not> short_of hi (k x)" if "ci_exhausted_back it = Some a" "a \<in> snd ` set ?idx" for a
    using assms(2-4) that by (simp add: back_inv_def back_cover_def)
  show "\<forall>x\<in>set (elements s). k x \<in> K \<longrightarrow> \<not> short_of hi (k x)" if none: "back_entry k it ?idx = None"
  proof (cases "back_candidate k (ci_back_value it) ?idx")
    case None
    then show ?thesis
      using split(1) by (simp add: elements_def)
  next
    case (Some r)
    obtain key a where r: "r = (key, a)" by force
    obtain A B where idx: "?idx = A @ (key, a) # B" "\<forall>x\<in>set (contents (cs_nodes s) B). \<not> short_of hi (k x)"
      using split(2) [OF Some [unfolded r]] by blast
    have "btm_last_below k (k key) ?idx = vec_last A"
      using next_entry(2) [of k A key a B] ok(4) idx(1) by simp
    then have "ci_exhausted_back it = Some a" "A = []"
      using none Some r by (auto simp: back_entry_def Let_def vec_last_def split: if_splits)
    then show ?thesis
      using gone [of a] idx by (auto simp: elements_def)
  qed
  assume some: "back_entry k it ?idx = Some (key, a)"
  then obtain key0 a0 where cand: "back_candidate k (ci_back_value it) ?idx = Some (key0, a0)"
    by (auto simp: back_entry_def Let_def split: option.splits)
  obtain A B where idx: "?idx = A @ (key0, a0) # B" "\<forall>x\<in>set (contents (cs_nodes s) A). short_of hi (k x)"
    "\<forall>x\<in>set (contents (cs_nodes s) B). \<not> short_of hi (k x)"
    using split(2) [OF cand] by blast
  show "\<exists>A B. ?idx = A @ (key, a) # B \<and> (\<forall>x\<in>set (contents (cs_nodes s) B). k x \<in> K \<longrightarrow> \<not> short_of hi (k x)) \<and>
      (back_candidate k (ci_back_value it) ?idx = Some (key, a) \<or> (\<forall>x\<in>set (cs_nodes s a). short_of hi (k x)))"
  proof (cases "ci_exhausted_back it = Some a0")
    case True
    have "btm_last_below k (k key0) ?idx = vec_last A"
      using next_entry(2) [of k A key0 a0 B] ok(4) idx(1) by simp
    then obtain A' where A: "A = A' @ [(key, a)]"
      using some cand True by (cases A rule: rev_cases) (auto simp: back_entry_def)
    have "\<forall>x\<in>set (contents (cs_nodes s) ((key0, a0) # B)). k x \<in> K \<longrightarrow> \<not> short_of hi (k x)"
      using gone [OF True] idx(1,3) by auto
    then show ?thesis
      using idx(1,2) A by (intro exI [of _ A'] exI [of _ "(key0, a0) # B"]) auto
  next
    case False
    then have "key0 = key" "a0 = a"
      using some cand by (auto simp: back_entry_def)
    then show ?thesis
      using cand idx by blast
  qed
qed

section \<open>One turn\<close>

definition front_part where
  "front_part it = (ci_front_batch it, ci_exhausted_front it, ci_front_partial it, ci_front_limit it, ci_front_value it)"

definition back_part where
  "back_part it = (ci_back_batch it, ci_exhausted_back it, ci_back_partial it, ci_back_limit it, ci_back_value it)"

lemma inv_cong:
  "front_part it' = front_part it \<Longrightarrow> front_inv k K M s it' = front_inv k K M s it"
  "back_part it' = back_part it \<Longrightarrow> back_inv k K M s it' = back_inv k K M s it"
  by (simp_all add: front_part_def back_part_def front_inv_def back_inv_def)

text \<open>How many more turns a direction can take on an unchanged set before it returns.\<close>

definition front_todo :: "('a \<Rightarrow> 'k::linorder) \<Rightarrow> 'a cset \<Rightarrow> 'a citer \<Rightarrow> nat" where
  "front_todo k s it =
     (case ci_front_batch it of
        Some ys \<Rightarrow> if ys = [] then 2 else 0
      | None \<Rightarrow> if map_option snd (front_candidate k (ci_front_value it) (canon (cs_index s))) = ci_exhausted_front it then 0 else 1)"

definition back_todo :: "('a \<Rightarrow> 'k::linorder) \<Rightarrow> 'a cset \<Rightarrow> 'a citer \<Rightarrow> nat" where
  "back_todo k s it =
     (case ci_back_batch it of
        Some ys \<Rightarrow> if ys = [] then 2 else 0
      | None \<Rightarrow> if map_option snd (back_candidate k (ci_back_value it) (canon (cs_index s))) = ci_exhausted_back it then 0 else 1)"

lemma todo_le: "front_todo k s it \<le> 2" "back_todo k s it \<le> 2"
  by (simp_all add: front_todo_def back_todo_def split: option.split)

text \<open>What a turn achieves.\<close>

definition front_step ::
  "('a \<Rightarrow> 'k::linorder) \<Rightarrow> 'k set \<Rightarrow> 'a set \<Rightarrow> 'a cset \<Rightarrow> 'a citer \<Rightarrow> 'a turn \<Rightarrow> 'a citer \<Rightarrow> bool" where
  "front_step k K M s it r it' \<longleftrightarrow>
     (let lo = map_option k (ci_front_value it); hi = map_option k (ci_back_value it);
          on = (front_inv k K M s it' \<and> back_part it' = back_part it \<and> \<not> ci_met it')
      in case r of
          Again \<Rightarrow> on \<and> ci_front_value it' = ci_front_value it \<and> front_todo k s it' < front_todo k s it
        | Yield None \<Rightarrow> (\<forall>q\<in>K. over lo q \<longrightarrow> \<not> short_of hi q) \<and> (ci_met it' \<or> on \<and> ci_front_value it' = ci_front_value it)
        | Yield (Some v) \<Rightarrow> on \<and> ci_front_value it' = Some v \<and> v \<in> M \<and> over lo (k v) \<and> short_of hi (k v) \<and>
            (\<forall>q\<in>K. over lo q \<longrightarrow> k v \<le> q))"

definition back_step ::
  "('a \<Rightarrow> 'k::linorder) \<Rightarrow> 'k set \<Rightarrow> 'a set \<Rightarrow> 'a cset \<Rightarrow> 'a citer \<Rightarrow> 'a turn \<Rightarrow> 'a citer \<Rightarrow> bool" where
  "back_step k K M s it r it' \<longleftrightarrow>
     (let lo = map_option k (ci_front_value it); hi = map_option k (ci_back_value it);
          on = (back_inv k K M s it' \<and> front_part it' = front_part it \<and> \<not> ci_met it')
      in case r of
          Again \<Rightarrow> on \<and> ci_back_value it' = ci_back_value it \<and> back_todo k s it' < back_todo k s it
        | Yield None \<Rightarrow> (\<forall>q\<in>K. short_of hi q \<longrightarrow> \<not> over lo q) \<and> (ci_met it' \<or> on \<and> ci_back_value it' = ci_back_value it)
        | Yield (Some v) \<Rightarrow> on \<and> ci_back_value it' = Some v \<and> v \<in> M \<and> short_of hi (k v) \<and> over lo (k v) \<and>
            (\<forall>q\<in>K. short_of hi q \<longrightarrow> q \<le> k v))"

lemma front_pop_step:
  assumes "ci_front_batch it1 = Some (v # vs)" and "ci_front_value it1 = ci_front_value it" and "back_part it1 = back_part it"
    and "front_cover k K M s (map_option k (ci_front_value it)) (v # vs) (ci_exhausted_front it1)"
    and "\<not> ci_met it1" and "0 < ci_front_limit it1"
  shows "\<exists>r it'. front_turn k s it1 = Inr (r, it') \<and> front_step k K M s it r it'"
proof -
  note cover = front_cover_pop [OF assms(4)]
  have b: "ci_back_value it1 = ci_back_value it"
    using assms(3) by (simp add: back_part_def)
  show ?thesis
  proof (cases "short_of (map_option k (ci_back_value it)) (k v)")
    case True
    then show ?thesis
      using assms b cover by (simp add: front_turn_def front_step_def front_inv_def back_part_def)
  next
    case False
    then have "\<forall>q\<in>K. over (map_option k (ci_front_value it)) q \<longrightarrow> \<not> short_of (map_option k (ci_back_value it)) q"
      using cover(4) short_of_trans by blast
    then show ?thesis
      using False assms b cover(3) by (simp add: front_turn_def front_step_def)
  qed
qed

lemma front_install_step:
  assumes "cset_ok k s" and "settled k s" and "K \<subseteq> k ` set (elements s)" and "set (elements s) \<subseteq> M"
    and "front_inv k K M s it" and "\<not> ci_met it" and "ci_front_batch it = None"
    and "front_entry k it (canon (cs_index s)) = Some (key, a)"
  shows "\<exists>r it'. front_turn k s it = Inr (r, it') \<and> front_step k K M s it r it'"
proof -
  let ?lo = "map_option k (ci_front_value it)" and ?n = "ci_front_limit it"
  define ys where "ys = filter (\<lambda>x. over ?lo (k x)) (cs_nodes s a)"
  have inv: "0 < ?n" "ci_front_value it = None \<Longrightarrow> ci_front_partial it = None"
    using assms(5) by (simp_all add: front_inv_def)
  obtain A B where idx: "canon (cs_index s) = A @ (key, a) # B"
    "\<forall>x\<in>set (contents (cs_nodes s) A). k x \<in> K \<longrightarrow> \<not> over ?lo (k x)"
    "front_candidate k (ci_front_value it) (canon (cs_index s)) = Some (key, a) \<or> (\<forall>x\<in>set (cs_nodes s a). over ?lo (k x))"
    using front_entry_split(2) [OF assms(1,2,5) _ refl] assms(7,8) by auto
  have node: "sorted_keys k (cs_nodes s a)" "cs_nodes s a \<noteq> []"
    using cset_okD(3) [OF assms(1)] unfolding idx by (auto simp: ranged_append node_in_def)
  obtain it1 where inst: "install_front_batch k s it = (True, it1)" and it1: "ci_front_batch it1 = Some (take ?n ys)"
    "ci_exhausted_front it1 = (if length ys \<le> ?n then Some a else None)" "ci_front_value it1 = ci_front_value it"
    "back_part it1 = back_part it" "\<not> ci_met it1" "0 < ci_front_limit it1"
    by (rule install_front_eq [OF assms(8) node(1) inv(2) ys_def])
      (use assms(6) inv(1) in \<open>auto simp: back_part_def MAX_BATCH_def\<close>)
  have turn: "front_turn k s it = front_turn k s it1"
    using assms(6,7) inst it1 by (simp add: front_turn_def)
  have cover: "front_cover k K M s ?lo (take ?n ys) (ci_exhausted_front it1)"
    unfolding it1 by (rule front_cover_install [OF assms(1) idx(1) assms(3,4) idx(2) ys_def])
  show ?thesis
  proof (cases "take ?n ys")
    case (Cons v vs)
    then show ?thesis
      unfolding turn using it1 cover by (intro front_pop_step) simp_all
  next
    case Nil
    then have ys: "ys = []"
      using inv(1) by simp
    then have cand: "front_candidate k (ci_front_value it) (canon (cs_index s)) = Some (key, a)"
      using idx(3) node(2) by (auto simp: ys_def filter_empty_conv)
    have "ci_front_value it \<noteq> None"
      using ys node(2) by (cases "ci_front_value it") (simp_all add: ys_def)
    moreover have "ci_exhausted_front it \<noteq> Some a"
      using cand assms(8) by (auto simp: front_entry_def btm_first_from_def above_def dest!: find_split)
    ultimately show ?thesis
      unfolding turn using it1 ys cover cand assms(7)
      by (simp add: front_turn_def front_step_def front_inv_def front_todo_def back_part_def)
  qed
qed

lemma front_turn_step:
  assumes "cset_ok k s" and "settled k s" and "K \<subseteq> k ` set (elements s)" and "set (elements s) \<subseteq> M"
    and "front_inv k K M s it" and "\<not> ci_met it"
  shows "\<exists>r it'. front_turn k s it = Inr (r, it') \<and> front_step k K M s it r it'"
proof (cases "ci_front_batch it")
  case None
  show ?thesis
  proof (cases "front_entry k it (canon (cs_index s))")
    case empty: None
    then have "front_turn k s it = Inr (Yield None, it)"
      using None assms(6) by (simp add: front_turn_def install_front_batch_def)
    then show ?thesis
      using front_entry_split(1) [OF assms(1,2,5) _ refl empty] None assms(3,5,6) by (fastforce simp: front_step_def)
  next
    case (Some r)
    then show ?thesis
      using front_install_step [OF assms None] by (cases r) auto
  qed
next
  case (Some ys)
  show ?thesis
  proof (cases ys)
    case Nil
    then show ?thesis
      using Some assms(5,6) by (simp add: front_turn_def front_step_def front_inv_def front_todo_def back_part_def)
  next
    case (Cons v vs)
    show ?thesis
      by (rule front_pop_step [of it v vs]) (use Some Cons assms(5,6) in \<open>auto simp: front_inv_def\<close>)
  qed
qed

lemma vec_last_in: "vec_last xs = Some x \<Longrightarrow> x \<in> set xs"
  by (cases xs rule: rev_cases) auto

lemma back_pop_step:
  assumes "ci_back_batch it1 = Some (vs @ [v])" and "ci_back_value it1 = ci_back_value it" and "front_part it1 = front_part it"
    and "back_cover k K M s (map_option k (ci_back_value it)) (vs @ [v]) (ci_exhausted_back it1)"
    and "\<not> ci_met it1" and "0 < ci_back_limit it1"
  shows "\<exists>r it'. back_turn k s it1 = Inr (r, it') \<and> back_step k K M s it r it'"
proof -
  note cover = back_cover_pop [OF assms(4)]
  have b: "ci_front_value it1 = ci_front_value it"
    using assms(3) by (simp add: front_part_def)
  show ?thesis
  proof (cases "over (map_option k (ci_front_value it)) (k v)")
    case True
    then show ?thesis
      using assms b cover by (simp add: back_turn_def back_step_def back_inv_def front_part_def)
  next
    case False
    then have "\<forall>q\<in>K. short_of (map_option k (ci_back_value it)) q \<longrightarrow> \<not> over (map_option k (ci_front_value it)) q"
      using cover(4) over_trans by blast
    then show ?thesis
      using False assms b cover(3) by (simp add: back_turn_def back_step_def)
  qed
qed

lemma back_install_step:
  assumes "cset_ok k s" and "K \<subseteq> k ` set (elements s)" and "set (elements s) \<subseteq> M"
    and "back_inv k K M s it" and "\<not> ci_met it" and "ci_back_batch it = None"
    and "back_entry k it (canon (cs_index s)) = Some (key, a)"
  shows "\<exists>r it'. back_turn k s it = Inr (r, it') \<and> back_step k K M s it r it'"
proof -
  let ?hi = "map_option k (ci_back_value it)" and ?n = "ci_back_limit it"
  define ys where "ys = filter (\<lambda>x. short_of ?hi (k x)) (cs_nodes s a)"
  have inv: "0 < ?n" "ci_back_value it = None \<Longrightarrow> ci_back_partial it = None"
    using assms(4) by (simp_all add: back_inv_def)
  obtain A B where idx: "canon (cs_index s) = A @ (key, a) # B"
    "\<forall>x\<in>set (contents (cs_nodes s) B). k x \<in> K \<longrightarrow> \<not> short_of ?hi (k x)"
    "back_candidate k (ci_back_value it) (canon (cs_index s)) = Some (key, a) \<or> (\<forall>x\<in>set (cs_nodes s a). short_of ?hi (k x))"
    using back_entry_split(2) [OF assms(1,4) _ refl] assms(6,7) by auto
  have node: "sorted_keys k (cs_nodes s a)" "cs_nodes s a \<noteq> []"
    using cset_okD(3) [OF assms(1)] unfolding idx by (auto simp: ranged_append node_in_def)
  obtain it1 where inst: "install_back_batch k s it = (True, it1)" and it1: "ci_back_batch it1 = Some (drop (length ys - ?n) ys)"
    "ci_exhausted_back it1 = (if length ys \<le> ?n then Some a else None)" "ci_back_value it1 = ci_back_value it"
    "front_part it1 = front_part it" "\<not> ci_met it1" "0 < ci_back_limit it1"
    by (rule install_back_eq [OF assms(7) node(1) inv(2) ys_def])
      (use assms(5) inv(1) in \<open>auto simp: front_part_def MAX_BATCH_def\<close>)
  have turn: "back_turn k s it = back_turn k s it1"
    using assms(5,6) inst it1 by (simp add: back_turn_def)
  have cover: "back_cover k K M s ?hi (drop (length ys - ?n) ys) (ci_exhausted_back it1)"
    unfolding it1 by (rule back_cover_install [OF assms(1) idx(1) assms(2,3) idx(2) ys_def])
  show ?thesis
  proof (cases "drop (length ys - ?n) ys" rule: rev_cases)
    case (snoc vs v)
    then show ?thesis
      unfolding turn using it1 cover by (intro back_pop_step) simp_all
  next
    case Nil
    then have ys: "ys = []"
      using inv(1) by (cases ys) auto
    then have cand: "back_candidate k (ci_back_value it) (canon (cs_index s)) = Some (key, a)"
      using idx(3) node(2) by (auto simp: ys_def filter_empty_conv)
    have "ci_back_value it \<noteq> None"
      using ys node(2) by (cases "ci_back_value it") (simp_all add: ys_def)
    moreover have "ci_exhausted_back it \<noteq> Some a"
      using cand assms(7) by (auto simp: back_entry_def btm_last_below_def dest!: vec_last_in)
    ultimately show ?thesis
      unfolding turn using it1 ys cover cand assms(6)
      by (simp add: back_turn_def back_step_def back_inv_def back_todo_def front_part_def)
  qed
qed

lemma back_turn_step:
  assumes "cset_ok k s" and "K \<subseteq> k ` set (elements s)" and "set (elements s) \<subseteq> M"
    and "back_inv k K M s it" and "\<not> ci_met it"
  shows "\<exists>r it'. back_turn k s it = Inr (r, it') \<and> back_step k K M s it r it'"
proof (cases "ci_back_batch it")
  case None
  show ?thesis
  proof (cases "back_entry k it (canon (cs_index s))")
    case empty: None
    then have "back_turn k s it = Inr (Yield None, it)"
      using None assms(5) by (simp add: back_turn_def install_back_batch_def)
    then show ?thesis
      using back_entry_split(1) [OF assms(1,4) _ refl empty] None assms(2,4,5) by (fastforce simp: back_step_def)
  next
    case (Some r)
    then show ?thesis
      using back_install_step [OF assms None] by (cases r) auto
  qed
next
  case (Some ys)
  show ?thesis
  proof (cases ys rule: rev_cases)
    case Nil
    then show ?thesis
      using Some assms(4,5) by (simp add: back_turn_def back_step_def back_inv_def back_todo_def front_part_def)
  next
    case (snoc vs v)
    show ?thesis
      by (rule back_pop_step [of it vs v]) (use Some snoc assms(4,5) in \<open>auto simp: back_inv_def\<close>)
  qed
qed

section \<open>A set that nobody changes\<close>

lemma front_step_trans:
  assumes "front_step k K M s it Again it1" and "front_step k K M s' it1 (Yield x) it'"
  shows "front_step k K M s' it (Yield x) it'"
  using assms by (cases x) (simp_all add: front_step_def back_part_def Let_def)

lemma back_step_trans:
  assumes "back_step k K M s it Again it1" and "back_step k K M s' it1 (Yield x) it'"
  shows "back_step k K M s' it (Yield x) it'"
  using assms by (cases x) (simp_all add: back_step_def front_part_def Let_def)

lemma front_turns:
  assumes "cset_ok k s" and "settled k s" and "K \<subseteq> k ` set (elements s)" and "set (elements s) \<subseteq> M"
    and "front_inv k K M s it" and "\<not> ci_met it" and "front_todo k s it < n"
  shows "\<exists>x t' it'. turns (front_turn k) n (\<lambda>_. s) t it = Inr (Some (x, t', it')) \<and> front_step k K M s it (Yield x) it'"
  using assms(5-)
proof (induction n arbitrary: t it)
  case (Suc n)
  obtain r it1 where turn: "front_turn k s it = Inr (r, it1)" "front_step k K M s it r it1"
    using front_turn_step [OF assms(1-4) Suc.prems(1,2)] by blast
  show ?case
  proof (cases r)
    case Again
    then have "front_inv k K M s it1" "\<not> ci_met it1" "front_todo k s it1 < n"
      using turn(2) Suc.prems(3) by (simp_all add: front_step_def)
    from Suc.IH [OF this, of "Suc t"] show ?thesis
      using turn Again front_step_trans by fastforce
  qed (use turn in auto)
qed simp

lemma back_turns:
  assumes "cset_ok k s" and "K \<subseteq> k ` set (elements s)" and "set (elements s) \<subseteq> M"
    and "back_inv k K M s it" and "\<not> ci_met it" and "back_todo k s it < n"
  shows "\<exists>x t' it'. turns (back_turn k) n (\<lambda>_. s) t it = Inr (Some (x, t', it')) \<and> back_step k K M s it (Yield x) it'"
  using assms(4-)
proof (induction n arbitrary: t it)
  case (Suc n)
  obtain r it1 where turn: "back_turn k s it = Inr (r, it1)" "back_step k K M s it r it1"
    using back_turn_step [OF assms(1-3) Suc.prems(1,2)] by blast
  show ?case
  proof (cases r)
    case Again
    then have "back_inv k K M s it1" "\<not> ci_met it1" "back_todo k s it1 < n"
      using turn(2) Suc.prems(3) by (simp_all add: back_step_def)
    from Suc.IH [OF this, of "Suc t"] show ?thesis
      using turn Again back_step_trans by fastforce
  qed (use turn in auto)
qed simp

definition citer_ok :: "('a \<Rightarrow> 'k::linorder) \<Rightarrow> 'a cset \<Rightarrow> 'a citer \<Rightarrow> bool" where
  "citer_ok k s it \<longleftrightarrow> ci_met it \<or>
     front_inv k (k ` set (elements s)) (set (elements s)) s it \<and> back_inv k (k ` set (elements s)) (set (elements s)) s it"

definition citer_rest :: "('a \<Rightarrow> 'k::linorder) \<Rightarrow> 'a cset \<Rightarrow> 'a citer \<Rightarrow> 'a list" where
  "citer_rest k s it = (if ci_met it then [] else
     filter (\<lambda>x. over (map_option k (ci_front_value it)) (k x) \<and> short_of (map_option k (ci_back_value it)) (k x)) (elements s))"

lemma filter_least:
  assumes "sorted_keys k xs" and "v \<in> set xs" and "over lo (k v)" and "short_of hi (k v)"
    and "\<forall>x\<in>set xs. over lo (k x) \<longrightarrow> k v \<le> k x"
  shows "filter (\<lambda>x. over lo (k x) \<and> short_of hi (k x)) xs = v # filter (\<lambda>x. k v < k x \<and> short_of hi (k x)) xs"
proof -
  obtain A B where xs: "xs = A @ v # B"
    using assms(2) by (auto dest: split_list)
  have "filter (\<lambda>x. over lo (k x) \<and> short_of hi (k x)) A = []" "filter (\<lambda>x. k v < k x \<and> short_of hi (k x)) A = []"
    using assms(1,5) unfolding xs by (auto simp: filter_empty_conv not_less dest: leD less_imp_le)
  moreover have "filter (\<lambda>x. over lo (k x) \<and> short_of hi (k x)) B = filter (\<lambda>x. k v < k x \<and> short_of hi (k x)) B"
    using assms(1,3) unfolding xs by (auto intro!: filter_cong intro: over_trans less_imp_le)
  ultimately show ?thesis
    using assms(3,4) by (simp add: xs)
qed

lemma filter_greatest:
  assumes "sorted_keys k xs" and "v \<in> set xs" and "over lo (k v)" and "short_of hi (k v)"
    and "\<forall>x\<in>set xs. short_of hi (k x) \<longrightarrow> k x \<le> k v"
  shows "filter (\<lambda>x. over lo (k x) \<and> short_of hi (k x)) xs = filter (\<lambda>x. over lo (k x) \<and> k x < k v) xs @ [v]"
proof -
  obtain A B where xs: "xs = A @ v # B"
    using assms(2) by (auto dest: split_list)
  have "filter (\<lambda>x. over lo (k x) \<and> short_of hi (k x)) B = []" "filter (\<lambda>x. over lo (k x) \<and> k x < k v) B = []"
    using assms(1,5) unfolding xs by (auto simp: filter_empty_conv not_less dest: leD less_imp_le)
  moreover have "filter (\<lambda>x. over lo (k x) \<and> short_of hi (k x)) A = filter (\<lambda>x. over lo (k x) \<and> k x < k v) A"
    using assms(1,4) unfolding xs by (auto intro!: filter_cong intro: short_of_trans less_imp_le)
  ultimately show ?thesis
    using assms(3,4) by (simp add: xs)
qed

lemma still_next_step:
  assumes "cset_ok k s" and "settled k s" and "citer_ok k s it"
  shows "\<exists>it'. still_next k s it = Inr (vec_first (citer_rest k s it), it') \<and> citer_ok k s it' \<and>
    citer_rest k s it' = tl (citer_rest k s it)"
proof (cases "ci_met it")
  case True
  then show ?thesis
    using assms(3) by (simp add: still_next_def citer_next_def numeral_3_eq_3 front_turn_def citer_rest_def)
next
  case False
  let ?K = "k ` set (elements s)" and ?M = "set (elements s)"
  have inv: "front_inv k ?K ?M s it" "back_inv k ?K ?M s it"
    using assms(3) False by (simp_all add: citer_ok_def)
  obtain x t' it' where run: "turns (front_turn k) 3 (\<lambda>_. s) 0 it = Inr (Some (x, t', it'))"
    and step: "front_step k ?K ?M s it (Yield x) it'"
    using front_turns [OF assms(1,2) subset_refl subset_refl inv(1) False, of 3] todo_le(1) [of k s it] by fastforce
  have ok: "citer_ok k s it'"
    using step inv inv_cong(2) [of it' it] by (cases x) (auto simp: front_step_def citer_ok_def Let_def)
  have "x = vec_first (citer_rest k s it) \<and> citer_rest k s it' = tl (citer_rest k s it)"
  proof (cases x)
    case None
    then have "citer_rest k s it = []" "citer_rest k s it' = citer_rest k s it \<or> ci_met it'"
      using step False by (auto simp: Let_def front_step_def citer_rest_def back_part_def filter_empty_conv)
    then show ?thesis
      using None by (auto simp: citer_rest_def)
  next
    case (Some v)
    then show ?thesis
      using step False filter_least [OF cset_okD(6) [OF assms(1)], of v "map_option k (ci_front_value it)" "map_option k (ci_back_value it)"]
      by (auto simp: Let_def front_step_def citer_rest_def back_part_def)
  qed
  then show ?thesis
    using run ok by (simp add: still_next_def citer_next_def)
qed

lemma still_next_back_step:
  assumes "cset_ok k s" and "citer_ok k s it"
  shows "\<exists>it'. still_next_back k s it = Inr (vec_last (citer_rest k s it), it') \<and> citer_ok k s it' \<and>
    citer_rest k s it' = butlast (citer_rest k s it)"
proof (cases "ci_met it")
  case True
  then show ?thesis
    using assms(2) by (simp add: still_next_back_def citer_next_back_def numeral_3_eq_3 back_turn_def citer_rest_def)
next
  case False
  let ?K = "k ` set (elements s)" and ?M = "set (elements s)"
  have inv: "front_inv k ?K ?M s it" "back_inv k ?K ?M s it"
    using assms(2) False by (simp_all add: citer_ok_def)
  obtain x t' it' where run: "turns (back_turn k) 3 (\<lambda>_. s) 0 it = Inr (Some (x, t', it'))"
    and step: "back_step k ?K ?M s it (Yield x) it'"
    using back_turns [OF assms(1) subset_refl subset_refl inv(2) False, of 3] todo_le(2) [of k s it] by fastforce
  have ok: "citer_ok k s it'"
    using step inv inv_cong(1) [of it' it] by (cases x) (auto simp: back_step_def citer_ok_def Let_def)
  have "x = vec_last (citer_rest k s it) \<and> citer_rest k s it' = butlast (citer_rest k s it)"
  proof (cases x)
    case None
    then have "citer_rest k s it = []" "citer_rest k s it' = citer_rest k s it \<or> ci_met it'"
      using step False by (auto simp: Let_def back_step_def citer_rest_def front_part_def filter_empty_conv)
    then show ?thesis
      using None by (auto simp: citer_rest_def)
  next
    case (Some v)
    then show ?thesis
      using step False filter_greatest [OF cset_okD(6) [OF assms(1)], of v "map_option k (ci_front_value it)" "map_option k (ci_back_value it)"]
      by (auto simp: Let_def back_step_def citer_rest_def front_part_def)
  qed
  then show ?thesis
    using run ok by (simp add: still_next_back_def citer_next_back_def)
qed

interpretation still: double_ended "still_next k s" "citer_rest k s" "\<lambda>it. cset_ok k s \<and> settled k s \<and> citer_ok k s it" "still_next_back k s"
  for k :: "'a \<Rightarrow> 'k::linorder" and s :: "'a cset"
proof
  fix it
  assume ok: "cset_ok k s \<and> settled k s \<and> citer_ok k s it"
  then show "\<exists>it'. still_next k s it = Inr (vec_first (citer_rest k s it), it') \<and>
      (cset_ok k s \<and> settled k s \<and> citer_ok k s it') \<and> citer_rest k s it' = tl (citer_rest k s it)"
    using still_next_step [of k s it] by auto
  show "\<exists>it'. still_next_back k s it = Inr (vec_last (citer_rest k s it), it') \<and>
      (cset_ok k s \<and> settled k s \<and> citer_ok k s it') \<and> citer_rest k s it' = butlast (citer_rest k s it)"
    using still_next_back_step [of k s it] ok by auto
qed
end
