(* ===== verification/Concurrent_Scan.thy ===== *)
theory Concurrent_Scan
  imports Concurrent_Iter_Facts
begin

text \<open>
  Scans of a set that changes between the turns. \<open>K\<close> are keys that the set holds all the time. Along
  the changes no node that stays in the index takes over such a key from another one, which is why
  skipping an exhausted node is safe, and no value is yielded twice.
\<close>

section \<open>What becomes of the nodes\<close>

definition lineage :: "('a \<Rightarrow> 'k) \<Rightarrow> 'k set \<Rightarrow> 'a cset \<Rightarrow> 'a cset \<Rightarrow> bool" where
  "lineage k K s s' \<longleftrightarrow> cs_next s \<le> cs_next s' \<and>
     (\<forall>r\<in>set (canon (cs_index s')). snd r < cs_next s \<longrightarrow> snd r \<in> snd ` set (canon (cs_index s)) \<and>
       (\<forall>x\<in>set (cs_nodes s' (snd r)). k x \<in> K \<longrightarrow> k x \<in> k ` set (cs_nodes s (snd r))))"

lemma lineage_refl [simp]: "lineage k K s s"
  by (auto simp: lineage_def)

lemma lineageD:
  assumes "lineage k K s s'" and "a \<in> snd ` set (canon (cs_index s'))" and "a < cs_next s"
  shows "a \<in> snd ` set (canon (cs_index s))" and "\<forall>x\<in>set (cs_nodes s' a). k x \<in> K \<longrightarrow> k x \<in> k ` set (cs_nodes s a)"
  using assms by (auto simp: lineage_def)

lemma lineage_trans:
  assumes "lineage k K s s'" and "lineage k K s' s''"
  shows "lineage k K s s''"
proof -
  have mono: "cs_next s \<le> cs_next s'" "cs_next s' \<le> cs_next s''"
    using assms by (simp_all add: lineage_def)
  have "snd r \<in> snd ` set (canon (cs_index s)) \<and>
      (\<forall>x\<in>set (cs_nodes s'' (snd r)). k x \<in> K \<longrightarrow> k x \<in> k ` set (cs_nodes s (snd r)))"
    if r: "r \<in> set (canon (cs_index s''))" "snd r < cs_next s" for r
  proof -
    have mid: "snd r \<in> snd ` set (canon (cs_index s'))"
      "\<forall>x\<in>set (cs_nodes s'' (snd r)). k x \<in> K \<longrightarrow> k x \<in> k ` set (cs_nodes s' (snd r))"
      using assms(2) r mono(1) by (auto simp: lineage_def)
    note lineageD [OF assms(1) this(1) r(2)]
    then show ?thesis
      using mid(2) by (metis (no_types, lifting) image_iff)
  qed
  then show ?thesis
    using mono by (simp add: lineage_def)
qed

lemma contents_keys_apart:
  assumes "sorted_keys k (contents nodes idx)" and "r \<in> set idx" and "p \<in> set idx" and "r \<noteq> p"
    and "x \<in> set (nodes (snd r))" and "y \<in> set (nodes (snd p))"
  shows "k x \<noteq> k y"
proof -
  obtain A B where idx: "idx = A @ r # B"
    using assms(2) by (auto dest: split_list)
  have "y \<in> set (contents nodes A) \<or> y \<in> set (contents nodes B)"
    using assms(3,4,6) idx by (auto simp: contents_def)
  moreover have "sorted_keys k (contents nodes A @ nodes (snd r) @ contents nodes B)"
    using assms(1) by (simp add: idx contents_def)
  ultimately have "k x < k y \<or> k y < k x"
    using assms(5) by auto
  then show ?thesis
    by auto
qed

lemma frame_lineage:
  assumes "node_frame s (canon (cs_index s)) s' (canon (cs_index s'))" and "sorted_keys k (elements s')"
    and "K \<subseteq> k ` set (elements s)"
  shows "lineage k K s s'"
proof -
  obtain a where keep: "\<forall>r\<in>set (canon (cs_index s)). snd r \<noteq> a \<longrightarrow>
      snd r \<in> snd ` set (canon (cs_index s')) \<and> cs_nodes s' (snd r) = cs_nodes s (snd r)"
    and old: "\<forall>r\<in>set (canon (cs_index s')). snd r \<in> snd ` set (canon (cs_index s)) \<or> cs_next s \<le> snd r"
    using assms(1) by (auto simp: node_frame_def)
  have "k x \<in> k ` set (cs_nodes s (snd r))" if r: "r \<in> set (canon (cs_index s'))" "snd r < cs_next s"
    and x: "x \<in> set (cs_nodes s' (snd r))" "k x \<in> K" for r x
  proof (cases "snd r = a")
    case True
    obtain y where y: "y \<in> set (elements s)" "k x = k y"
      using assms(3) x(2) by blast
    then obtain p where p: "p \<in> set (canon (cs_index s))" "y \<in> set (cs_nodes s (snd p))"
      by (auto simp: elements_def contents_def)
    show ?thesis
    proof (cases "snd p = a")
      case False
      then obtain p' where p': "p' \<in> set (canon (cs_index s'))" "snd p' = snd p" "cs_nodes s' (snd p) = cs_nodes s (snd p)"
        using keep p(1) by force
      then have "k x \<noteq> k y"
        using contents_keys_apart [OF assms(2) [unfolded elements_def] r(1) p'(1)] x(1) p(2) True False by force
      then show ?thesis
        using y(2) by simp
    qed (use True p y in auto)
  next
    case False
    obtain p where "p \<in> set (canon (cs_index s))" "snd p = snd r"
      using old r by force
    then show ?thesis
      using keep False x(1) by force
  qed
  then show ?thesis
    using assms(1) old by (auto simp: lineage_def node_frame_def)
qed

lemma node_lineage:
  assumes "lineage k K s s'" and "a < cs_next s" and "a \<in> snd ` set (canon (cs_index s'))"
    and "a \<in> snd ` set (canon (cs_index s)) \<longrightarrow> (\<forall>x\<in>set (cs_nodes s a). k x \<in> K \<longrightarrow> Q (k x))"
  shows "\<forall>x\<in>set (cs_nodes s' a). k x \<in> K \<longrightarrow> Q (k x)"
proof (intro ballI impI)
  fix x
  assume x: "x \<in> set (cs_nodes s' a)" "k x \<in> K"
  then have "a \<in> snd ` set (canon (cs_index s))" "k x \<in> k ` set (cs_nodes s a)"
    using lineageD [OF assms(1,3,2)] by simp_all
  then show "Q (k x)"
    using assms(4) x(2) by (metis image_iff)
qed

lemma front_cover_lineage:
  assumes "lineage k K s s'" and "front_cover k K M s lo ys e"
  shows "front_cover k K M s' lo ys e"
proof -
  have "a < cs_next s" "\<forall>x\<in>set (cs_nodes s' a). k x \<in> K \<longrightarrow> over lo (k x) \<longrightarrow> k x \<in> k ` set ys"
    if "e = Some a" "a \<in> snd ` set (canon (cs_index s'))" for a
    using assms(2) that node_lineage [OF assms(1) _ that(2), of "\<lambda>q. over lo q \<longrightarrow> q \<in> k ` set ys"]
    by (simp_all add: front_cover_def)
  moreover have "e = Some a \<Longrightarrow> a < cs_next s'" for a
    using assms by (auto simp: lineage_def front_cover_def intro: less_le_trans)
  ultimately show ?thesis
    using assms(2) by (simp add: front_cover_def)
qed

lemma back_cover_lineage:
  assumes "lineage k K s s'" and "back_cover k K M s hi ys e"
  shows "back_cover k K M s' hi ys e"
proof -
  have "a < cs_next s" "\<forall>x\<in>set (cs_nodes s' a). k x \<in> K \<longrightarrow> short_of hi (k x) \<longrightarrow> k x \<in> k ` set ys"
    if "e = Some a" "a \<in> snd ` set (canon (cs_index s'))" for a
    using assms(2) that node_lineage [OF assms(1) _ that(2), of "\<lambda>q. short_of hi q \<longrightarrow> q \<in> k ` set ys"]
    by (simp_all add: back_cover_def)
  moreover have "e = Some a \<Longrightarrow> a < cs_next s'" for a
    using assms by (auto simp: lineage_def back_cover_def intro: less_le_trans)
  ultimately show ?thesis
    using assms(2) by (simp add: back_cover_def)
qed

lemma inv_lineage:
  "lineage k K s s' \<Longrightarrow> front_inv k K M s it \<Longrightarrow> front_inv k K M s' it"
  "lineage k K s s' \<Longrightarrow> back_inv k K M s it \<Longrightarrow> back_inv k K M s' it"
  by (simp_all add: front_inv_def back_inv_def front_cover_lineage back_cover_lineage)

section \<open>\<open>next\<close> while the set changes\<close>

text \<open>The states a scan sees, turn after turn.\<close>

definition seen :: "('a \<Rightarrow> 'k::linorder) \<Rightarrow> 'k set \<Rightarrow> 'a set \<Rightarrow> (nat \<Rightarrow> 'a cset) \<Rightarrow> bool" where
  "seen k K M st \<longleftrightarrow> (\<forall>t. cset_ok k (st t) \<and> K \<subseteq> k ` set (elements (st t)) \<and> set (elements (st t)) \<subseteq> M \<and> lineage k K (st t) (st (Suc t)))"

lemma seenD:
  assumes "seen k K M st"
  shows "cset_ok k (st t)" and "K \<subseteq> k ` set (elements (st t))" and "set (elements (st t)) \<subseteq> M" and "lineage k K (st t) (st (Suc t))"
  using assms by (simp_all add: seen_def)

lemma front_turns_seen:
  assumes "seen k K M st" and "\<forall>t. settled k (st t)" and "front_inv k K M (st t) it" and "\<not> ci_met it"
  shows "\<exists>r. turns (front_turn k) n st t it = Inr r \<and>
    (\<forall>x t' it'. r = Some (x, t', it') \<longrightarrow> front_step k K M (st t') it (Yield x) it')"
  using assms(3-)
proof (induction n arbitrary: t it)
  case (Suc n)
  note sd = seenD [OF assms(1), of t]
  obtain r it1 where turn: "front_turn k (st t) it = Inr (r, it1)" "front_step k K M (st t) it r it1"
    using front_turn_step [OF sd(1) _ sd(2,3) Suc.prems] assms(2) by blast
  show ?case
  proof (cases r)
    case Again
    then have "front_inv k K M (st (Suc t)) it1" "\<not> ci_met it1"
      using turn(2) inv_lineage(1) [OF sd(4)] by (simp_all add: front_step_def)
    from Suc.IH [OF this] show ?thesis
      using turn Again front_step_trans [of k K M "st t" it it1] by auto
  next
    case (Yield x)
    then have "front_step k K M (st (Suc t)) it (Yield x) it1"
      using turn(2) inv_lineage(1) [OF sd(4)] by (auto simp: front_step_def Let_def split: option.splits)
    then show ?thesis
      using turn(1) Yield by simp
  qed
qed simp

lemma back_turns_seen:
  assumes "seen k K M st" and "back_inv k K M (st t) it" and "\<not> ci_met it"
  shows "\<exists>r. turns (back_turn k) n st t it = Inr r \<and>
    (\<forall>x t' it'. r = Some (x, t', it') \<longrightarrow> back_step k K M (st t') it (Yield x) it')"
  using assms(2-)
proof (induction n arbitrary: t it)
  case (Suc n)
  note sd = seenD [OF assms(1), of t]
  obtain r it1 where turn: "back_turn k (st t) it = Inr (r, it1)" "back_step k K M (st t) it r it1"
    using back_turn_step [OF sd(1-3) Suc.prems] by blast
  show ?case
  proof (cases r)
    case Again
    then have "back_inv k K M (st (Suc t)) it1" "\<not> ci_met it1"
      using turn(2) inv_lineage(2) [OF sd(4)] by (simp_all add: back_step_def)
    from Suc.IH [OF this] show ?thesis
      using turn Again back_step_trans [of k K M "st t" it it1] by auto
  next
    case (Yield x)
    then have "back_step k K M (st (Suc t)) it (Yield x) it1"
      using turn(2) inv_lineage(2) [OF sd(4)] by (auto simp: back_step_def Let_def split: option.splits)
    then show ?thesis
      using turn(1) Yield by simp
  qed
qed simp

text \<open>Once the changes stop, three more turns are enough.\<close>

lemma front_turns_return:
  assumes "seen k K M st" and "\<forall>t. settled k (st t)" and "front_inv k K M (st t) it" and "\<not> ci_met it"
    and "\<forall>u\<ge>T. st u = st T" and "(if t < T then T - t + 2 else front_todo k (st T) it) < n"
  shows "turns (front_turn k) n st t it \<noteq> Inr None"
  using assms(3,4,6)
proof (induction n arbitrary: t it)
  case (Suc n)
  note sd = seenD [OF assms(1), of t]
  obtain r it1 where turn: "front_turn k (st t) it = Inr (r, it1)" "front_step k K M (st t) it r it1"
    using front_turn_step [OF sd(1) _ sd(2,3) Suc.prems(1,2)] assms(2) by blast
  show ?case
  proof (cases r)
    case Again
    have "st t = st T" if "\<not> t < T"
      using assms(5) that by (metis not_less)
    then have "(if Suc t < T then T - Suc t + 2 else front_todo k (st T) it1) < n"
      using Suc.prems(3) Again turn(2) todo_le(1) [of k "st T" it1] by (auto simp: front_step_def split: if_splits)
    moreover have "front_inv k K M (st (Suc t)) it1" "\<not> ci_met it1"
      using turn(2) inv_lineage(1) [OF sd(4)] Again by (simp_all add: front_step_def)
    ultimately show ?thesis
      using Suc.IH turn(1) Again by simp
  qed (use turn in simp)
qed simp

lemma back_turns_return:
  assumes "seen k K M st" and "back_inv k K M (st t) it" and "\<not> ci_met it"
    and "\<forall>u\<ge>T. st u = st T" and "(if t < T then T - t + 2 else back_todo k (st T) it) < n"
  shows "turns (back_turn k) n st t it \<noteq> Inr None"
  using assms(2,3,5)
proof (induction n arbitrary: t it)
  case (Suc n)
  note sd = seenD [OF assms(1), of t]
  obtain r it1 where turn: "back_turn k (st t) it = Inr (r, it1)" "back_step k K M (st t) it r it1"
    using back_turn_step [OF sd(1-3) Suc.prems(1,2)] by blast
  show ?case
  proof (cases r)
    case Again
    have "st t = st T" if "\<not> t < T"
      using assms(4) that by (metis not_less)
    then have "(if Suc t < T then T - Suc t + 2 else back_todo k (st T) it1) < n"
      using Suc.prems(3) Again turn(2) todo_le(2) [of k "st T" it1] by (auto simp: back_step_def split: if_splits)
    moreover have "back_inv k K M (st (Suc t)) it1" "\<not> ci_met it1"
      using turn(2) inv_lineage(2) [OF sd(4)] Again by (simp_all add: back_step_def)
    ultimately show ?thesis
      using Suc.IH turn(1) Again by simp
  qed (use turn in simp)
qed simp

section \<open>Whole scans\<close>

text \<open>
  What a call owes the scan: \<open>rem it\<close> are the keys still ahead of the iterator, \<open>before\<close> the order
  it goes in. It returns a value ahead of it with no key of \<open>K\<close> in between, or all of \<open>K\<close> is behind it.
\<close>

definition call_ok ::
  "('a \<Rightarrow> 'k) \<Rightarrow> 'k set \<Rightarrow> 'a set \<Rightarrow> ('k \<Rightarrow> 'k \<Rightarrow> bool) \<Rightarrow> ('a citer \<Rightarrow> 'k \<Rightarrow> bool) \<Rightarrow> (nat \<Rightarrow> 'a citer \<Rightarrow> bool) \<Rightarrow>
     'a citer \<Rightarrow> 'a option \<Rightarrow> nat \<Rightarrow> 'a citer \<Rightarrow> bool" where
  "call_ok k K M before rem ok it x t' it' \<longleftrightarrow>
     (case x of
        None \<Rightarrow> \<forall>q\<in>K. \<not> rem it q
      | Some v \<Rightarrow> ok t' it' \<and> v \<in> M \<and> rem it (k v) \<and> (\<forall>q. rem it' q \<longleftrightarrow> rem it q \<and> before (k v) q) \<and>
          (\<forall>q\<in>K. rem it q \<longrightarrow> q = k v \<or> before (k v) q))"

lemma scan_seen:
  assumes "\<And>t it. ok t it \<Longrightarrow> \<exists>r. nxt st t it = Inr r \<and>
      (\<forall>x t' it'. r = Some (x, t', it') \<longrightarrow> call_ok k K M before rem ok it x t' it')"
    and "ok t it"
  shows "\<exists>vs finished. scan nxt n st t it = Inr (vs, finished) \<and> sorted_wrt before (map k vs) \<and> set vs \<subseteq> M \<and>
    (\<forall>v\<in>set vs. rem it (k v)) \<and> (finished \<longrightarrow> (\<forall>q\<in>K. rem it q \<longrightarrow> q \<in> k ` set vs))"
  using assms(2)
proof (induction n arbitrary: t it)
  case (Suc n)
  obtain r where r: "nxt st t it = Inr r" "\<And>x t' it'. r = Some (x, t', it') \<Longrightarrow> call_ok k K M before rem ok it x t' it'"
    using assms(1) [OF Suc.prems] by blast
  show ?case
  proof (cases r)
    case (Some p)
    obtain x t' it' where p: "p = (x, t', it')" by (cases p)
    note c = r(2) [OF Some [unfolded p], unfolded call_ok_def]
    show ?thesis
    proof (cases x)
      case v: (Some v)
      then have "ok t' it'"
        using c by simp
      from Suc.IH [OF this] obtain vs finished where IH: "scan nxt n st t' it' = Inr (vs, finished)"
        "sorted_wrt before (map k vs)" "set vs \<subseteq> M" "\<forall>v\<in>set vs. rem it' (k v)" "finished \<Longrightarrow> \<forall>q\<in>K. rem it' q \<longrightarrow> q \<in> k ` set vs"
        by blast
      have "scan nxt (Suc n) st t it = Inr (v # vs, finished)"
        using r(1) Some p v IH(1) by simp
      then show ?thesis
        using IH(2-5) c v by auto
    qed (use r(1) Some p c in auto)
  qed (use r(1) in auto)
qed auto

lemma scan_finishes:
  assumes "\<And>t it. ok t it \<Longrightarrow> \<exists>r. nxt st t it = Inr r \<and>
      (\<forall>x t' it'. r = Some (x, t', it') \<longrightarrow> call_ok k K M before rem ok it x t' it')"
    and "\<And>t it. ok t it \<Longrightarrow> nxt st t it \<noteq> Inr None"
    and "finite M" and "\<And>q. \<not> before q q" and "ok t it" and "card {q \<in> k ` M. rem it q} < n"
  shows "\<exists>vs. scan nxt n st t it = Inr (vs, True)"
  using assms(5,6)
proof (induction n arbitrary: t it)
  case (Suc n)
  obtain x t' it' where r: "nxt st t it = Inr (Some (x, t', it'))" "call_ok k K M before rem ok it x t' it'"
    using assms(1) [OF Suc.prems(1)] assms(2) [OF Suc.prems(1)] by (metis prod_cases3 option.exhaust)
  show ?case
  proof (cases x)
    case (Some v)
    then have c: "ok t' it'" "v \<in> M" "rem it (k v)" "\<And>q. rem it' q \<longleftrightarrow> rem it q \<and> before (k v) q"
      using r(2) by (simp_all add: call_ok_def)
    have "{q \<in> k ` M. rem it' q} \<subset> {q \<in> k ` M. rem it q}"
      using c(2-) assms(4) by blast
    then have "card {q \<in> k ` M. rem it' q} < card {q \<in> k ` M. rem it q}"
      using assms(3) by (intro psubset_card_mono) simp_all
    then show ?thesis
      using Suc.IH [OF c(1)] Suc.prems(2) r(1) Some by fastforce
  qed (use r(1) in simp)
qed simp

text \<open>The keys strictly between the two cursors.\<close>

definition ahead :: "('a \<Rightarrow> 'k::linorder) \<Rightarrow> 'a citer \<Rightarrow> 'k \<Rightarrow> bool" where
  "ahead k it q \<longleftrightarrow> over (map_option k (ci_front_value it)) q \<and> short_of (map_option k (ci_back_value it)) q"

lemma front_call_ok:
  assumes "front_step k K M (st t') it (Yield x) it'"
  shows "call_ok k K M (<) (ahead k) (\<lambda>t it. front_inv k K M (st t) it \<and> \<not> ci_met it) it x t' it'"
  using assms by (cases x)
    (auto simp: Let_def front_step_def call_ok_def ahead_def back_part_def intro: over_trans less_imp_le)

lemma back_call_ok:
  assumes "back_step k K M (st t') it (Yield x) it'"
  shows "call_ok k K M (>) (ahead k) (\<lambda>t it. back_inv k K M (st t) it \<and> \<not> ci_met it) it x t' it'"
  using assms by (cases x)
    (auto simp: Let_def back_step_def call_ok_def ahead_def front_part_def intro: short_of_trans less_imp_le)

lemma keys_fuel: "finite M \<Longrightarrow> card M < n \<Longrightarrow> card {q \<in> k ` M. Q q} < n"
proof -
  assume "finite M" "card M < n"
  moreover from this have "card {q \<in> k ` M. Q q} \<le> card (k ` M)"
    by (intro card_mono) auto
  ultimately show ?thesis
    using card_image_le [of M k] by linarith
qed

lemma front_scan:
  assumes "seen k K M st" and "\<forall>t. settled k (st t)" and "front_inv k K M (st t) it" and "\<not> ci_met it"
  shows "\<exists>vs finished. scan (citer_next m k) n st t it = Inr (vs, finished) \<and> sorted_keys k vs \<and> set vs \<subseteq> M \<and>
      (\<forall>v\<in>set vs. ahead k it (k v)) \<and> (finished \<longrightarrow> (\<forall>q\<in>K. ahead k it q \<longrightarrow> q \<in> k ` set vs))"
    and "finite M \<Longrightarrow> \<forall>u\<ge>T. st u = st T \<Longrightarrow> T + 2 < m \<Longrightarrow> card M < n \<Longrightarrow> \<exists>vs. scan (citer_next m k) n st t it = Inr (vs, True)"
proof -
  let ?ok = "\<lambda>t it. front_inv k K M (st t) it \<and> \<not> ci_met it"
  have step: "\<exists>r. citer_next m k st t it = Inr r \<and>
      (\<forall>x t' it'. r = Some (x, t', it') \<longrightarrow> call_ok k K M (<) (ahead k) ?ok it x t' it')" if "?ok t it" for t it
    using front_turns_seen [OF assms(1,2) conjunct1 [OF that] conjunct2 [OF that], of m] front_call_ok [where st = st and it = it]
    by (auto simp: citer_next_def)
  have ok: "?ok t it"
    using assms(3,4) by simp
  from scan_seen [where ok = ?ok and nxt = "citer_next m k" and st = st, OF step ok, of n]
  show "\<exists>vs finished. scan (citer_next m k) n st t it = Inr (vs, finished) \<and> sorted_keys k vs \<and> set vs \<subseteq> M \<and>
      (\<forall>v\<in>set vs. ahead k it (k v)) \<and> (finished \<longrightarrow> (\<forall>q\<in>K. ahead k it q \<longrightarrow> q \<in> k ` set vs))"
    by (simp add: sorted_keys_def)
  assume fin: "finite M" "\<forall>u\<ge>T. st u = st T" "T + 2 < m" "card M < n"
  have "citer_next m k st t it \<noteq> Inr None" if "?ok t it" for t it
    unfolding citer_next_def
    by (rule front_turns_return [OF assms(1,2) conjunct1 [OF that] conjunct2 [OF that] fin(2)]) (use fin(3) todo_le(1) [of k "st T" it] in auto)
  then show "\<exists>vs. scan (citer_next m k) n st t it = Inr (vs, True)"
    by (intro scan_finishes [where ok = ?ok and nxt = "citer_next m k" and st = st, OF step _ fin(1) _ ok keys_fuel [OF fin(1,4)]]) simp_all
qed

lemma back_scan:
  assumes "seen k K M st" and "back_inv k K M (st t) it" and "\<not> ci_met it"
  shows "\<exists>vs finished. scan (citer_next_back m k) n st t it = Inr (vs, finished) \<and> sorted_keys k (rev vs) \<and> set vs \<subseteq> M \<and>
      (\<forall>v\<in>set vs. ahead k it (k v)) \<and> (finished \<longrightarrow> (\<forall>q\<in>K. ahead k it q \<longrightarrow> q \<in> k ` set vs))"
    and "finite M \<Longrightarrow> \<forall>u\<ge>T. st u = st T \<Longrightarrow> T + 2 < m \<Longrightarrow> card M < n \<Longrightarrow> \<exists>vs. scan (citer_next_back m k) n st t it = Inr (vs, True)"
proof -
  let ?ok = "\<lambda>t it. back_inv k K M (st t) it \<and> \<not> ci_met it"
  have step: "\<exists>r. citer_next_back m k st t it = Inr r \<and>
      (\<forall>x t' it'. r = Some (x, t', it') \<longrightarrow> call_ok k K M (>) (ahead k) ?ok it x t' it')" if "?ok t it" for t it
    using back_turns_seen [OF assms(1) conjunct1 [OF that] conjunct2 [OF that], of m] back_call_ok [where st = st and it = it]
    by (auto simp: citer_next_back_def)
  have ok: "?ok t it"
    using assms(2,3) by simp
  from scan_seen [where ok = ?ok and nxt = "citer_next_back m k" and st = st, OF step ok, of n]
  show "\<exists>vs finished. scan (citer_next_back m k) n st t it = Inr (vs, finished) \<and> sorted_keys k (rev vs) \<and> set vs \<subseteq> M \<and>
      (\<forall>v\<in>set vs. ahead k it (k v)) \<and> (finished \<longrightarrow> (\<forall>q\<in>K. ahead k it q \<longrightarrow> q \<in> k ` set vs))"
    by (simp add: sorted_keys_def rev_map [symmetric] sorted_wrt_rev)
  assume fin: "finite M" "\<forall>u\<ge>T. st u = st T" "T + 2 < m" "card M < n"
  have "citer_next_back m k st t it \<noteq> Inr None" if "?ok t it" for t it
    unfolding citer_next_back_def
    by (rule back_turns_return [OF assms(1) conjunct1 [OF that] conjunct2 [OF that] fin(2)]) (use fin(3) todo_le(2) [of k "st T" it] in auto)
  then show "\<exists>vs. scan (citer_next_back m k) n st t it = Inr (vs, True)"
    by (intro scan_finishes [where ok = ?ok and nxt = "citer_next_back m k" and st = st, OF step _ fin(1) _ ok keys_fuel [OF fin(1,4)]]) simp_all
qed

end
