(* ===== verification/Concurrent_Range.thy ===== *)
theory Concurrent_Range
  imports Concurrent_Iter_Facts
begin

text \<open>
  What the ranges of the concurrent set hold. \<open>Range::new\<close> positions both cursors at sentinels
  outside the range; with them the iterator yields the elements inside the bounds.
\<close>

section \<open>The sentinels of a range\<close>

definition beneath :: "('a \<Rightarrow> 'q::linorder) \<Rightarrow> 'q bound \<Rightarrow> 'a \<Rightarrow> bool" where
  "beneath b bound x = (case bound of Included v \<Rightarrow> b x \<le> v | Excluded v \<Rightarrow> b x < v | Unbounded \<Rightarrow> True)"

definition in_range :: "('a \<Rightarrow> 'q::linorder) \<Rightarrow> 'q bound \<Rightarrow> 'q bound \<Rightarrow> 'a \<Rightarrow> bool" where
  "in_range b lo hi x \<longleftrightarrow> above b lo x \<and> beneath b hi x"

lemma above_mono: "above b lo x \<Longrightarrow> b x \<le> b y \<Longrightarrow> above b lo y"
  by (cases lo) (auto simp: above_def)

lemma beneath_mono: "beneath b hi y \<Longrightarrow> b x \<le> b y \<Longrightarrow> beneath b hi x"
  by (cases hi) (auto simp: beneath_def)

text \<open>A borrowed form that orders whole groups of elements, as the key of a multimap entry does.\<close>

definition borrow_grouped :: "('a \<Rightarrow> 'k::linorder) \<Rightarrow> ('a \<Rightarrow> 'q::linorder) \<Rightarrow> bool" where
  "borrow_grouped k b \<longleftrightarrow> (\<forall>x y. k x \<le> k y \<longrightarrow> b x \<le> b y)"

lemma borrow_ok_grouped: "borrow_ok k b \<Longrightarrow> borrow_grouped k b"
  using borrow_le [of k b] by (simp add: borrow_grouped_def)

lemma borrow_groupedD: "borrow_grouped k b \<Longrightarrow> k x \<le> k y \<Longrightarrow> b x \<le> b y"
  by (simp add: borrow_grouped_def)

lemma sorted_keys_grouped: "borrow_grouped k b \<Longrightarrow> sorted_keys k xs \<Longrightarrow> sorted (map b xs)"
  by (rule sorted_keys_mono) (auto simp: borrow_grouped_def borrow_mono_def)

text \<open>Splitting a node at a bound.\<close>

lemma rank_past_split:
  assumes "sorted (map b xs)"
  shows "\<forall>x\<in>set (take (rank_past b xs lo True) xs). \<not> above b lo x" "\<forall>x\<in>set (drop (rank_past b xs lo True) xs). above b lo x"
    "\<forall>x\<in>set (take (length xs - rank_past b xs hi False) xs). beneath b hi x"
    "\<forall>x\<in>set (drop (length xs - rank_past b xs hi False) xs). \<not> beneath b hi x"
  using assms by (cases lo; cases hi; simp add: drop_passed above_def beneath_def not_le not_less)+

lemma rank_past_le: "rank_past b xs bound dir \<le> length xs"
  by (cases bound; cases dir) simp_all

lemma node_rank_past: "node_rank b xs bound dir = (if rank_past b xs bound dir = 0 then None else Some (rank_past b xs bound dir - 1))"
  by (simp add: rank_past_def split: option.split)

lemma vec_ends_append:
  "vec_last (xs @ ys) = (if ys = [] then vec_last xs else vec_last ys)"
  "vec_first (xs @ ys) = (if xs = [] then vec_first ys else vec_first xs)"
  by (cases ys rule: rev_cases; simp add: vec_last_def) (cases xs; simp)

lemma ranked_values:
  "rank_past b xs bound dir = Suc n \<Longrightarrow> vec_get xs n = vec_last (take (Suc n) xs)"
  "rank_past b xs bound dir = Suc n \<Longrightarrow> vec_get (rev xs) n = vec_first (drop (length xs - Suc n) xs)"
  using rank_past_le [of b xs bound dir]
  by (auto simp: vec_last_def vec_first_def take_Suc_conv_app_nth rev_nth hd_drop_conv_nth split: list.split dest: nth_via_drop)

lemma closed_run_key:
  assumes "closed_run k nodes lo A" and "x \<in> set (contents nodes A)"
  shows "\<exists>r\<in>set A. k x \<le> k (fst r)"
  using assms by (induction A arbitrary: lo) (fastforce simp: node_in_def)+

lemma contents_ends:
  assumes "ranged k nodes lo idx"
  shows "vec_last (contents nodes idx) = Option.bind (vec_last idx) (\<lambda>r. vec_last (nodes (snd r)))"
    and "vec_first (contents nodes idx) = Option.bind (vec_first idx) (\<lambda>r. vec_first (nodes (snd r)))"
proof -
  have ne: "nodes (snd r) \<noteq> []" if "r \<in> set idx" for r
    using assms that by (induction idx arbitrary: lo) (auto simp: node_in_def)
  show "vec_last (contents nodes idx) = Option.bind (vec_last idx) (\<lambda>r. vec_last (nodes (snd r)))"
    using ne by (cases idx rule: rev_cases) (fastforce simp: vec_ends_append)+
  show "vec_first (contents nodes idx) = Option.bind (vec_first idx) (\<lambda>r. vec_first (nodes (snd r)))"
    using ne by (cases idx) (fastforce simp: vec_ends_append)+
qed

text \<open>The nodes before the first one in bounds hold nothing in bounds, the nodes after it nothing else.\<close>

lemma borrowed_start_node:
  assumes "cset_ok k s" and "settled k s" and "borrow_grouped k b"
    and "btm_first_from b lo (canon (cs_index s)) = Some (key, a)"
  obtains A B where "canon (cs_index s) = A @ (key, a) # B"
    "\<forall>x\<in>set (contents (cs_nodes s) A). \<not> above b lo x" "\<forall>x\<in>set (contents (cs_nodes s) B). above b lo x"
proof -
  let ?idx = "canon (cs_index s)" and ?c = "contents (cs_nodes s)"
  note ok = cset_okD [OF assms(1)]
  obtain A B where idx: "?idx = A @ (key, a) # B" and A: "\<forall>r\<in>set A. \<not> above b lo (fst r)" and key: "above b lo key"
    using find_split assms(4) unfolding btm_first_from_def by fastforce
  have runs: "closed_run k (cs_nodes s) None A" "ranged k (cs_nodes s) (Some (k key)) B"
    using ok(3) assms(2) unfolding idx settled_def by (auto simp: ranged_append)
  have "\<forall>x\<in>set (?c A). \<not> above b lo x"
    using A closed_run_key [OF runs(1)] above_mono borrow_groupedD [OF assms(3)] by metis
  moreover have "\<forall>x\<in>set (?c B). k key < k x"
    using ranged_above [OF runs(2)] ok(4) unfolding idx by simp
  then have "\<forall>x\<in>set (?c B). above b lo x"
    using key above_mono borrow_groupedD [OF assms(3)] by (metis less_imp_le)
  ultimately show thesis
    using idx by (intro that)
qed

lemma range_front_split:
  assumes "cset_ok k s" and "settled k s" and "borrow_grouped k b"
    and "btm_first_from b lo (canon (cs_index s)) = Some (key, a)"
  shows "\<exists>X Y. elements s = X @ Y \<and> range_front_value k b lo s = vec_last X \<and>
    (\<forall>x\<in>set X. \<not> above b lo x) \<and> (\<forall>x\<in>set Y. above b lo x)"
proof -
  let ?idx = "canon (cs_index s)" and ?n = "cs_nodes s a" and ?c = "contents (cs_nodes s)"
  note ok = cset_okD [OF assms(1)]
  obtain A B where idx: "?idx = A @ (key, a) # B" and AB: "\<forall>x\<in>set (?c A). \<not> above b lo x" "\<forall>x\<in>set (?c B). above b lo x"
    by (rule borrowed_start_node [OF assms])
  have runs: "ranged k (cs_nodes s) None A" "sorted_keys k ?n"
    using ok(3) assms(2) closed_ranged unfolding idx settled_def by (auto simp: node_in_def)
  have "range_front_value k b lo s = vec_last (?c A @ take (rank_past b ?n lo True) ?n)"
  proof (cases "rank_past b ?n lo True")
    case 0
    have "btm_last_below k (k key) ?idx = vec_last A"
      using next_entry(2) [of k A key a B] ok(4) idx by simp
    then show ?thesis
      using 0 assms(4) contents_ends(1) [OF runs(1)]
      by (cases A rule: rev_cases) (simp_all add: range_front_value_def first_for_borrowed_bound_def node_rank_past case_prod_unfold)
  next
    case (Suc n)
    have "take (Suc n) ?n \<noteq> []"
      using rank_past_le [of b ?n lo True] Suc by auto
    then show ?thesis
      using assms(4) Suc ranked_values(1) [OF Suc]
      by (simp add: range_front_value_def first_for_borrowed_bound_def node_rank_past vec_ends_append)
  qed
  then show ?thesis
    using rank_past_split(1,2) [OF sorted_keys_grouped [OF assms(3) runs(2)], of lo] AB
    by (intro exI [of _ "?c A @ take (rank_past b ?n lo True) ?n"] exI [of _ "drop (rank_past b ?n lo True) ?n @ ?c B"])
      (auto simp: elements_def idx)
qed

lemma range_back_split:
  assumes "cset_ok k s" and "borrow_grouped k b" and "canon (cs_index s) = A @ (key, a) # B"
    and "\<forall>x\<in>set (contents (cs_nodes s) A). beneath b hi x" and "\<forall>x\<in>set (contents (cs_nodes s) B). \<not> beneath b hi x"
    and "range_end_entry b (canon (cs_index s)) hi (cs_borrow_order_matches s) = Some (key, a)"
  shows "\<exists>X Y. elements s = X @ Y \<and> range_back_value k b hi s = vec_first Y \<and>
    (\<forall>x\<in>set X. beneath b hi x) \<and> (\<forall>x\<in>set Y. \<not> beneath b hi x)"
proof -
  let ?idx = "canon (cs_index s)" and ?n = "cs_nodes s a" and ?c = "contents (cs_nodes s)"
  let ?m = "length ?n - rank_past b ?n hi False"
  note ok = cset_okD [OF assms(1)]
  have runs: "sorted_keys k ?n" "ranged k (cs_nodes s) (Some (k key)) B"
    using ok(3) unfolding assms(3) by (auto simp: ranged_append node_in_def)
  have "range_back_value k b hi s = vec_first (drop ?m ?n @ ?c B)"
  proof (cases "rank_past b ?n hi False")
    case 0
    have "btm_first_from k (Excluded (k key)) ?idx = vec_first B"
      using next_entry(1) [of k A key a B] ok(4) assms(3) by simp
    then show ?thesis
      using 0 assms(6) contents_ends(2) [OF runs(2)]
      by (cases B) (simp_all add: range_back_value_def Let_def node_rank_past case_prod_unfold)
  next
    case (Suc n)
    have "drop (length ?n - Suc n) ?n \<noteq> []"
      using rank_past_le [of b ?n hi False] Suc by auto
    then show ?thesis
      using assms(6) Suc ranked_values(2) [OF Suc] by (simp add: range_back_value_def Let_def node_rank_past vec_ends_append)
  qed
  then show ?thesis
    using rank_past_split(3,4) [OF sorted_keys_grouped [OF assms(2) runs(1)], of hi] assms(4,5)
    by (intro exI [of _ "?c A @ take ?m ?n"] exI [of _ "drop ?m ?n @ ?c B"]) (auto simp: elements_def assms(3))
qed

text \<open>
  The node at the end of a range. Grouped keys may repeat across nodes; then an excluded end has
  no such node.
\<close>

definition end_ok :: "('a \<Rightarrow> 'k::linorder) \<Rightarrow> ('a \<Rightarrow> 'q::linorder) \<Rightarrow> 'q bound \<Rightarrow> bool \<Rightarrow> bool" where
  "end_ok k b hi matches \<longleftrightarrow> (if matches then borrow_ok k b else borrow_grouped k b \<and> (\<forall>u. hi \<noteq> Excluded u))"

lemma end_ok_grouped: "end_ok k b hi matches \<Longrightarrow> borrow_grouped k b"
  by (auto simp: end_ok_def borrow_ok_grouped split: if_splits)

lemma key_below_run:
  assumes "cset_ok k s" and "borrow_grouped k b" and "canon (cs_index s) = A @ (key, a) # B" and "\<forall>r\<in>set A. beneath b hi (fst r)"
  shows "\<forall>x\<in>set (contents (cs_nodes s) A). beneath b hi x"
proof -
  have "closed_run k (cs_nodes s) None A"
    using cset_okD(3) [OF assms(1)] unfolding assms(3) by (simp add: ranged_append)
  then show ?thesis
    using closed_run_key assms(4) beneath_mono borrow_groupedD [OF assms(2)] by metis
qed

lemma key_above_run:
  assumes "cset_ok k s" and "canon (cs_index s) = A @ (key, a) # B"
  shows "\<forall>x\<in>set (contents (cs_nodes s) B). k key < k x"
  using ranged_above [of k "cs_nodes s" "Some (k key)" B] cset_okD(3,4) [OF assms(1)] unfolding assms(2)
  by (auto simp: ranged_append)

lemma range_end_entry_last:
  assumes "sorted_keys (k \<circ> fst) idx" and "borrow_grouped k b" and "\<forall>r\<in>set idx. b (fst r) \<le> u"
  shows "node_for_borrowed_end b idx u False = vec_last idx"
proof (cases "filter (\<lambda>r. b (fst r) = u) idx = []")
  case True
  then show ?thesis
    using assms(3) by (auto simp: node_for_borrowed_end_def or_else_def not_less find_None_iff split: option.splits dest!: find_split)
next
  case False
  then obtain r where r: "r \<in> set idx" "b (fst r) = u"
    by (auto simp: filter_empty_conv)
  obtain L l where L: "idx = L @ [l]"
    using r(1) by (cases idx rule: rev_cases) auto
  have "k (fst r) \<le> k (fst l)"
    using assms(1) r(1) unfolding L by (auto intro: less_imp_le)
  then have "b (fst l) = u"
    using borrow_groupedD [OF assms(2)] r(2) assms(3) L by (metis antisym in_set_conv_decomp)
  moreover have "find (\<lambda>r. u < b (fst r)) idx = None"
    using assms(3) by (auto simp: find_None_iff)
  ultimately show ?thesis
    using L by (simp add: node_for_borrowed_end_def or_else_def)
qed

lemma borrowed_end_node:
  assumes "cset_ok k s" and "end_ok k b hi (cs_borrow_order_matches s)" and "canon (cs_index s) \<noteq> []"
  shows "\<exists>A key a B. canon (cs_index s) = A @ (key, a) # B \<and> (\<forall>x\<in>set (contents (cs_nodes s) A). beneath b hi x) \<and>
    (\<forall>x\<in>set (contents (cs_nodes s) B). \<not> beneath b hi x) \<and>
    range_end_entry b (canon (cs_index s)) hi (cs_borrow_order_matches s) = Some (key, a)"
proof -
  let ?idx = "canon (cs_index s)"
  note grp = end_ok_grouped [OF assms(2)]
  note split = key_below_run [OF assms(1) grp] key_above_run [OF assms(1)]
  obtain L lkey la where L: "?idx = L @ [(lkey, la)]"
    using assms(3) by (cases ?idx rule: rev_cases) auto
  have wit: ?thesis if "?idx = A @ (key, a) # B" "\<forall>x\<in>set (contents (cs_nodes s) A). beneath b hi x"
    "\<forall>x\<in>set (contents (cs_nodes s) B). \<not> beneath b hi x"
    "range_end_entry b ?idx hi (cs_borrow_order_matches s) = Some (key, a)" for A key a B
    using that by blast
  have exact: ?thesis if u: "hi = Included u \<or> hi = Excluded u" and m: "cs_borrow_order_matches s" for u
  proof -
    obtain A key a B where "route b u ?idx = Some (key, a)" and f: "focus b u ?idx A key a B"
      by (rule route_focus [OF assms(3)])
    then have "range_end_entry b ?idx hi (cs_borrow_order_matches s) = Some (key, a)"
      using u m by (auto simp: range_end_entry_def node_for_borrowed_end_def route_def or_else_def)
    moreover have idx: "?idx = A @ (key, a) # B" "\<forall>r\<in>set A. beneath b hi (fst r)"
      using f u by (auto simp: focus_def beneath_def)
    moreover have "\<not> beneath b hi x" if "x \<in> set (contents (cs_nodes s) B)" for x
    proof -
      have "k key < k x" "B \<noteq> []"
        using split(2) [OF idx(1)] that by auto
      then have "u < b x"
        using f assms(2) m by (auto simp: focus_def end_ok_def borrow_ok_def intro: le_less_trans)
      then show ?thesis
        using u by (auto simp: beneath_def)
    qed
    ultimately show ?thesis
      using split(1) [OF idx] by (intro wit) blast+
  qed
  have loose: ?thesis if u: "hi = Included u" and m: "\<not> cs_borrow_order_matches s" for u
  proof (cases "find (\<lambda>r. u < b (fst r)) ?idx")
    case None
    then have le: "\<forall>r\<in>set ?idx. b (fst r) \<le> u"
      by (auto simp: find_None_iff not_less)
    then have "range_end_entry b ?idx hi (cs_borrow_order_matches s) = Some (lkey, la)"
      using range_end_entry_last [OF cset_okD(4) [OF assms(1)] grp le] u m L by (simp add: range_end_entry_def)
    then show ?thesis
      using le u L split(1) [OF L, of hi]
        by (intro wit [of L lkey la "[]"]) (simp_all add: beneath_def)
  next
    case (Some r)
    obtain A B where idx: "?idx = A @ (fst r, snd r) # B" and A: "\<forall>r\<in>set A. \<not> u < b (fst r)" and key: "u < b (fst r)"
      using find_split [OF Some] by auto
    have "range_end_entry b ?idx hi (cs_borrow_order_matches s) = Some (fst r, snd r)"
      using Some u m by (simp add: range_end_entry_def node_for_borrowed_end_def or_else_def)
    moreover have "\<forall>x\<in>set (contents (cs_nodes s) B). u < b x"
      using split(2) [OF idx] key borrow_groupedD [OF grp] by (metis less_imp_le less_le_trans)
    ultimately show ?thesis
      using A u split(1) [OF idx, of hi]
        by (intro wit [of A "fst r" "snd r" B]) (simp_all add: beneath_def not_less not_le idx)
  qed
  show ?thesis
  proof (cases hi)
    case Unbounded
    then show ?thesis
      using L
        by (intro wit [of L lkey la "[]"]) (simp_all add: range_end_entry_def beneath_def)
  qed (use exact loose assms(2) in \<open>auto simp: end_ok_def split: if_splits\<close>)
qed
section \<open>What a range holds\<close>

lemma cursor_over:
  assumes "sorted_keys k (X @ Y)" and "x \<in> set (X @ Y)"
  shows "over (map_option k (vec_last X)) (k x) \<longleftrightarrow> x \<in> set Y"
    and "short_of (map_option k (vec_first Y)) (k x) \<longleftrightarrow> x \<in> set X"
proof -
  show "over (map_option k (vec_last X)) (k x) \<longleftrightarrow> x \<in> set Y"
    using assms by (cases X rule: rev_cases) (auto dest: less_asym)
  show "short_of (map_option k (vec_first Y)) (k x) \<longleftrightarrow> x \<in> set X"
    using assms by (cases Y) (auto dest: less_asym)
qed

lemma range_misses_sound:
  assumes "cset_ok k s" and "borrow_grouped k b" and "range_misses b lo hi s" and "x \<in> set (elements s)"
  shows "\<not> in_range b lo hi x"
proof -
  note ok = cset_okD [OF assms(1)]
  have ends: "Option.bind (vec_last (canon (cs_index s))) (\<lambda>(_, a). node_max (cs_nodes s a)) = Some (last (elements s))"
    "Option.bind (vec_first (canon (cs_index s))) (\<lambda>(_, a). node_min (cs_nodes s a)) = Some (hd (elements s))"
    using contents_ends [OF ok(3)] assms(4) unfolding elements_def [symmetric]
    by (auto simp: node_max_def node_min_def case_prod_unfold vec_last_def vec_first_def split: list.splits if_splits)
  have "k x \<le> k (last (elements s))" "k (hd (elements s)) \<le> k x"
    using sorted_keys_ends [OF ok(6) assms(4)] by blast+
  then have "b x \<le> b (last (elements s))" "b (hd (elements s)) \<le> b x"
    using borrow_groupedD [OF assms(2)] by blast+
  then show ?thesis
    using assms(3) unfolding range_misses_def ends Let_def
    by (auto simp: in_range_def above_def beneath_def split: bound.splits)
qed

lemma range_empty_sound: "range_is_empty lo hi \<Longrightarrow> \<not> in_range b lo hi x"
  by (auto simp: range_is_empty_def in_range_def above_def beneath_def split: bound.splits)

lemma range_empty_complete: "\<not> above b lo x \<Longrightarrow> \<not> beneath b hi x \<Longrightarrow> range_is_empty lo hi"
  by (auto simp: range_is_empty_def above_def beneath_def split: bound.splits)

lemma range_misses_complete:
  assumes "cset_ok k s" and "x \<in> set (elements s)" and "\<forall>x\<in>set (elements s). \<not> above b lo x"
  shows "range_misses b lo hi s"
proof -
  have "Option.bind (vec_last (canon (cs_index s))) (\<lambda>(_, a). node_max (cs_nodes s a)) = Some (last (elements s))"
    using contents_ends(1) [OF cset_okD(3) [OF assms(1)]] assms(2) unfolding elements_def [symmetric]
    by (auto simp: node_max_def case_prod_unfold vec_last_def split: if_splits)
  moreover have "\<not> above b lo (last (elements s))"
    using assms(2,3) by (metis last_in_set list.set_cases neq_Nil_conv)
  ultimately show ?thesis
    unfolding range_misses_def Let_def by (auto simp: above_def split: bound.splits)
qed

lemma cset_range_rest:
  assumes "cset_ok k s" and "settled k s" and "end_ok k b hi (cs_borrow_order_matches s)"
  shows "citer_ok k s (cset_range k b lo hi s)"
    and "citer_rest k s (cset_range k b lo hi s) = filter (in_range b lo hi) (elements s)"
proof -
  let ?it = "cset_range k b lo hi s" and ?idx = "canon (cs_index s)"
  let ?fv = "range_front_value k b lo s" and ?bv = "range_back_value k b hi s"
  note ok = cset_okD [OF assms(1)] and grp = end_ok_grouped [OF assms(3)]
  have it: "ci_front_value ?it = ?fv" "ci_back_value ?it = ?bv"
    "ci_met ?it \<longleftrightarrow> range_is_empty lo hi \<or> ?fv = None \<and> ?bv = None \<and> range_misses b lo hi s"
    by (simp_all add: cset_range_def citer_between_def Let_def)
  show "citer_ok k s ?it"
    by (simp add: citer_ok_def cset_range_def citer_between_inv Let_def)
  have met: "filter (in_range b lo hi) (elements s) = []" if "ci_met ?it"
    using that range_empty_sound range_misses_sound [OF assms(1) grp] unfolding it(3) by (fastforce simp: filter_empty_conv)
  show "citer_rest k s ?it = filter (in_range b lo hi) (elements s)"
  proof (cases "ci_met ?it \<or> elements s = []")
    case True
    then show ?thesis
      using met by (auto simp: citer_rest_def)
  next
    case False
    then have "?idx \<noteq> []"
      by (auto simp: elements_def)
    then obtain X Y where bk: "elements s = X @ Y" "?bv = vec_first Y" "\<forall>x\<in>set X. beneath b hi x" "\<forall>x\<in>set Y. \<not> beneath b hi x"
      using borrowed_end_node [OF assms(1,3)] range_back_split [OF assms(1) grp] by metis
    then have hi: "short_of (map_option k ?bv) (k x) \<longleftrightarrow> beneath b hi x" if "x \<in> set (elements s)" for x
      using cursor_over(2) [of k X Y x] ok(6) that by auto
    show ?thesis
    proof (cases "btm_first_from b lo ?idx")
      case (Some r)
      then obtain X Y where front: "elements s = X @ Y" "?fv = vec_last X" "\<forall>x\<in>set X. \<not> above b lo x" "\<forall>x\<in>set Y. above b lo x"
        using range_front_split [OF assms(1,2) grp] by (cases r) metis
      then have "over (map_option k ?fv) (k x) \<longleftrightarrow> above b lo x" if "x \<in> set (elements s)" for x
        using cursor_over(1) [of k X Y x] ok(6) that by auto
      then show ?thesis
        using False hi it(1,2) by (auto simp: citer_rest_def in_range_def intro!: filter_cong)
    next
      case None
      then have "\<forall>r\<in>set ?idx. \<not> above b lo (fst r)"
        by (auto simp: btm_first_from_def find_None_iff)
      then have out: "\<forall>x\<in>set (elements s). \<not> above b lo x"
        using closed_run_key [OF assms(2) [unfolded settled_def]] above_mono borrow_groupedD [OF grp]
        unfolding elements_def by metis
      obtain x where x: "x \<in> set (elements s)"
        using False by (cases "elements s") auto
      have "?fv = None"
        using None by (simp add: range_front_value_def first_for_borrowed_bound_def)
      moreover have "?bv = None"
        using False out bk range_empty_complete [of b lo _ hi] it(3) by (cases Y) auto
      ultimately have "ci_met ?it"
        using range_misses_complete [OF assms(1) x out] it(3) by blast
      then show ?thesis
        using False by blast
    qed
  qed
qed
end
