(* ===== verification/Interleaving_Scan.thy ===== *)
theory Interleaving_Scan
  imports Interleaving_Read Concurrent_Scan Concurrent_Range
begin

text \<open>
  Scans among inserting and removing threads: the states that a run shows at the instants of a scan
  are such as \<open>Concurrent_Scan\<close> asks for, and they are settled unless a thread has grown the last
  node and not yet moved its key.
\<close>

section \<open>Settled states\<close>

definition sys_settled :: "('a \<Rightarrow> 'k::linorder) \<Rightarrow> ('a, 'q) sys \<Rightarrow> bool" where
  "sys_settled k y \<longleftrightarrow> settled k (sy_set y) \<or> (\<exists>pc\<in>set (sy_pcs y). pends k (sy_set y) pc)"

lemma pends_last: "vec_last (canon (cs_index s')) = vec_last (canon (cs_index s)) \<Longrightarrow> pends k s' pc = pends k s pc"
  by (simp add: pends_def)

context cset_ops
begin

lemma sys_settled_moved:
  assumes "sys_settled k y" and "i < length (sy_pcs y)" and "settle_step k (sy_pcs y ! i) (sy_set y) pc' s'"
  shows "sys_settled k \<lparr> sy_set = s', sy_guard = lock', sy_pcs = (sy_pcs y)[i := pc'] \<rparr>"
proof (cases "settled k s'")
  case False
  then have st: "vec_last (canon (cs_index s')) = vec_last (canon (cs_index (sy_set y)))"
    "settled k (sy_set y) \<or> pends k (sy_set y) (sy_pcs y ! i) \<Longrightarrow> pends k s' pc'"
    using assms(3) by (auto simp: settle_step_def)
  have new: "pc' \<in> set ((sy_pcs y)[i := pc'])"
    using assms(2) by (rule set_update_memI)
  show ?thesis
  proof (cases "settled k (sy_set y) \<or> pends k (sy_set y) (sy_pcs y ! i)")
    case True
    then show ?thesis
      using st(2) new by (auto simp: sys_settled_def)
  next
    case other: False
    then obtain j where j: "j < length (sy_pcs y)" "j \<noteq> i" "pends k (sy_set y) (sy_pcs y ! j)"
      using assms(1) unfolding sys_settled_def by (metis in_set_conv_nth)
    then have "(sy_pcs y)[i := pc'] ! j = sy_pcs y ! j" "j < length ((sy_pcs y)[i := pc'])"
      by simp_all
    then have "sy_pcs y ! j \<in> set ((sy_pcs y)[i := pc'])"
      by (metis nth_mem)
    then show ?thesis
      using j(3) pends_last [OF st(1)] by (auto simp: sys_settled_def)
  qed
qed (simp add: sys_settled_def)

lemma sys_step_keeps:
  assumes "sys_ok k y" and "borrow_ok k b" and "i < length (sy_pcs y) \<Longrightarrow> fresh_split P (sy_pcs y ! i) (sy_guard y)"
    and "sys_step emit P b i y = Inr y'"
  shows "node_frame (sy_set y) (canon (cs_index (sy_set y))) (sy_set y') (canon (cs_index (sy_set y')))"
    and "sys_settled k y \<Longrightarrow> sys_settled k y'" and "same_config (sy_set y) (sy_set y')"
proof -
  show "same_config (sy_set y) (sy_set y')"
    by (rule sys_step_cases [OF assms(1-3), where emit = emit]) (use assms(4) in \<open>auto simp: pc_step_ok_def\<close>)
  show "node_frame (sy_set y) (canon (cs_index (sy_set y))) (sy_set y') (canon (cs_index (sy_set y')))"
    by (rule sys_step_cases [OF assms(1-3), where emit = emit]) (use assms(4) in \<open>auto simp: pc_step_ok_def\<close>)
  show "sys_settled k y'" if "sys_settled k y"
    by (rule sys_step_cases [OF assms(1-3), where emit = emit])
      (use assms(4) that sys_settled_moved in \<open>auto simp: pc_step_ok_def\<close>)
qed

end

lemma fresh_run_nth:
  assumes "fresh_run emit P b is y" and "n < length is" and "sys_run emit P b (take n is) y = Inr y'" and "is ! n < length (sy_pcs y')"
  shows "fresh_split P (sy_pcs y' ! (is ! n)) (sy_guard y')"
  using assms
proof (induction "is" arbitrary: y n)
  case (Cons i "is")
  show ?case
  proof (cases n)
    case 0
    then show ?thesis
      using Cons.prems by auto
  next
    case (Suc m)
    then obtain y1 where "sys_step emit P b i y = Inr y1" "sys_run emit P b (take m is) y1 = Inr y'"
      using Cons.prems(3) by (auto simp: rbind_eq_Inr)
    then show ?thesis
      using Cons.IH [of y1 m] Cons.prems Suc by auto
  qed
qed simp

text \<open>A thread with a pending rekey is the only reason for a set not to be settled.\<close>

context cset_ops
begin

lemma sys_state_keeps:
  assumes "borrow_ok k b" and "cset_ok k s" and "fresh_run emit P b is (sys_start s cs)"
  defines "st \<equiv> sys_state emit P b is (sys_start s cs)"
  shows "node_frame (sy_set (st n)) (canon (cs_index (sy_set (st n)))) (sy_set (st (Suc n))) (canon (cs_index (sy_set (st (Suc n)))))"
    and "sys_settled k (st n) \<Longrightarrow> sys_settled k (st (Suc n))" and "same_config (sy_set (st n)) (sy_set (st (Suc n)))"
proof -
  have "st (Suc n) = st n" if "\<not> n < length is"
    using that by (simp add: st_def sys_state_def)
  moreover have "node_frame (sy_set (st n)) (canon (cs_index (sy_set (st n)))) (sy_set (st (Suc n))) (canon (cs_index (sy_set (st (Suc n)))))"
    "sys_settled k (st n) \<Longrightarrow> sys_settled k (st (Suc n))" "same_config (sy_set (st n)) (sy_set (st (Suc n)))" if n: "n < length is"
    using sys_step_keeps [OF sys_state_ok(2) [OF assms(1-3)] assms(1) fresh_run_nth [OF assms(3) n sys_state_ok(1) [OF assms(1-3)]]
        sys_state_step [OF assms(1-3) n]] unfolding st_def by auto
  ultimately show "node_frame (sy_set (st n)) (canon (cs_index (sy_set (st n)))) (sy_set (st (Suc n))) (canon (cs_index (sy_set (st (Suc n)))))"
    "sys_settled k (st n) \<Longrightarrow> sys_settled k (st (Suc n))" "same_config (sy_set (st n)) (sy_set (st (Suc n)))"
    by fastforce+
qed

lemma sys_state_config:
  assumes "borrow_ok k b" and "cset_ok k s" and "fresh_run emit P b is (sys_start s cs)"
  shows "same_config s (sy_set (sys_state emit P b is (sys_start s cs) n))"
proof (induction n)
  case (Suc n)
  then show ?case
    using sys_state_keeps(3) [OF assms] same_config_trans by blast
qed (simp add: sys_state_def sys_start_def)

lemma sys_state_settled:
  assumes "borrow_ok k b" and "cset_ok k s" and "settled k s" and "fresh_run emit P b is (sys_start s cs)"
    and "\<forall>pc\<in>set (sy_pcs (sys_state emit P b is (sys_start s cs) n)). \<not> pends k (sy_set (sys_state emit P b is (sys_start s cs) n)) pc"
  shows "settled k (sy_set (sys_state emit P b is (sys_start s cs) n))"
proof -
  have "sys_settled k (sys_state emit P b is (sys_start s cs) n)"
  proof (induction n)
    case 0
    then show ?case
      using assms(3) by (simp add: sys_state_def sys_settled_def sys_start_def)
  next
    case (Suc n)
    then show ?case
      by (rule sys_state_keeps(2) [OF assms(1,2,4)])
  qed
  then show ?thesis
    using assms(5) by (simp add: sys_settled_def)
qed

lemma sys_state_sorted:
  assumes "borrow_ok k b" and "cset_ok k s" and "fresh_run emit P b is (sys_start s cs)"
  shows "sorted_keys k (elements (sy_set (sys_state emit P b is (sys_start s cs) n)))"
proof -
  let ?y = "sys_state emit P b is (sys_start s cs) n"
  have "lock_ok k (sy_set ?y) (sy_guard ?y)"
    using sys_state_ok(2) [OF assms, of n] by (simp add: sys_ok_def)
  then show ?thesis
    using cset_okD(6) open_okD(6) open_elements_elements by (cases "sy_guard ?y") (fastforce simp: lock_ok_def)+
qed

section \<open>What a scan sees of a run\<close>

lemma sys_state_lineage:
  assumes "borrow_ok k b" and "cset_ok k s" and "fresh_run emit P b is (sys_start s cs)"
    and "\<And>n. d \<le> n \<Longrightarrow> K \<subseteq> k ` set (elements (sy_set (sys_state emit P b is (sys_start s cs) n)))" and "d \<le> n" and "n \<le> m"
  shows "lineage k K (sy_set (sys_state emit P b is (sys_start s cs) n)) (sy_set (sys_state emit P b is (sys_start s cs) m))"
  using assms(6)
proof (induction m rule: dec_induct)
  case (step m)
  have "lineage k K (sy_set (sys_state emit P b is (sys_start s cs) m)) (sy_set (sys_state emit P b is (sys_start s cs) (Suc m)))"
    by (rule frame_lineage [OF sys_state_keeps(1) [OF assms(1-3)] sys_state_sorted [OF assms(1-3)] assms(4)])
      (use step(1) assms(5) in simp)
  then show ?case
    using step(3) lineage_trans by blast
qed simp

lemma run_seen:
  fixes "is" s cs f emit b
  defines "st \<equiv> \<lambda>n. sys_state emit P b is (sys_start s cs) n"
  assumes "borrow_ok k b" and "cset_ok k s" and "fresh_run emit P b is (sys_start s cs)" and "mono f" and "\<forall>t. sy_guard (st (f t)) = None"
  shows "seen k {q. \<forall>n\<ge>f 0. q \<in> k ` set (elements (sy_set (st n)))} (\<Union>n\<in>range f. set (elements (sy_set (st n)))) (\<lambda>t. sy_set (st (f t)))"
proof -
  let ?K = "{q. \<forall>n\<ge>f 0. q \<in> k ` set (elements (sy_set (st n)))}"
  have le: "f 0 \<le> f t" "f t \<le> f (Suc t)" for t
    using assms(5) by (simp_all add: monoD)
  have "cset_ok k (sy_set (st (f t)))" for t
    using sys_state_ok(2) [OF assms(2-4), of "f t"] assms(6) by (simp add: st_def sys_ok_def lock_ok_def)
  moreover have "lineage k ?K (sy_set (st (f t))) (sy_set (st (f (Suc t))))" for t
    unfolding st_def by (rule sys_state_lineage [OF assms(2-4) _ le]) (auto simp: st_def)
  ultimately show ?thesis
    using le(1) by (auto simp: seen_def)
qed

end

text \<open>The run is finite, so what the scan sees stops changing.\<close>

lemma sys_state_stops:
  assumes "mono (f :: nat \<Rightarrow> nat)"
  obtains T where "\<forall>u\<ge>T. sys_state emit P b is y (f u) = sys_state emit P b is y (f T)"
proof -
  let ?g = "\<lambda>t. min (f t) (length is)"
  have "\<forall>t. ?g t < Suc (length is)"
    by (simp add: min_def)
  then obtain T where "\<forall>t. ?g t \<le> ?g T"
    using ex_has_greatest_nat [of "\<lambda>_. True" 0 ?g "Suc (length is)"] by auto
  moreover have "?g T \<le> ?g u" if "T \<le> u" for u
    using monoD [OF assms that] by (auto simp: min_def)
  ultimately have "\<forall>u\<ge>T. ?g u = ?g T"
    by (meson antisym)
  moreover have "sys_state emit P b is y (f u) = sys_state emit P b is y (?g u)" for u
    by (simp add: sys_state_def min_def)
  ultimately show thesis
    using that by metis
qed

lemma finite_seen:
  fixes f :: "nat \<Rightarrow> nat"
  shows "finite (\<Union>n\<in>range f. set (elements (sy_set (sys_state emit P b is y n))))"
proof -
  have "sys_state emit P b is y n = sys_state emit P b is y (min n (length is))" for n
    by (simp add: sys_state_def min_def)
  then have "(\<Union>n\<in>range f. set (elements (sy_set (sys_state emit P b is y n)))) \<subseteq>
      (\<Union>n\<in>{..length is}. set (elements (sy_set (sys_state emit P b is y n))))"
    by (smt (verit, best) UN_iff atMost_iff min.cobounded2 subsetI)
  then show ?thesis
    by (rule finite_subset) simp
qed

end
