(* ===== verification/Concurrent_Remove_Range.thy ===== *)
theory Concurrent_Remove_Range
  imports Concurrent_Range
begin

text \<open>
  \<open>remove_range\<close> under the structural write guard: the front and the back node are trimmed, the
  nodes between them leave the index, and exactly the elements inside the bounds are gone.
\<close>

section \<open>Taking routes out of the index\<close>

lemma guard_canon:
  assumes "guard_ok k g"
  shows "sorted_keys (k \<circ> fst) (tg_canon g)" "distinct (map snd (tg_canon g))"
  using assms guard_okD(1) [of k g] in_stepD(1,2) by blast+

lemma tg_remove_mid:
  assumes "guard_ok k g" and "tg_publish g" and "tg_canon g = A @ (key, a) # B"
  shows "\<exists>g'. tg_remove k g (k key) = Inr (Some a, g') \<and> guard_step k g (A @ B) g'"
proof -
  have ne: "\<forall>x\<in>set A. (k \<circ> fst) x \<noteq> k key" "\<forall>x\<in>set B. (k \<circ> fst) x \<noteq> k key"
    using guard_canon(1) [OF assms(1)] unfolding assms(3) by auto
  have idx: "tg_canon g = A @ [(key, a)] @ B"
    using assms(3) by simp
  have "btm_get k (k key) (tg_canon g) = Some a" "del_key (k \<circ> fst) (k key) (tg_canon g) = A @ B"
    unfolding idx btm_get_mid [OF ne] del_key_mid [OF absent_key [OF ne(1)] absent_key [OF ne(2)]]
    by (simp_all add: btm_get_def find_key_def del_key_def)
  then show ?thesis
    using tg_remove_ok [OF assms(1,2)] by fastforce
qed

lemma remove_middle_ok:
  assumes "guard_ok k g" and "tg_publish g" and "tg_canon g = A @ M @ B"
  shows "\<exists>s' g'. remove_middle k (map fst M) s g = Inr (s', g') \<and> guard_step k g (A @ B) g' \<and>
    s' = s\<lparr> cs_nodes := (\<lambda>a. if a \<in> snd ` set M then [] else cs_nodes s a) \<rparr>"
  using assms
proof (induction M arbitrary: s g)
  case Nil
  then show ?case
    by (simp add: guard_step_def)
next
  case (Cons r M)
  obtain key a where r: "r = (key, a)" by force
  obtain g1 where g1: "tg_remove k g (k key) = Inr (Some a, g1)" "guard_step k g (A @ M @ B) g1"
    using tg_remove_mid [OF Cons.prems(1,2), of A key a "M @ B"] Cons.prems(3) r by auto
  note st = guard_stepD [OF g1(2)]
  obtain s' g' where "remove_middle k (map fst M) (set_node a [] s) g1 = Inr (s', g')" "guard_step k g1 (A @ B) g'"
    "s' = (set_node a [] s)\<lparr> cs_nodes := (\<lambda>x. if x \<in> snd ` set M then [] else cs_nodes (set_node a [] s) x) \<rparr>"
    using Cons.IH [of g1 "set_node a [] s"] st Cons.prems(2) by auto
  then show ?case
    using g1 guard_step_trans [OF g1(2)] r by (auto simp: set_node_def fun_eq_iff)
qed

section \<open>The routes that stay\<close>

lemma run_end_mono: "closed_run k nodes lo M \<Longrightarrow> over (run_end k lo M) x \<Longrightarrow> over lo x"
proof (induction M arbitrary: lo)
  case (Cons r M)
  obtain key a where r: "r = (key, a)" by force
  then have n: "node_in k (nodes a) lo (Some (k key))" and "over (Some (k key)) x"
    using Cons.prems Cons.IH [of "Some (k key)"] by auto
  moreover obtain y where "y \<in> set (nodes a)"
    using n by (cases "nodes a") (auto simp: node_in_def)
  ultimately show ?case
    by (auto simp: node_in_def intro: over_trans less_imp_le)
qed simp

lemma node_in_sub:
  assumes "node_in k n lo (Some h)" and "set n' \<subseteq> set n" and "sorted_keys k n'" and "n' \<noteq> []"
  shows "node_in k n' lo (Some h)" and "node_in k n' lo (Some (k (last n')))" and "k (last n') \<le> h" and "over lo (k (last n'))"
proof -
  have "last n' \<in> set n"
    using assms(2,4) by auto
  then show "node_in k n' lo (Some h)" "k (last n') \<le> h" "over lo (k (last n'))"
    using assms by (auto simp: node_in_def)
  show "node_in k n' lo (Some (k (last n')))"
    using assms sorted_keys_ends(1) [OF assms(3)] by (auto simp: node_in_def)
qed

text \<open>One node trimmed, and two nodes trimmed with everything between them gone.\<close>

definition kept :: "'a list \<Rightarrow> 'a \<Rightarrow> addr \<Rightarrow> 'a route list" where
  "kept n key a = (if n = [] then [] else [(key, a)])"

lemma kept_contents [simp]: "contents nodes (kept n key a) = (if n = [] then [] else nodes a)"
  by (simp add: kept_def)

lemma trimmed_one:
  assumes "node_in k n0 lo (Some (k key))" and "set n \<subseteq> set n0" and "sorted_keys k n" and "nodes' a = n"
    and "key' = key \<or> key' = last n" and "X = kept n key' a"
  shows "closed_run k nodes' lo X" and "\<And>x. k key < x \<Longrightarrow> over (run_end k lo X) x"
proof -
  have lo: "over lo x" if "k key < x" for x
    using run_end_mono [of k "\<lambda>_. n0" lo "[(key, a)]" x] assms(1) that by simp
  show "closed_run k nodes' lo X"
    using node_in_sub(1,2) [OF assms(1-3)] assms(4-) by (auto simp: kept_def)
  show "over (run_end k lo X) x" if "k key < x" for x
    using lo [OF that] node_in_sub(3) [OF assms(1-3)] assms(5,6) that by (auto simp: kept_def intro: le_less_trans)
qed

lemma trimmed_two:
  assumes "closed_run k nodes lo ((fkey, fa) # M @ [(bkey, ba)])"
    and "set f \<subseteq> set (nodes fa)" "sorted_keys k f" "nodes' fa = f" and "set l \<subseteq> set (nodes ba)" "sorted_keys k l" "nodes' ba = l"
    and "X = kept f (last f) fa @ kept l bkey ba"
  shows "closed_run k nodes' lo X" and "\<And>x. k bkey < x \<Longrightarrow> over (run_end k lo X) x"
proof -
  have f: "node_in k (nodes fa) lo (Some (k fkey))" and run: "closed_run k nodes (Some (k fkey)) (M @ [(bkey, ba)])"
    using assms(1) by simp_all
  have one: "closed_run k nodes' lo (kept f (last f) fa)" "\<And>x. k fkey < x \<Longrightarrow> over (run_end k lo (kept f (last f) fa)) x"
    by (rule trimmed_one [OF f assms(2,3), of nodes' fa "last f"]; simp add: assms(4))+
  have l: "node_in k (nodes ba) (run_end k (Some (k fkey)) M) (Some (k bkey))"
    using run by simp
  have mono: "over (run_end k lo (kept f (last f) fa)) x" if "over (run_end k (Some (k fkey)) M) x" for x
    using run_end_mono [of k nodes "Some (k fkey)" M x] run that one(2) by simp
  from l mono have l': "node_in k (nodes ba) (run_end k lo (kept f (last f) fa)) (Some (k bkey))"
    by (rule node_in_mono)
  let ?lo = "run_end k lo (kept f (last f) fa)"
  have two: "closed_run k nodes' ?lo (kept l bkey ba)" "\<And>x. k bkey < x \<Longrightarrow> over (run_end k ?lo (kept l bkey ba)) x"
    by (rule trimmed_one [OF l' assms(5,6), of nodes' ba bkey]; simp add: assms(7))+
  show "closed_run k nodes' lo X" "\<And>x. k bkey < x \<Longrightarrow> over (run_end k lo X) x"
    using one(1) two by (simp_all add: assms(8))
qed

lemma trimmed_state:
  assumes "open_ok k s g" and "closed_run k (cs_nodes s) None (tg_canon g)" and "tg_canon g = A @ M @ [(key, a)] @ B"
    and "guard_step k g (A @ X @ B) g'" and "\<forall>r\<in>set A \<union> set B. cs_nodes s' (snd r) = cs_nodes s (snd r)"
    and "cs_next s' = cs_next s" and "snd ` set X \<subseteq> snd ` set (M @ [(key, a)])"
    and "closed_run k (cs_nodes s') (run_end k None A) X" and "\<And>x. k key < x \<Longrightarrow> over (run_end k (run_end k None A) X) x"
  shows "open_ok k s' g' \<and> closed_run k (cs_nodes s') None (tg_canon g') \<and>
    open_elements s' g' = contents (cs_nodes s) A @ contents (cs_nodes s') X @ contents (cs_nodes s) B"
proof -
  note st = guard_stepD [OF assms(4)]
  have same: "\<forall>r\<in>set A. cs_nodes s' (snd r) = cs_nodes s (snd r)" "\<forall>r\<in>set B. cs_nodes s' (snd r) = cs_nodes s (snd r)"
    using assms(5) by auto
  have A: "closed_run k (cs_nodes s') None A" and B: "closed_run k (cs_nodes s') (Some (k key)) B"
    using assms(2) closed_run_cong [OF same(1), of k None] closed_run_cong [OF same(2), of k "Some (k key)"]
    unfolding assms(3) by simp_all
  have "closed_run k (cs_nodes s') (run_end k (run_end k None A) X) B"
    using B assms(9) by (cases B) (auto simp: node_in_def)
  then have closed: "closed_run k (cs_nodes s') None (tg_canon g')"
    using A assms(8) by (simp add: st(1))
  have "snd r < cs_next s" if "r \<in> set A \<union> set X \<union> set B" for r
  proof -
    have "snd r \<in> snd ` set (tg_canon g)"
      using that assms(7) unfolding assms(3) by auto
    then show ?thesis
      using open_okD(5) [OF assms(1)] by auto
  qed
  then have "open_ok k s' g'"
    using closed_ranged [OF closed] st(1,2) assms(6) by (auto simp: open_ok_def heap_ok_def)
  then show ?thesis
    using closed contents_cong [OF same(1)] contents_cong [OF same(2)] by (simp add: open_elements_def st(1))
qed

section \<open>Removing a range\<close>

lemma removed_prefix_len_eq: "removed_prefix_len b hi xs = length xs - rank_past b xs hi False"
  by (cases hi) (simp_all add: removed_prefix_len_def)

lemma range_positions:
  assumes "sorted (map b n)" and "f = rank_past b n lo True" and "l = removed_prefix_len b hi n"
  shows "f \<le> length n" and "l \<le> length n"
    and "l \<le> f \<Longrightarrow> filter (\<lambda>x. \<not> in_range b lo hi x) n = n"
    and "f < l \<Longrightarrow> filter (\<lambda>x. \<not> in_range b lo hi x) n = take f n @ drop l n"
    and "\<forall>x\<in>set (take f n). \<not> above b lo x" and "\<forall>x\<in>set (drop f n). above b lo x"
    and "\<forall>x\<in>set (take l n). beneath b hi x" and "\<forall>x\<in>set (drop l n). \<not> beneath b hi x"
proof -
  show split: "\<forall>x\<in>set (take f n). \<not> above b lo x" "\<forall>x\<in>set (drop f n). above b lo x"
    "\<forall>x\<in>set (take l n). beneath b hi x" "\<forall>x\<in>set (drop l n). \<not> beneath b hi x"
    using rank_past_split(1,2) [OF assms(1), of lo] rank_past_split(3,4) [OF assms(1), of hi] assms(2,3)
    by (simp_all add: removed_prefix_len_eq)
  show "f \<le> length n" "l \<le> length n"
    using rank_past_le [of b n lo True] by (simp_all add: assms(2,3) removed_prefix_len_eq)
  show "filter (\<lambda>x. \<not> in_range b lo hi x) n = n" if "l \<le> f"
  proof -
    have "x \<in> set (take f n) \<or> x \<in> set (drop l n)" if "x \<in> set n" for x
      using that set_drop_subset_set_drop [OF \<open>l \<le> f\<close>, of n] append_take_drop_id [of f n] by (metis Un_iff set_append subsetD)
    then show ?thesis
      using split(1,4) by (auto simp: filter_id_conv in_range_def)
  qed
  show "filter (\<lambda>x. \<not> in_range b lo hi x) n = take f n @ drop l n" if "f < l"
  proof -
    have mid: "take (l - f) (drop f n) = drop f (take l n)"
      by (simp add: drop_take)
    have "\<forall>x\<in>set (take (l - f) (drop f n)). in_range b lo hi x"
      using split(2,3) in_set_takeD [of _ "l - f" "drop f n"] in_set_dropD [of _ f "take l n"] mid
      by (fastforce simp: in_range_def)
    moreover have "n = take f n @ take (l - f) (drop f n) @ drop l n"
      using that by (metis append_take_drop_id drop_drop le_add_diff_inverse2 order_less_imp_le)
    ultimately show ?thesis
      using split(1,4) by (metis (mono_tags, lifting) append_Nil filter_False filter_True filter_append in_range_def)
  qed
qed

text \<open>Putting the trimmed front node back, and trimming the back node.\<close>

lemma insert_kept:
  assumes "guard_ok k g" and "tg_publish g" and "tg_canon g = A @ B" and "n \<noteq> []"
    and "\<forall>r\<in>set A. k (fst r) < k (last n)" and "\<forall>r\<in>set B. k (last n) < k (fst r)" and "\<forall>r\<in>set A \<union> set B. snd r \<noteq> a"
  shows "\<exists>g'. tg_insert k g (last n) a = Inr (None, g') \<and> guard_step k g (A @ kept n (last n) a @ B) g'"
  using tg_insert_mid [OF assms(1-3,5-7)] assms(4) by (simp add: kept_def)

lemma trim_front:
  assumes "guard_ok k g" and "tg_publish g" and "tg_canon g = A @ B" and "\<forall>r\<in>set A \<union> set B. snd r \<noteq> a"
    and "n \<noteq> [] \<Longrightarrow> \<forall>r\<in>set A. k (fst r) < k (last n)" and "n \<noteq> [] \<Longrightarrow> \<forall>r\<in>set B. k (last n) < k (fst r)"
  shows "\<exists>r g'. (if \<not> node_is_empty n then rbind (unwrap (vec_last n)) (\<lambda>m. tg_insert k g m a) else Inr (None, g)) = Inr (r, g') \<and>
    guard_step k g (A @ kept n (last n) a @ B) g'"
proof (cases "n = []")
  case True
  then show ?thesis
    using assms(1,3) by (simp add: node_is_empty_def kept_def guard_step_def)
next
  case False
  obtain g' where "tg_insert k g (last n) a = Inr (None, g')" "guard_step k g (A @ kept n (last n) a @ B) g'"
    using insert_kept [OF assms(1-3) False assms(5,6) [OF False] assms(4)] by blast
  then show ?thesis
    using False by (simp add: node_is_empty_def vec_last_def)
qed

lemma trim_back:
  assumes "guard_ok k g" and "tg_publish g" and "tg_canon g = A @ (key, a) # B" and "l = drop p (cs_nodes s a)"
  shows "\<exists>g'. (if length (cs_nodes s a) \<le> p then rbind (tg_remove k g (k key)) (\<lambda>(_, g4). Inr ((), set_node a [] s, g4))
      else if 0 < p then rbind (vec_drain (cs_nodes s a) 0 p) (\<lambda>node'. Inr ((), set_node a node' s, g))
      else Inr ((), s, g)) = Inr ((), set_node a l s, g') \<and> guard_step k g (A @ kept l key a @ B) g'"
proof (cases "length (cs_nodes s a) \<le> p")
  case True
  obtain g' where "tg_remove k g (k key) = Inr (Some a, g')" "guard_step k g (A @ B) g'"
    using tg_remove_mid [OF assms(1-3)] by blast
  then show ?thesis
    using True by (simp add: assms(4) kept_def)
next
  case False
  then show ?thesis
    using assms(1,3) by (auto simp: set_node_def assms(4) kept_def vec_drain_def guard_step_def)
qed

lemma between_keys:
  assumes "open_ok k s g" and "tg_canon g = A @ (key, a) # B" and "closed_run k (cs_nodes s) None (tg_canon g)"
    and "x \<in> set (cs_nodes s a)"
  shows "\<forall>r\<in>set A. k (fst r) < k x" and "\<forall>r\<in>set B. k x < k (fst r)" and "\<forall>r\<in>set A \<union> set B. snd r \<noteq> a"
proof -
  note ok = open_okD [OF assms(1)]
  have "over (run_end k None A) (k x)" "k x \<le> k key"
    using assms(3,4) unfolding assms(2) by (auto simp: node_in_def)
  then show "\<forall>r\<in>set A. k (fst r) < k x" "\<forall>r\<in>set B. k x < k (fst r)"
    using ok(3) over_run_end [of k A None "k x"] unfolding assms(2) by (auto intro: le_less_trans)
  show "\<forall>r\<in>set A \<union> set B. snd r \<noteq> a"
    using ok(4) unfolding assms(2) by force
qed

lemma remove_within_run:
  assumes "open_ok k s g" and "tg_publish g" and "closed_run k (cs_nodes s) None (tg_canon g)"
    and "tg_canon g = A @ (key, a) # B" and "f = rank_past b (cs_nodes s a) lo True" and "l = removed_prefix_len b hi (cs_nodes s a)"
    and "f < l" and "l \<le> length (cs_nodes s a)" and "n = take f (cs_nodes s a) @ drop l (cs_nodes s a)"
  shows "\<exists>g'. remove_within k b lo hi (key, a) s g = Inr ((), set_node a n s, g') \<and>
    guard_step k g (A @ kept n (if l = length (cs_nodes s a) then last n else key) a @ B) g'"
proof -
  have drain: "vec_drain (cs_nodes s a) f l = Inr n"
    using assms(7-) by (simp add: vec_drain_def)
  show ?thesis
  proof (cases "l = length (cs_nodes s a)")
    case True
    obtain g1 where g1: "tg_remove k g (k key) = Inr (Some a, g1)" "guard_step k g (A @ B) g1"
      using tg_remove_mid [OF open_okD(1) [OF assms(1)] assms(2,4)] by blast
    note st = guard_stepD [OF g1(2)]
    show ?thesis
    proof (cases "n = []")
      case empty: True
      then show ?thesis
        using True g1 drain assms(5-7) by (simp add: remove_within_def Let_def kept_def)
    next
      case ne: False
      then have "last n \<in> set (cs_nodes s a)"
        using assms(9) set_take_subset [of f "cs_nodes s a"] set_drop_subset [of l "cs_nodes s a"] last_in_set [OF ne] by auto
      note between = between_keys [OF assms(1,4,3) this]
      obtain g2 where "tg_insert k g1 (last n) a = Inr (None, g2)" "guard_step k g1 (A @ kept n (last n) a @ B) g2"
        using insert_kept [OF st(2) _ st(1) ne between] st(3) assms(2) by auto
      then show ?thesis
        using True ne g1 drain guard_step_trans [OF g1(2)] assms(5-7)
        by (auto simp: remove_within_def Let_def vec_last_def)
    qed
  next
    case False
    then have "n \<noteq> []"
      using assms(8,9) by simp
    then show ?thesis
      using False drain assms(4-7) open_okD(1) [OF assms(1)]
      by (simp add: remove_within_def Let_def kept_def guard_step_def)
  qed
qed

lemma remove_within_ok:
  assumes "open_ok k s g" and "tg_publish g" and "closed_run k (cs_nodes s) None (tg_canon g)"
    and "tg_canon g = A @ (key, a) # B" and "borrow_grouped k b"
  shows "\<exists>s' g'. remove_within k b lo hi (key, a) s g = Inr ((), s', g') \<and> open_ok k s' g' \<and>
    closed_run k (cs_nodes s') None (tg_canon g') \<and> same_config s s' \<and>
    open_elements s' g' = contents (cs_nodes s) A @ filter (\<lambda>x. \<not> in_range b lo hi x) (cs_nodes s a) @ contents (cs_nodes s) B"
proof -
  let ?n = "cs_nodes s a"
  define f l where "f = rank_past b ?n lo True" and "l = removed_prefix_len b hi ?n"
  have n: "node_in k ?n (run_end k None A) (Some (k key))"
    using assms(3) unfolding assms(4) by simp
  then have srt: "sorted_keys k ?n" "sorted (map b ?n)"
    using sorted_keys_grouped [OF assms(5)] by (auto simp: node_in_def)
  note pos = range_positions [OF srt(2) f_def l_def]
  show ?thesis
  proof (cases "f < l")
    case False
    then show ?thesis
      using pos(3) assms(1,3,4) by (simp add: remove_within_def f_def l_def Let_def open_elements_def)
  next
    case True
    define n' where "n' = take f ?n @ drop l ?n"
    note eff = pos(4) [OF True, folded n'_def]
    have sub: "set n' \<subseteq> set ?n" "sorted_keys k n'"
      using eff sorted_keys_filter [OF srt(1)] by (metis filter_is_subset, metis)
    let ?s = "set_node a n' s" and ?key = "if l = length ?n then last n' else key"
    have pre: "\<forall>r\<in>set A \<union> set B. cs_nodes ?s (snd r) = cs_nodes s (snd r)" "cs_nodes ?s a = n'"
      using open_okD(4) [OF assms(1)] unfolding assms(4) by (auto simp: set_node_def)
    obtain g' where g': "remove_within k b lo hi (key, a) s g = Inr ((), ?s, g')" "guard_step k g (A @ kept n' ?key a @ B) g'"
      using remove_within_run [OF assms(1-4) f_def l_def True pos(2) n'_def] by blast
    have "open_ok k ?s g' \<and> closed_run k (cs_nodes ?s) None (tg_canon g') \<and>
        open_elements ?s g' = contents (cs_nodes s) A @ contents (cs_nodes ?s) (kept n' ?key a) @ contents (cs_nodes s) B"
      by (rule trimmed_state [OF assms(1,3) _ g'(2) pre(1), of "[]" key a])
        (use assms(4) trimmed_one [OF n sub, of "cs_nodes ?s" a ?key] pre(2) in \<open>auto simp: kept_def set_node_def\<close>)
    then show ?thesis
      using g'(1) eff pre(2) by (auto simp: same_config_def set_node_def)
  qed
qed

lemma middle_filter:
  assumes "sorted_keys (k \<circ> fst) (A @ (fkey, fa) # M @ (bkey, ba) # B)"
  shows "filter (\<lambda>r. k fkey < k (fst r) \<and> k (fst r) < k bkey) (A @ (fkey, fa) # M @ (bkey, ba) # B) = M"
proof -
  have "\<forall>r\<in>set A. k (fst r) < k fkey" "\<forall>r\<in>set M. k fkey < k (fst r) \<and> k (fst r) < k bkey" "\<forall>r\<in>set B. k bkey < k (fst r)"
    using assms by auto
  then have "filter (\<lambda>r. k fkey < k (fst r) \<and> k (fst r) < k bkey) A = []" "filter (\<lambda>r. k fkey < k (fst r) \<and> k (fst r) < k bkey) B = []"
    "filter (\<lambda>r. k fkey < k (fst r) \<and> k (fst r) < k bkey) M = M"
    by (intro filter_False filter_True; force dest: less_asym)+
  then show ?thesis
    by simp
qed

lemma remove_across_run:
  assumes "open_ok k s g" and "tg_publish g" and "closed_run k (cs_nodes s) None (tg_canon g)"
    and idx: "tg_canon g = A @ (fkey, fa) # M @ (bkey, ba) # B"
    and "f = take (rank_past b (cs_nodes s fa) lo True) (cs_nodes s fa)" and "l = drop (removed_prefix_len b hi (cs_nodes s ba)) (cs_nodes s ba)"
  shows "\<exists>s' g'. remove_across k b lo hi (fkey, fa) (bkey, ba) s g = Inr ((), s', g') \<and>
    guard_step k g (A @ (kept f (last f) fa @ kept l bkey ba) @ B) g' \<and> cs_nodes s' fa = f \<and> cs_nodes s' ba = l \<and>
    (\<forall>r\<in>set A \<union> set B. cs_nodes s' (snd r) = cs_nodes s (snd r)) \<and> cs_next s' = cs_next s \<and> same_config s s'"
proof -
  let ?fp = "rank_past b (cs_nodes s fa) lo True" and ?bp = "removed_prefix_len b hi (cs_nodes s ba)"
  note ok = open_okD [OF assms(1)]
  have "map fst (filter (\<lambda>r. k fkey < k (fst r) \<and> k (fst r) < k bkey) (tg_canon g)) = map fst M"
    using middle_filter [of k A fkey fa M bkey ba B] ok(3) unfolding idx by simp
  moreover obtain s1 g1 where s1: "remove_middle k (map fst M) s g = Inr (s1, g1)" "guard_step k g (A @ (fkey, fa) # (bkey, ba) # B) g1"
    "s1 = s\<lparr> cs_nodes := (\<lambda>a. if a \<in> snd ` set M then [] else cs_nodes s a) \<rparr>"
    using remove_middle_ok [OF ok(1) assms(2), of "A @ [(fkey, fa)]" M "(bkey, ba) # B" s] idx by auto
  note st1 = guard_stepD [OF s1(2)]
  obtain g2 where g2: "tg_remove k g1 (k fkey) = Inr (Some fa, g2)" "guard_step k g1 (A @ (bkey, ba) # B) g2"
    using tg_remove_mid [OF st1(2) _ st1(1)] st1(3) assms(2) by auto
  note st2 = guard_stepD [OF g2(2)]
  have addr: "fa \<notin> snd ` set M" "ba \<notin> snd ` set M" "fa \<noteq> ba" "\<forall>r\<in>set A \<union> set B. snd r \<notin> snd ` set M \<and> snd r \<noteq> fa \<and> snd r \<noteq> ba"
    using ok(4) unfolding idx by auto
  have drain: "vec_drain (cs_nodes s1 fa) ?fp (length (cs_nodes s1 fa)) = Inr f"
    using rank_past_le [of b "cs_nodes s fa" lo True] addr(1) by (simp add: s1(3) vec_drain_def assms(5))
  note between = between_keys [OF assms(1) idx assms(3)]
  have fin: "last f \<in> set (cs_nodes s fa)" if "f \<noteq> []"
    using assms(5) set_take_subset [of ?fp "cs_nodes s fa"] last_in_set [OF that] by auto
  have c: "\<forall>r\<in>set A \<union> set ((bkey, ba) # B). snd r \<noteq> fa" "f \<noteq> [] \<Longrightarrow> \<forall>r\<in>set A. k (fst r) < k (last f)"
    "f \<noteq> [] \<Longrightarrow> \<forall>r\<in>set ((bkey, ba) # B). k (last f) < k (fst r)"
    using addr(3,4) between(1,2) [OF fin] by auto
  obtain r g3 where g3: "(if \<not> node_is_empty f then rbind (unwrap (vec_last f)) (\<lambda>m. tg_insert k g2 m fa) else Inr (None, g2)) = Inr (r, g3)"
    "guard_step k g2 (A @ kept f (last f) fa @ (bkey, ba) # B) g3"
    using trim_front [OF st2(2) _ st2(1) c] st2(3) st1(3) assms(2) by blast
  note st3 = guard_stepD [OF g3(2)]
  let ?s2 = "set_node fa f s1"
  have "l = drop ?bp (cs_nodes ?s2 ba)"
    using addr by (simp add: set_node_def s1(3) assms(6))
  then obtain g' where g': "(if length (cs_nodes ?s2 ba) \<le> ?bp
      then rbind (tg_remove k g3 (k bkey)) (\<lambda>(_, g4). Inr ((), set_node ba [] ?s2, g4))
      else if 0 < ?bp then rbind (vec_drain (cs_nodes ?s2 ba) 0 ?bp) (\<lambda>node'. Inr ((), set_node ba node' ?s2, g3))
      else Inr ((), ?s2, g3)) = Inr ((), set_node ba l ?s2, g')" "guard_step k g3 (A @ kept f (last f) fa @ kept l bkey ba @ B) g'"
    using trim_back [OF st3(2), of "A @ kept f (last f) fa" bkey ba B l ?bp ?s2] st3(1,3) st2(3) st1(3) assms(2) by auto
  have "remove_across k b lo hi (fkey, fa) (bkey, ba) s g = Inr ((), set_node ba l ?s2, g')"
    using calculation s1(1) g2(1) drain g3(1) g'(1) by (simp add: remove_across_def Let_def)
  moreover have "guard_step k g (A @ (kept f (last f) fa @ kept l bkey ba) @ B) g'"
    using guard_step_trans [OF guard_step_trans [OF guard_step_trans [OF s1(2) g2(2)] g3(2)] g'(2)] by simp
  ultimately show ?thesis
    using addr by (intro exI [of _ "set_node ba l ?s2"] exI [of _ g']) (auto simp: set_node_def s1(3) same_config_def)
qed

lemma filter_split:
  "\<forall>x\<in>set (take n xs). \<not> P x \<Longrightarrow> \<forall>x\<in>set (drop n xs). P x \<Longrightarrow> filter (\<lambda>x. \<not> P x) xs = take n xs"
  "\<forall>x\<in>set (take n xs). P x \<Longrightarrow> \<forall>x\<in>set (drop n xs). \<not> P x \<Longrightarrow> filter (\<lambda>x. \<not> P x) xs = drop n xs"
  using filter_append [of "\<lambda>x. \<not> P x" "take n xs" "drop n xs"]
  by (simp_all add: filter_id_conv filter_empty_conv)

lemma remove_across_ok:
  assumes "open_ok k s g" and "tg_publish g" and "closed_run k (cs_nodes s) None (tg_canon g)"
    and "tg_canon g = A @ (fkey, fa) # M @ (bkey, ba) # B" and "borrow_grouped k b"
  shows "\<exists>s' g'. remove_across k b lo hi (fkey, fa) (bkey, ba) s g = Inr ((), s', g') \<and> open_ok k s' g' \<and>
    closed_run k (cs_nodes s') None (tg_canon g') \<and> same_config s s' \<and>
    open_elements s' g' = contents (cs_nodes s) A @ filter (\<lambda>x. \<not> above b lo x) (cs_nodes s fa) @
      filter (\<lambda>x. \<not> beneath b hi x) (cs_nodes s ba) @ contents (cs_nodes s) B"
proof -
  let ?f = "cs_nodes s fa" and ?l = "cs_nodes s ba"
  define f l where "f = take (rank_past b ?f lo True) ?f" and "l = drop (removed_prefix_len b hi ?l) ?l"
  have run: "closed_run k (cs_nodes s) (run_end k None A) ((fkey, fa) # M @ [(bkey, ba)])"
    using assms(3) unfolding assms(4) by simp
  have srt: "sorted_keys k ?f" "sorted_keys k ?l"
    using run by (auto simp: node_in_def)
  have sub: "set f \<subseteq> set ?f" "sorted_keys k f" "set l \<subseteq> set ?l" "sorted_keys k l"
    using srt by (simp_all add: f_def l_def set_take_subset set_drop_subset sorted_keys_take sorted_keys_drop)
  note pf = range_positions(5,6) [OF sorted_keys_grouped [OF assms(5) srt(1)] refl refl, of lo]
    and pl = range_positions(7,8) [OF sorted_keys_grouped [OF assms(5) srt(2)] refl refl, of hi]
  have eff: "f = filter (\<lambda>x. \<not> above b lo x) ?f" "l = filter (\<lambda>x. \<not> beneath b hi x) ?l"
    using filter_split(1) [OF pf] filter_split(2) [OF pl] by (simp_all add: f_def l_def)
  obtain s' g' where r: "remove_across k b lo hi (fkey, fa) (bkey, ba) s g = Inr ((), s', g')"
    and st: "guard_step k g (A @ (kept f (last f) fa @ kept l bkey ba) @ B) g'" and n: "cs_nodes s' fa = f" "cs_nodes s' ba = l"
    and same: "\<forall>r\<in>set A \<union> set B. cs_nodes s' (snd r) = cs_nodes s (snd r)" "cs_next s' = cs_next s" "same_config s s'"
    using remove_across_run [OF assms(1-4) f_def l_def] by blast
  note two = trimmed_two [OF run sub(1,2) n(1) sub(3,4) n(2) refl]
  have "open_ok k s' g' \<and> closed_run k (cs_nodes s') None (tg_canon g') \<and> open_elements s' g' =
      contents (cs_nodes s) A @ contents (cs_nodes s') (kept f (last f) fa @ kept l bkey ba) @ contents (cs_nodes s) B"
    by (rule trimmed_state [OF assms(1,3) _ st same(1,2), of "(fkey, fa) # M" bkey ba])
      (use assms(4) two in \<open>auto simp: kept_def\<close>)
  then show ?thesis
    using r same(3) n eff by auto
qed

lemma remove_range_section_ok:
  assumes "cset_ok k s" and "settled k s" and "end_ok k b hi (cs_borrow_order_matches s)" and "g = topology_write (cs_index s)"
  shows "\<exists>s' g'. remove_range_section k b lo hi s g = Inr ((), s', g') \<and> open_ok k s' g' \<and>
    closed_run k (cs_nodes s') None (tg_canon g') \<and> same_config s s' \<and>
    open_elements s' g' = filter (\<lambda>x. \<not> in_range b lo hi x) (elements s)"
proof -
  let ?idx = "canon (cs_index s)" and ?c = "contents (cs_nodes s)"
  note ok = cset_okD [OF assms(1)] and grp = end_ok_grouped [OF assms(3)]
  have g: "tg_canon g = ?idx" "tg_publish g" "open_ok k s g" "open_elements s g = elements s" "closed_run k (cs_nodes s) None (tg_canon g)"
    using open_write(1,3) [OF assms(1)] assms(2) by (simp_all add: assms(4) topology_write_def settled_def)
  have idle: ?thesis if "remove_range_section k b lo hi s g = Inr ((), s, g)" "\<forall>x\<in>set (elements s). \<not> in_range b lo hi x"
    using that g(3-5) by (simp add: filter_id_conv)
  show ?thesis
  proof (cases "btm_first_from b lo ?idx")
    case None
    then have "\<forall>r\<in>set ?idx. \<not> above b lo (fst r)"
      by (auto simp: btm_first_from_def find_None_iff)
    then have "\<forall>x\<in>set (elements s). \<not> above b lo x"
      using closed_run_key [OF assms(2) [unfolded settled_def]] above_mono borrow_groupedD [OF grp]
      unfolding elements_def by metis
    then show ?thesis
      using None g(1) by (intro idle) (simp_all add: remove_range_section_def first_for_borrowed_bound_def in_range_def)
  next
    case (Some front)
    obtain fkey fa where front: "front = (fkey, fa)" by force
    obtain A B where idx: "?idx = A @ (fkey, fa) # B" and A: "\<forall>x\<in>set (?c A). \<not> above b lo x" and B: "\<forall>x\<in>set (?c B). above b lo x"
      by (rule borrowed_start_node [OF assms(1,2) grp Some [unfolded front]])
    obtain A' bkey ba B' where idx': "?idx = A' @ (bkey, ba) # B'" and A': "\<forall>x\<in>set (?c A'). beneath b hi x"
      and B': "\<forall>x\<in>set (?c B'). \<not> beneath b hi x"
      and bk: "range_end_entry b ?idx hi (cs_borrow_order_matches s) = Some (bkey, ba)"
      using borrowed_end_node [OF assms(1,3)] idx by (metis append_is_Nil_conv list.distinct(1))
    have sec: "remove_range_section k b lo hi s g =
        (if k bkey < k fkey then Inr ((), s, g) else if fa = ba then remove_within k b lo hi (fkey, fa) s g
         else remove_across k b lo hi (fkey, fa) (bkey, ba) s g)"
      using Some front bk g(1) by (simp add: remove_range_section_def first_for_borrowed_bound_def)
    obtain us where "A = A' @ us \<and> us @ (fkey, fa) # B = (bkey, ba) # B' \<or> A @ us = A' \<and> (fkey, fa) # B = us @ (bkey, ba) # B'"
      using idx idx' append_eq_append_conv2 [of A "(fkey, fa) # B" A' "(bkey, ba) # B'"] by auto
    then consider (same) "A' = A" "B' = B" "bkey = fkey" "ba = fa"
      | (earlier) vs where "A = A' @ (bkey, ba) # vs" "B' = vs @ (fkey, fa) # B"
      | (later) vs where "A' = A @ (fkey, fa) # vs" "B = vs @ (bkey, ba) # B'"
      by (cases us) auto
    then show ?thesis
    proof cases
      case same
      have "filter (\<lambda>x. \<not> in_range b lo hi x) (elements s) =
          ?c A @ filter (\<lambda>x. \<not> in_range b lo hi x) (cs_nodes s fa) @ ?c B"
        using A B' same by (auto simp: elements_def idx in_range_def filter_id_conv)
      then show ?thesis
        using remove_within_ok [OF g(3,2,5), of A fkey fa B b lo hi] grp g(1) idx sec same by auto
    next
      case earlier
      have "k bkey < k fkey"
        using ok(4) unfolding idx earlier by auto
      moreover have "\<forall>x\<in>set (elements s). \<not> in_range b lo hi x"
        using A B' unfolding elements_def idx earlier by (auto simp: in_range_def)
      ultimately show ?thesis
        using sec by (intro idle) simp_all
    next
      case later
      have ne: "\<not> k bkey < k fkey" "fa \<noteq> ba"
        using ok(4,5) unfolding idx later by auto
      have "filter (\<lambda>x. \<not> in_range b lo hi x) (elements s) = ?c A @ filter (\<lambda>x. \<not> above b lo x) (cs_nodes s fa) @
          filter (\<lambda>x. \<not> beneath b hi x) (cs_nodes s ba) @ ?c B'"
        using A B A' B' later by (auto simp: elements_def idx in_range_def filter_id_conv filter_empty_conv
            intro!: arg_cong2 [where f = append] filter_cong)
      then show ?thesis
        using remove_across_ok [OF g(3,2,5), of A fkey fa vs bkey ba B' b lo hi] grp g(1) idx later sec ne by auto
    qed
  qed
qed

lemma cset_remove_range_ok:
  assumes "cset_ok (op_key P) s" and "settled (op_key P) s" and "end_ok (op_key P) b hi (cs_borrow_order_matches s)"
  shows "\<exists>s'. cset_remove_range P b lo hi s = Inr s' \<and> cset_ok (op_key P) s' \<and> settled (op_key P) s' \<and> same_config s s' \<and>
    elements s' = filter (\<lambda>x. \<not> in_range b lo hi x) (elements s)"
proof -
  obtain s1 g1 where r: "remove_range_section (op_key P) b lo hi s (topology_write (cs_index s)) = Inr ((), s1, g1)"
    "open_ok (op_key P) s1 g1" "same_config s s1" "open_elements s1 g1 = filter (\<lambda>x. \<not> in_range b lo hi x) (elements s)"
    "closed_run (op_key P) (cs_nodes s1) None (tg_canon g1)"
    using remove_range_section_ok [OF assms refl] by blast
  from guarded_ok [where act = "remove_range_section (op_key P) b lo hi", OF r(1,2)] show ?thesis
    using r(3-5) by (auto simp: cset_remove_range_def intro: same_config_trans)
qed

end
