(* ===== verification/Concurrent_Iter_Props.thy ===== *)
theory Concurrent_Iter_Props
  imports Concurrent_Props Interleaving_Scan Concurrent_Remove_Range
begin

text \<open>
  What iterators, ranges and range removal of the concurrent set promise: exactly the elements when
  nobody else is at work, weak consistency among writers, and the runs and calls that delimit both.
\<close>

section \<open>Building a set\<close>

context cset_ops
begin

lemma insert_each_ok:
  assumes "cset_ok k s" and "settled k s" and "0 < n"
  shows "\<exists>s'. insert_each n P vs s = Inr (Some s') \<and> cset_ok k s' \<and> settled k s' \<and> same_config s s' \<and>
    elements s' = fold (\<lambda>v xs. snd (put v xs)) vs (elements s)"
  using assms(1,2)
proof (induction vs arbitrary: s)
  case (Cons v vs)
  obtain old evs s1 where s1: "put_inner n False P v s = Inr (Some ((old, evs), s1))" "cset_ok k s1" "settled k s1" "same_config s s1"
    "put v (elements s) = (old, elements s1)"
    using put_inner_ok [OF Cons.prems(1) assms(3), of False v] Cons.prems(2) by blast
  then have "snd (put v (elements s)) = elements s1"
    by simp
  then show ?case
    using Cons.IH [OF s1(2,3)] s1(1,4) by (auto simp: cset_insert_def intro: same_config_trans)
qed simp

lemma put_all_keys:
  assumes "sorted_keys k xs"
  shows "sorted_keys k (fold (\<lambda>v xs. snd (put v xs)) vs xs) \<and>
    k ` set (fold (\<lambda>v xs. snd (put v xs)) vs xs) = k ` (set vs \<union> set xs)"
  using assms
proof (induction vs arbitrary: xs)
  case (Cons v vs)
  have "sorted_keys k (snd (put v xs))" "k ` set (snd (put v xs)) = insert (k v) (k ` set xs)"
    using spec_put_node(1,2) [OF Cons.prems, of v "op_adopt P"] adopt_key by simp_all
  then show ?case
    using Cons.IH by (simp add: image_Un)
qed simp

end

lemma citer_new_ok [simp]: "citer_ok k s citer_new" "citer_rest k s citer_new = elements s"
  unfolding citer_new_def
  by (simp add: citer_ok_def citer_between_inv) (simp add: citer_rest_def citer_between_def)

lemma built_set:
  assumes "cset_ops P"
  obtains s where "insert_each 1 P vs (cset_with_maximum_node_size c) = Inr (Some s)" "cset_ok (op_key P) s" "settled (op_key P) s"
    "cs_borrow_order_matches s" "elements s = fold (\<lambda>v xs. snd (spec_put (op_key P) (op_adopt P) v xs)) vs []"
proof -
  have "settled (op_key P) (cset_with_maximum_node_size c)" "cs_borrow_order_matches (cset_with_maximum_node_size c :: 'a cset)"
    by (simp_all add: settled_def cset_with_maximum_node_size_def topology_new_def)
  then show thesis
    using that cset_ops.insert_each_ok [OF assms cset_new_ok(1) _ zero_less_one, of c vs] unfolding cset_new_ok(2) same_config_def by blast
qed

section \<open>Iteration without interference\<close>

text \<open>
  A set collected from any values iterates over exactly one stored value per distinct key, in
  ascending order forwards and descending order backwards.
\<close>

theorem cset_from_iter_iterates:
  assumes "cset_ops P"
  shows "\<exists>s xs. cset_from_iter 1 P vs = Inr (Some s) \<and> cset_ok (op_key P) s \<and>
    collect (still_next (op_key P) s) (Suc (length xs)) citer_new = Inr (Some xs) \<and>
    collect (still_next_back (op_key P) s) (Suc (length xs)) citer_new = Inr (Some (rev xs)) \<and>
    sorted_keys (op_key P) xs \<and> op_key P ` set xs = op_key P ` set vs \<and> cset_len s = length xs"
proof -
  let ?k = "op_key P"
  obtain s where s: "cset_from_iter 1 P vs = Inr (Some s)" "cset_ok ?k s" "settled ?k s"
    "elements s = fold (\<lambda>v xs. snd (spec_put ?k (op_adopt P) v xs)) vs []"
    unfolding cset_from_iter_def cset_default_def by (rule built_set [OF assms])
  have it: "cset_ok ?k s \<and> settled ?k s \<and> citer_ok ?k s citer_new"
    using s by simp
  have "sorted_keys ?k (elements s)" "?k ` set (elements s) = ?k ` set vs"
    using cset_ops.put_all_keys [OF assms, of "[]" vs] by (simp_all add: s(4))
  moreover have "cset_len s = length (elements s)"
    by (simp add: cset_len_def elements_def contents_def length_concat comp_def case_prod_unfold)
  ultimately show ?thesis
    using s(1,2) still.collect_rest [OF it, of "Suc (length (elements s))"]
      still.reversed.collect_rest [OF it, of "Suc (length (elements s))"] by auto
qed

theorem cset_from_iter_iterates_witness:
  "\<exists>s xs. cset_from_iter 1 (vec_ops id) [3, 1, 2, 3 :: nat] = Inr (Some s) \<and>
    collect (still_next id s) (Suc (length xs)) citer_new = Inr (Some xs) \<and> sorted_keys id xs \<and> id ` set xs = {1, 2, 3}"
proof -
  have "id ` set [3, 1, 2, 3 :: nat] = {1, 2, 3}"
    by auto
  then show ?thesis
    using cset_from_iter_iterates [OF vec_ops_cset_ops, of id "[3, 1, 2, 3 :: nat]"] unfolding vec_ops_simps by metis
qed


definition some_set :: "nat cset" where
  "some_set = (case insert_each 1 (vec_ops id) [3, 8, 5, 9, 1, 7] (cset_with_maximum_node_size 2) of
     Inr (Some s) \<Rightarrow> s | _ \<Rightarrow> cset_default)"

lemma some_set_ok: "cset_ok id some_set" "settled id some_set" "elements some_set = [1, 3, 5, 7, 8, 9]"
  "cs_borrow_order_matches some_set"
proof -
  obtain s :: "nat cset" where "insert_each 1 (vec_ops id) [3, 8, 5, 9, 1, 7] (cset_with_maximum_node_size 2) = Inr (Some s)"
    "cset_ok id s" "settled id s" "cs_borrow_order_matches s"
    "elements s = fold (\<lambda>v xs. snd (spec_put id no_identity_adoption v xs)) [3, 8, 5, 9, 1, 7] []"
    by (rule built_set [where P = "vec_ops (id :: nat \<Rightarrow> nat)", OF vec_ops_cset_ops, where vs = "[3, 8, 5, 9, 1, 7]" and c = 2]) (simp only: vec_ops_simps)
  moreover have "fold (\<lambda>v xs. snd (spec_put id no_identity_adoption v xs)) [3, 8, 5, 9, 1, 7] [] = [1, 3, 5, 7, 8, 9 :: nat]"
    by code_simp
  ultimately show "cset_ok id some_set" "settled id some_set" "elements some_set = [1, 3, 5, 7, 8, 9]"
    "cs_borrow_order_matches some_set"
    unfolding some_set_def by (simp_all del: insert_each.simps fold_Cons)
qed


text \<open>
  C18: \<open>remove_range\<close> removes the elements within the bounds and no other, whichever nodes they lie in:
  it empties, shortens and unlinks nodes, and leaves a set on which all operations work again.
\<close>

theorem cset_remove_range_correct:
  assumes "cset_ok (op_key P) s" and "settled (op_key P) s" and "end_ok (op_key P) b hi (cs_borrow_order_matches s)"
  shows "\<exists>s'. cset_remove_range P b lo hi s = Inr s' \<and> cset_ok (op_key P) s' \<and> settled (op_key P) s' \<and>
    elements s' = filter (\<lambda>x. \<not> in_range b lo hi x) (elements s)"
  using cset_remove_range_ok [OF assms] by blast

theorem cset_remove_range_correct_witness:
  "\<exists>s'. cset_remove_range (vec_ops id) id (Included 3) (Excluded 8) some_set = Inr s' \<and> elements s' = [1, 8, 9]"
  using cset_remove_range_correct [of "vec_ops id" some_set id "Excluded 8" "Included 3"] some_set_ok
  by (auto simp: end_ok_def in_range_def above_def beneath_def)

section \<open>Iteration among writers\<close>

lemma cset_range_between:
  obtains fv bv m where "cset_range k b lo hi s = citer_between fv bv m"
  by (auto simp: cset_range_def Let_def)

lemma cset_range_all:
  assumes "cset_ok k s"
  shows "cset_range k b Unbounded Unbounded s = citer_new"
proof -
  let ?idx = "canon (cs_index s)"
  have rank: "node_rank b xs Unbounded d = None" for xs d
    by (simp add: node_rank_past)
  have "range_front_value k b Unbounded s = None"
  proof (cases ?idx)
    case (Cons r idx)
    then have "filter (\<lambda>p. k (fst p) < k (fst r)) ?idx = []"
      using cset_okD(4) [OF assms] by (auto simp: filter_empty_conv)
    then show ?thesis
      using Cons by (cases r) (simp add: range_front_value_def first_for_borrowed_bound_def btm_first_from_def above_def
          btm_last_below_def rank)
  qed (simp add: range_front_value_def first_for_borrowed_bound_def btm_first_from_def)
  moreover have "range_back_value k b Unbounded s = None"
  proof (cases ?idx rule: rev_cases)
    case (snoc idx r)
    then have "find (\<lambda>p. k (fst r) < k (fst p)) ?idx = None"
      using cset_okD(4) [OF assms] by (auto simp: find_None_iff dest: less_asym)
    then show ?thesis
      using snoc by (cases r) (simp add: range_back_value_def range_end_entry_def btm_first_from_def above_def rank)
  qed (simp add: range_back_value_def range_end_entry_def)
  ultimately show ?thesis
    by (simp add: cset_range_def citer_new_def range_is_empty_def range_misses_def Let_def)
qed

text \<open>The keys that a range made in state \<open>s\<close> has ahead of it.\<close>

lemma cset_range_ahead:
  assumes "cset_ok k s" and "settled k s" and "end_ok k b hi (cs_borrow_order_matches s)" and "x \<in> set (elements s)" and "in_range b lo hi x"
  shows "\<not> ci_met (cset_range k b lo hi s)" and "ahead k (cset_range k b lo hi s) (k x)"
proof -
  have "x \<in> set (citer_rest k s (cset_range k b lo hi s))"
    using cset_range_rest(2) [OF assms(1-3), of lo] assms(4,5) by simp
  then show "\<not> ci_met (cset_range k b lo hi s)" "ahead k (cset_range k b lo hi s) (k x)"
    by (auto simp: citer_rest_def ahead_def split: if_splits)
qed

lemma scan_met:
  assumes "ci_met it" and "0 < m" and "0 < n"
  shows "scan (citer_next m k) n st t it = Inr ([], True)" and "scan (citer_next_back m k) n st t it = Inr ([], True)"
  using assms by (cases m; cases n; simp add: citer_next_def citer_next_back_def front_turn_def back_turn_def)+

text \<open>The system after \<open>n\<close> steps of a run, and the keys under which the set holds an element of a range from then on.\<close>

definition run_at ::
  "bool \<Rightarrow> ('a, 'k::linorder) ops \<Rightarrow> ('a \<Rightarrow> 'q::linorder) \<Rightarrow> nat list \<Rightarrow> 'a cset \<Rightarrow> ('a, 'q) call list \<Rightarrow> nat \<Rightarrow> ('a, 'q) sys" where
  "run_at emit P b is s cs n = sys_state emit P b is (sys_start s cs) n"

definition lasting :: "('a \<Rightarrow> 'k) \<Rightarrow> ('a \<Rightarrow> bool) \<Rightarrow> (nat \<Rightarrow> ('a, 'q) sys) \<Rightarrow> nat \<Rightarrow> 'k set" where
  "lasting k within run n = {q. \<forall>m\<ge>n. \<exists>x\<in>set (elements (sy_set (run m))). k x = q \<and> within x}"

text \<open>What a complete scan has to deliver.\<close>

definition scanned :: "('a \<Rightarrow> 'k) \<Rightarrow> ('a \<Rightarrow> bool) \<Rightarrow> (nat \<Rightarrow> ('a, 'q) sys) \<Rightarrow> (nat \<Rightarrow> nat) \<Rightarrow> 'a list \<Rightarrow> bool" where
  "scanned k within run f vs \<longleftrightarrow> (\<forall>v\<in>set vs. \<exists>t. v \<in> set (elements (sy_set (run (f t))))) \<and> lasting k within run (f 0) \<subseteq> k ` set vs"

lemma run_scan:
  fixes within :: "'a \<Rightarrow> bool" and k :: "'a \<Rightarrow> 'k::linorder" and nxts :: "nat \<Rightarrow> nat \<Rightarrow> ('a list \<times> bool) res"
  assumes scan: "\<And>K M. \<not> ci_met it \<Longrightarrow> seen k K M (\<lambda>t. sy_set (run (f t))) \<Longrightarrow> finite M \<Longrightarrow>
      \<exists>m0 n0. \<forall>m\<ge>m0. \<forall>n\<ge>n0. \<exists>vs. nxts m n = Inr (vs, True) \<and> ord vs \<and> set vs \<subseteq> M \<and> (\<forall>q\<in>K. ahead k it q \<longrightarrow> q \<in> k ` set vs)"
    and met: "\<And>m n. ci_met it \<Longrightarrow> 0 < m \<Longrightarrow> 0 < n \<Longrightarrow> nxts m n = Inr ([], True)" "ord []"
    and run: "seen k {q. \<forall>n\<ge>f 0. q \<in> k ` set (elements (sy_set (run n)))} (\<Union>n\<in>range f. set (elements (sy_set (run n))))
      (\<lambda>t. sy_set (run (f t)))" "finite (\<Union>n\<in>range f. set (elements (sy_set (run n))))"
    and start: "\<And>x. x \<in> set (elements (sy_set (run (f 0)))) \<Longrightarrow> within x \<Longrightarrow> \<not> ci_met it \<and> ahead k it (k x)"
  shows "\<exists>m0 n0. \<forall>m\<ge>m0. \<forall>n\<ge>n0. \<exists>vs. nxts m n = Inr (vs, True) \<and> ord vs \<and> scanned k within run f vs"
proof (cases "ci_met it")
  case True
  then have "lasting k within run (f 0) = {}"
    using start by (fastforce simp: lasting_def)
  then have "\<forall>m\<ge>1. \<forall>n\<ge>1. nxts m n = Inr ([], True) \<and> ord [] \<and> scanned k within run f []"
    using met True by (auto simp: scanned_def)
  then show ?thesis
    by blast
next
  case False
  let ?K = "{q. \<forall>n\<ge>f 0. q \<in> k ` set (elements (sy_set (run n)))}"
  have "q \<in> ?K \<and> ahead k it q" if q: "q \<in> lasting k within run (f 0)" for q
  proof -
    obtain x where "x \<in> set (elements (sy_set (run (f 0))))" "k x = q" "within x"
      using q by (auto simp: lasting_def)
    then have "ahead k it q"
      using start by auto
    moreover have "q \<in> ?K"
      using q by (fastforce simp: lasting_def)
    ultimately show ?thesis
      by simp
  qed
  then have "lasting k within run (f 0) \<subseteq> k ` set vs" if "\<forall>q\<in>?K. ahead k it q \<longrightarrow> q \<in> k ` set vs" for vs
    using that by blast
  then show ?thesis
    using scan [OF False run] unfolding scanned_def by (smt (verit, ccfv_threshold) UN_iff image_iff rangeE subset_iff)
qed

context cset_ops
begin

lemma run_states:
  assumes "cset_ok k s" and "settled k s" and "borrow_ok k b" and "fresh_run emit P b is (sys_start s cs)"
    and "sy_guard (run_at emit P b is s cs n) = None"
    and "\<forall>pc\<in>set (sy_pcs (run_at emit P b is s cs n)). \<not> pends k (sy_set (run_at emit P b is s cs n)) pc"
  shows "cset_ok k (sy_set (run_at emit P b is s cs n))" and "settled k (sy_set (run_at emit P b is s cs n))"
    and "cs_borrow_order_matches (sy_set (run_at emit P b is s cs n)) = cs_borrow_order_matches s"
  using sys_state_ok(2) [OF assms(3,1,4), of n] sys_state_settled [OF assms(3,1,2,4), of n] sys_state_config [OF assms(3,1,4), of n] assms(5,6)
  by (simp_all add: run_at_def sys_ok_def lock_ok_def same_config_def)

end


definition busy :: "(nat, nat) call list" where
  "busy = [CPut 6, CRemove 9, CPut 2]"

definition busy_schedule :: "nat list" where
  "busy_schedule = [0, 0, 0, 0, 1, 1, 1, 1, 2, 2, 2, 2]"

definition busy_instants :: "nat \<Rightarrow> nat" where
  "busy_instants t = (if t = 0 then 0 else if t < 4 then 4 else if t < 6 then 8 else 12)"

lemma busy_ok:
  shows "mono busy_instants" and "fresh_run False (vec_ops id) id busy_schedule (sys_start some_set busy)"
    and "sy_guard (run_at False (vec_ops id) id busy_schedule some_set busy (busy_instants t)) = None"
    and "pc \<in> set (sy_pcs (run_at False (vec_ops id) id busy_schedule some_set busy (busy_instants t))) \<Longrightarrow>
      \<not> pends id (sy_set (run_at False (vec_ops id) id busy_schedule some_set busy (busy_instants t))) pc"
proof -
  let ?run = "run_at False (vec_ops id) id busy_schedule some_set busy"
  show "mono busy_instants"
    by (rule monoI) (simp add: busy_instants_def)
  show "fresh_run False (vec_ops id) id busy_schedule (sys_start some_set busy)"
    by code_simp
  have "list_all (\<lambda>n. sy_guard (?run n) = None \<and> list_all (\<lambda>pc. rekeys pc = None) (sy_pcs (?run n))) [0, 4, 8, 12]"
    by code_simp
  moreover have "busy_instants t \<in> set [0, 4, 8, 12]"
    by (simp add: busy_instants_def)
  ultimately have "sy_guard (?run (busy_instants t)) = None \<and> list_all (\<lambda>pc. rekeys pc = None) (sy_pcs (?run (busy_instants t)))"
    unfolding list_all_iff by blast
  then show "sy_guard (?run (busy_instants t)) = None"
    "pc \<in> set (sy_pcs (?run (busy_instants t))) \<Longrightarrow> \<not> pends id (sy_set (?run (busy_instants t))) pc"
    by (auto simp: list_all_iff)
qed


text \<open>
  A backward scan promises the same, with no condition on threads that are about to move a key.
\<close>

theorem cset_scan_backward:
  assumes "cset_ops P" and "cset_ok (op_key P) s" and "borrow_ok (op_key P) b"
    and "fresh_run emit P b is (sys_start s cs)" and "mono f" and "\<And>t. sy_guard (run_at emit P b is s cs (f t)) = None"
  shows "\<exists>m0 n0. \<forall>m\<ge>m0. \<forall>n\<ge>n0. \<exists>vs.
    scan (citer_next_back m (op_key P)) n (\<lambda>t. sy_set (run_at emit P b is s cs (f t))) 0 citer_new = Inr (vs, True) \<and>
    sorted_keys (op_key P) (rev vs) \<and> scanned (op_key P) (\<lambda>_. True) (run_at emit P b is s cs) f vs"
proof -
  let ?k = "op_key P" and ?run = "run_at emit P b is s cs"
  let ?st = "\<lambda>t. sy_set (?run (f t))"
  obtain T where T: "\<forall>u\<ge>T. ?st u = ?st T"
    using sys_state_stops [OF assms(5), of emit P b "is" "sys_start s cs"] unfolding run_at_def by metis
  have new: "\<not> ci_met citer_new" "ahead ?k citer_new q" for q
    by (simp_all add: citer_new_def citer_between_def ahead_def)
  show ?thesis
  proof (rule run_scan [where it = citer_new and nxts = "\<lambda>m n. scan (citer_next_back m ?k) n ?st 0 citer_new"
        and ord = "\<lambda>vs. sorted_keys ?k (rev vs)"])
    fix K M
    assume s: "seen ?k K M ?st" "finite M"
    have inv: "back_inv ?k K M (?st 0) citer_new"
      unfolding citer_new_def by (rule citer_between_inv)
    have "\<exists>vs. scan (citer_next_back m ?k) n ?st 0 citer_new = Inr (vs, True) \<and> sorted_keys ?k (rev vs) \<and> set vs \<subseteq> M \<and>
        (\<forall>q\<in>K. ahead ?k citer_new q \<longrightarrow> q \<in> ?k ` set vs)" if "Suc (T + 2) \<le> m" "Suc (card M) \<le> n" for m n
      using back_scan(1) [OF s(1) inv new(1), of m n] back_scan(2) [OF s(1) inv new(1) s(2) T, of m n] that by auto
    then show "\<exists>m0 n0. \<forall>m\<ge>m0. \<forall>n\<ge>n0. \<exists>vs. scan (citer_next_back m ?k) n ?st 0 citer_new = Inr (vs, True) \<and> sorted_keys ?k (rev vs) \<and>
        set vs \<subseteq> M \<and> (\<forall>q\<in>K. ahead ?k citer_new q \<longrightarrow> q \<in> ?k ` set vs)"
      by blast
  next
    show "seen ?k {q. \<forall>n\<ge>f 0. q \<in> ?k ` set (elements (sy_set (?run n)))} (\<Union>n\<in>range f. set (elements (sy_set (?run n)))) ?st"
      using cset_ops.run_seen [OF assms(1,3,2,4,5)] assms(6) unfolding run_at_def by blast
    show "finite (\<Union>n\<in>range f. set (elements (sy_set (?run n))))"
      unfolding run_at_def by (rule finite_seen)
  qed (use new in auto)
qed

theorem cset_scan_backward_witness:
  "\<exists>m0 n0. \<forall>m\<ge>m0. \<forall>n\<ge>n0. \<exists>vs.
    scan (citer_next_back m id) n (\<lambda>t. sy_set (run_at False (vec_ops id) id busy_schedule some_set busy (busy_instants t))) 0 citer_new =
      Inr (vs, True) \<and>
    sorted_keys id (rev vs) \<and> scanned id (\<lambda>_. True) (run_at False (vec_ops id) id busy_schedule some_set busy) busy_instants vs"
proof -
  have "borrow_ok id (id :: nat \<Rightarrow> nat)"
    by simp
  from cset_scan_backward [OF vec_ops_cset_ops, unfolded vec_ops_simps, OF some_set_ok(1) this busy_ok(2,1,3)] show ?thesis .
qed

definition pending_calls :: "(nat, nat) call list" where
  "pending_calls = [CPut 10, CPut 50, CPut 90, CPut 60, CPut 70, CPut 80]"

definition pending_schedule :: "nat list" where
  "pending_schedule = [0, 0, 0, 0, 1, 1, 1, 1, 2, 3, 3, 3, 4, 4, 4, 5, 5, 5]"



end
