(* ===== verification/Concurrent_Attach.thy ===== *)
theory Concurrent_Attach
  imports Concurrent_Remove
begin

text \<open>
  Attaching whole nodes above what a set already holds, the way a set is rebuilt from an image: one
  publication, one new route per node, and the set then consists of the old nodes and the new ones.
\<close>

definition node_list :: "'a cset \<Rightarrow> 'a route list \<Rightarrow> 'a list list" where
  "node_list s idx = map (\<lambda>r. cs_nodes s (snd r)) idx"

lemma contents_node_list: "contents (cs_nodes s) idx = concat (node_list s idx)"
  by (simp add: contents_def node_list_def)

context cset_ops
begin

lemma attach_loop_ok:
  assumes "open_ok k s g" and "tg_publish g" and "guard_exact k g" and "closed_run k (cs_nodes s) None (tg_canon g)"
    and "[] \<notin> set ns" and "sorted_keys k (concat ns)" and "\<forall>r\<in>set (tg_canon g). \<forall>x\<in>set (concat ns). k (fst r) < k x"
  shows "\<exists>s' g'. attach_loop P ns s g = Inr ((), s', g') \<and> open_ok k s' g' \<and> closed_run k (cs_nodes s') None (tg_canon g') \<and>
    same_config s s' \<and> node_list s' (tg_canon g') = node_list s (tg_canon g) @ ns"
  using assms
proof (induction ns arbitrary: s g)
  case (Cons n ns)
  let ?A = "tg_canon g" and ?a = "cs_next s" and ?m = "last n"
  let ?s = "s\<lparr> cs_nodes := (cs_nodes s)(cs_next s := n), cs_next := cs_next s + 1 \<rparr>"
  note ok = open_okD [OF Cons.prems(1)]
  have n: "n \<noteq> []" "sorted_keys k n" "\<forall>x\<in>set n. \<forall>y\<in>set (concat ns). k x < k y" "\<forall>r\<in>set ?A. \<forall>x\<in>set n. k (fst r) < k x"
    using Cons.prems(5-7) by auto
  have below: "\<forall>r\<in>set ?A. (k \<circ> fst) r < (k \<circ> fst) (?m, ?a)"
    using n(1,4) by simp
  have fresh: "?a \<notin> snd ` set ?A" "\<not> has_key (k \<circ> fst) (k ?m) ?A"
    using ok(5) below by (auto simp: has_key_def)
  have idx: "ins_key (k \<circ> fst) (?m, ?a) ?A = ?A @ [(?m, ?a)]"
    using ins_key_mid [of ?A "k \<circ> fst" "(?m, ?a)" "[]" "[]"] below by (simp add: ins_key_def)
  obtain g' where g': "insert_after_last_route_repair k g ?m ?a = Inr (None, g')" "guard_step k g (?A @ [(?m, ?a)]) g'" "guard_exact k g'"
    using insert_after_repair_ok [OF Cons.prems(3,2) fresh(2,1)] idx by auto
  note st = guard_stepD [OF g'(2)]
  have same: "\<forall>r\<in>set ?A. cs_nodes ?s (snd r) = cs_nodes s (snd r)"
    using ok(5) by force
  have "node_in k n (run_end k None ?A) (Some (k ?m))"
    by (rule node_in_last [OF n(2,1)]) (use n(4) in \<open>auto intro!: run_end_le\<close>)
  moreover have "closed_run k (cs_nodes ?s) None ?A"
    using closed_run_cong [OF same, of k None] Cons.prems(4) by blast
  ultimately have closed: "closed_run k (cs_nodes ?s) None (tg_canon g')"
    by (simp add: st(1))
  have "open_ok k ?s g'"
    using st(1,2) closed_ranged [OF closed] ok(5) by (auto simp: open_ok_def heap_ok_def less_Suc_eq)
  moreover have "\<forall>r\<in>set (tg_canon g'). \<forall>x\<in>set (concat ns). k (fst r) < k x"
    using Cons.prems(7) n(1,3) by (auto simp: st(1))
  ultimately obtain s2 g2 where "attach_loop P ns ?s g' = Inr ((), s2, g2)" "open_ok k s2 g2" "closed_run k (cs_nodes s2) None (tg_canon g2)"
    "same_config ?s s2" "node_list s2 (tg_canon g2) = node_list ?s (tg_canon g') @ ns"
    using Cons.IH [OF _ _ g'(3) closed] st(3) Cons.prems(2,5,6) by auto
  moreover have "node_list ?s (tg_canon g') = node_list s ?A @ [n]"
    using same by (simp add: st(1) node_list_def)
  ultimately show ?case
    using n(1) g'(1) by (auto simp: node_max_def vec_last_def same_config_def)
qed (auto simp: node_list_def)

lemma attach_nodes_ok:
  assumes "cset_ok k s" and "settled k s" and "[] \<notin> set ns" and "sorted_keys k (concat ns)"
    and "\<forall>r\<in>set (canon (cs_index s)). \<forall>x\<in>set (concat ns). k (fst r) < k x"
  shows "\<exists>s'. attach_nodes P ns s = Inr s' \<and> cset_ok k s' \<and> settled k s' \<and> same_config s s' \<and>
    export_topology s' = (cs_capacity s, snd (export_topology s) @ ns)"
proof (cases "ns = []")
  case True
  then show ?thesis
    using assms(1,2) by (simp add: attach_nodes_def export_topology_def)
next
  case False
  let ?g = "topology_write (cs_index s)"
  note op = open_write(1) [OF assms(1)]
  have g: "tg_publish ?g" "tg_canon ?g = canon (cs_index s)"
    by (simp_all add: topology_write_def)
  obtain g1 where g1: "repair_last_route_before_insert k ?g = Inr g1" "guard_step k ?g (tg_canon ?g) g1" "guard_exact k g1"
    using repair_ok [OF open_okD(1) [OF op] g(1)] by blast
  note st = guard_stepD [OF g1(2)]
  have "open_ok k s g1"
    using op st(1,2) by (simp add: open_ok_def)
  then obtain s2 g2 where l: "attach_loop P ns s g1 = Inr ((), s2, g2)" "open_ok k s2 g2" "closed_run k (cs_nodes s2) None (tg_canon g2)"
    "same_config s s2" "node_list s2 (tg_canon g2) = node_list s (tg_canon g1) @ ns"
    using attach_loop_ok [OF _ _ g1(3), of s ns] assms(2-) st(1,3) g by (auto simp: settled_def)
  let ?act = "\<lambda>s g. rbind (repair_last_route_before_insert k g) (attach_loop P ns s)"
  have "?act s ?g = Inr ((), s2, g2)"
    using g1(1) l(1) by simp
  moreover obtain t where drop: "drop_guard k g2 = Inr t" "topology_ok k t" "canon t = tg_canon g2"
    using drop_guard_ok [OF open_okD(1) [OF l(2)]] by blast
  ultimately have t: "guarded P ?g ?act s = Inr ((), s2\<lparr> cs_index := t \<rparr>)" "cset_ok k (s2\<lparr> cs_index := t \<rparr>)" "canon t = tg_canon g2"
    using l(2) by (simp_all add: guarded_def cset_ok_def open_ok_def heap_ok_def)
  then have "attach_nodes P ns s = Inr (s2\<lparr> cs_index := t \<rparr>)"
    using False by (simp add: attach_nodes_def)
  moreover have "settled k (s2\<lparr> cs_index := t \<rparr>)" "same_config s (s2\<lparr> cs_index := t \<rparr>)"
    using l(3,4) t(3) by (simp_all add: settled_def same_config_def)
  moreover have "export_topology (s2\<lparr> cs_index := t \<rparr>) = (cs_capacity s, snd (export_topology s) @ ns)"
    using l(4,5) t(3) st(1) g(2) by (simp add: export_topology_def node_list_def same_config_def case_prod_unfold)
  ultimately show ?thesis
    using t(2) by blast
qed

end

end
