(* ===== verification/Concurrent_Map.thy ===== *)
theory Concurrent_Map
  imports Concurrent_Read Concurrent_Iter Btree_Map
begin

text \<open>
  \<open>src/concurrent/map.rs\<close>: the concurrent map is a concurrent set of pairs compared by key. The
  methods hand their work to the set and project the answer; a topology image is validated before a
  map is rebuilt from it. A method that loops takes fuel and answers \<open>None\<close> when it runs out.
\<close>

type_synonym ('k, 'v) cmap = "('k, 'v) pair cset"

definition map_ops :: "('k, 'v) pair search_fn \<Rightarrow> (('k::linorder, 'v) pair, 'k) ops" where
  "map_ops srch = \<lparr> op_key = pair_key, op_search = srch, op_adopt = no_identity_adoption \<rparr>"

text \<open>\<open>Option::map\<close> on the answer of a method that changes the map.\<close>

definition answer :: "('x \<Rightarrow> 'y) \<Rightarrow> ('x \<times> 's) option res \<Rightarrow> ('y \<times> 's) option res" where
  "answer g r = rbind r (\<lambda>x. Inr (map_option (map_prod g id) x))"

text \<open>A method that is done within its fuel.\<close>

definition fueled :: "'x option res \<Rightarrow> 'x res" where
  "fueled r = rbind r (\<lambda>x. case x of None \<Rightarrow> Inl StackOverflow | Some y \<Rightarrow> Inr y)"

section \<open>The map\<close>

definition cmap_default :: "('k, 'v) cmap" where
  "cmap_default = cset_default"

definition cmap_with_maximum_node_size :: "nat \<Rightarrow> ('k, 'v) cmap" where
  "cmap_with_maximum_node_size capacity = cset_with_maximum_node_size capacity"

definition cmap_contains_key ::
  "('k, 'v) pair search_fn \<Rightarrow> (('k, 'v) pair \<Rightarrow> 'q::linorder) \<Rightarrow> 'q \<Rightarrow> (nat \<Rightarrow> ('k, 'v) cmap) \<Rightarrow> bool res" where
  "cmap_contains_key srch b key obs = cset_contains srch b key obs"

definition cmap_get ::
  "('k, 'v) pair search_fn \<Rightarrow> (('k, 'v) pair \<Rightarrow> 'q::linorder) \<Rightarrow> 'q \<Rightarrow> (nat \<Rightarrow> ('k, 'v) cmap) \<Rightarrow> (addr \<times> nat \<times> nat) option res" where
  "cmap_get srch b key obs = cset_get srch b key obs"

text \<open>\<open>Ref::get\<close>: the element at the position, as long as the node stays locked.\<close>

definition ref_get :: "(nat \<Rightarrow> 'a cset) \<Rightarrow> addr \<times> nat \<times> nat \<Rightarrow> 'a res" where
  "ref_get obs r = (case r of (a, position, t) \<Rightarrow> unwrap (node_get_ith (cs_nodes (obs t) a) position))"

definition lookup_for_select ::
  "('k, 'v) pair search_fn \<Rightarrow> (('k, 'v) pair \<Rightarrow> 'q::linorder) \<Rightarrow> 'q \<Rightarrow> (nat \<Rightarrow> ('k, 'v) cmap) \<Rightarrow> 'v option res" where
  "lookup_for_select srch b key obs = get_with srch b key pair_value obs"

definition lookup_for_select_optimistic ::
  "('k, 'v) pair search_fn \<Rightarrow> (('k, 'v) pair \<Rightarrow> 'q::linorder) \<Rightarrow> 'q \<Rightarrow> ('k, 'v) cmap \<Rightarrow> 'v option res" where
  "lookup_for_select_optimistic srch b key m = get_with_optimistic srch b key pair_value m"

definition cmap_insert ::
  "nat \<Rightarrow> ('k::linorder, 'v) pair search_fn \<Rightarrow> 'k \<Rightarrow> 'v \<Rightarrow> ('k, 'v) cmap \<Rightarrow> ('v option \<times> ('k, 'v) cmap) option res" where
  "cmap_insert n srch key v m = answer (map_option pair_value) (cset_put n (map_ops srch) (MkPair key v) m)"

definition cmap_checked_insert ::
  "nat \<Rightarrow> ('k::linorder, 'v) pair search_fn \<Rightarrow> 'k \<Rightarrow> 'v \<Rightarrow> ('k, 'v) cmap \<Rightarrow> (unit option \<times> ('k, 'v) cmap) option res" where
  "cmap_checked_insert n srch key v m =
     answer (\<lambda>r. case r of Ok _ \<Rightarrow> Some () | Err _ \<Rightarrow> None) (cset_put_checked n (map_ops srch) (MkPair key v) m)"

definition cmap_insert_cdc ::
  "nat \<Rightarrow> ('k::linorder, 'v) pair search_fn \<Rightarrow> 'k \<Rightarrow> 'v \<Rightarrow> ('k, 'v) cmap \<Rightarrow>
     (('v option \<times> ('k, 'v) pair change_event list) \<times> ('k, 'v) cmap) option res" where
  "cmap_insert_cdc n srch key v m =
     answer (\<lambda>(old_value, cdc). (map_option pair_value old_value, cdc)) (cset_put_cdc n (map_ops srch) (MkPair key v) m)"

definition cmap_checked_insert_cdc ::
  "nat \<Rightarrow> ('k::linorder, 'v) pair search_fn \<Rightarrow> 'k \<Rightarrow> 'v \<Rightarrow> ('k, 'v) cmap \<Rightarrow>
     (('k, 'v) pair change_event list option \<times> ('k, 'v) cmap) option res" where
  "cmap_checked_insert_cdc n srch key v m =
     answer (\<lambda>r. case r of Ok (_, evs) \<Rightarrow> Some evs | Err _ \<Rightarrow> None) (cset_put_cdc_checked n (map_ops srch) (MkPair key v) m)"

definition cmap_remove ::
  "nat \<Rightarrow> ('k::linorder, 'v) pair search_fn \<Rightarrow> (('k, 'v) pair \<Rightarrow> 'q::linorder) \<Rightarrow> 'q \<Rightarrow> ('k, 'v) cmap \<Rightarrow>
     (('k \<times> 'v) option \<times> ('k, 'v) cmap) option res" where
  "cmap_remove n srch b key m = answer (map_option pair_tuple) (cset_remove n (map_ops srch) b key m)"

definition cmap_remove_cdc ::
  "nat \<Rightarrow> ('k::linorder, 'v) pair search_fn \<Rightarrow> (('k, 'v) pair \<Rightarrow> 'q::linorder) \<Rightarrow> 'q \<Rightarrow> ('k, 'v) cmap \<Rightarrow>
     ((('k \<times> 'v) option \<times> ('k, 'v) pair change_event list) \<times> ('k, 'v) cmap) option res" where
  "cmap_remove_cdc n srch b key m =
     answer (\<lambda>(old_value, cdc). (map_option pair_tuple old_value, cdc)) (cset_remove_cdc n (map_ops srch) b key m)"

definition cmap_len :: "('k, 'v) cmap \<Rightarrow> nat" where
  "cmap_len m = cset_len m"

definition cmap_is_empty :: "('k, 'v) cmap \<Rightarrow> bool" where
  "cmap_is_empty m \<longleftrightarrow> cset_is_empty m"

definition cmap_node_count :: "('k, 'v) cmap \<Rightarrow> nat" where
  "cmap_node_count m = cset_node_count m"

text \<open>The iterators: the set's, projected to tuples.\<close>

definition cmap_iter :: "('k, 'v) cmap \<Rightarrow> ('k, 'v) pair citer" where
  "cmap_iter m = citer_new"

definition cmap_range ::
  "(('k::linorder, 'v) pair \<Rightarrow> 'q::linorder) \<Rightarrow> 'q bound \<Rightarrow> 'q bound \<Rightarrow> ('k, 'v) cmap \<Rightarrow> ('k, 'v) pair citer" where
  "cmap_range b lo hi m = cset_range pair_key b lo hi m"

definition cmap_iter_next ::
  "nat \<Rightarrow> (nat \<Rightarrow> ('k::linorder, 'v) cmap) \<Rightarrow> nat \<Rightarrow> ('k, 'v) pair citer \<Rightarrow> (('k \<times> 'v) option \<times> nat \<times> ('k, 'v) pair citer) option res" where
  "cmap_iter_next n st t it = answer (map_option pair_tuple) (citer_next n pair_key st t it)"

definition cmap_iter_next_back ::
  "nat \<Rightarrow> (nat \<Rightarrow> ('k::linorder, 'v) cmap) \<Rightarrow> nat \<Rightarrow> ('k, 'v) pair citer \<Rightarrow> (('k \<times> 'v) option \<times> nat \<times> ('k, 'v) pair citer) option res" where
  "cmap_iter_next_back n st t it = answer (map_option pair_tuple) (citer_next_back n pair_key st t it)"

section \<open>Topology images\<close>

record 'a topology_image =
  im_node_capacity :: nat
  im_nodes :: "'a list list"

datatype topology_error =
    ZeroNodeCapacity
  | EmptyNode nat
  | OversizedNode nat nat nat
  | UnsortedNode nat
  | OverlappingNodes nat nat

definition cmap_attach_node :: "('k::linorder, 'v) pair search_fn \<Rightarrow> ('k, 'v) pair list \<Rightarrow> ('k, 'v) cmap \<Rightarrow> ('k, 'v) cmap res" where
  "cmap_attach_node srch node m = attach_node (map_ops srch) node m"

definition cmap_attach_nodes :: "('k::linorder, 'v) pair search_fn \<Rightarrow> ('k, 'v) pair list list \<Rightarrow> ('k, 'v) cmap \<Rightarrow> ('k, 'v) cmap res" where
  "cmap_attach_nodes srch nodes m = attach_nodes (map_ops srch) nodes m"

definition cmap_snapshot_nodes :: "('k, 'v) cmap \<Rightarrow> ('k, 'v) pair list list" where
  "cmap_snapshot_nodes m = map (\<lambda>(_, a). cs_nodes m a) (canon (cs_index m))"

definition cmap_export_topology :: "('k, 'v) cmap \<Rightarrow> ('k, 'v) pair topology_image" where
  "cmap_export_topology m = (let (capacity, nodes) = export_topology m in \<lparr> im_node_capacity = capacity, im_nodes = nodes \<rparr>)"

text \<open>\<open>node.windows(2).any(|pair| pair[0] >= pair[1])\<close>.\<close>

fun any_window :: "('a \<Rightarrow> 'a \<Rightarrow> bool) \<Rightarrow> 'a list \<Rightarrow> bool" where
  "any_window p (x # y # zs) \<longleftrightarrow> p x y \<or> any_window p (y # zs)"
| "any_window p _ \<longleftrightarrow> False"

text \<open>One turn of the validation loop: the error to return, if any.\<close>

definition check_node :: "('k::linorder, 'v) pair topology_image \<Rightarrow> nat \<Rightarrow> ('k, 'v) pair list \<Rightarrow> topology_error option res" where
  "check_node topology i node =
     (if node = [] then Inr (Some (EmptyNode i))
      else if im_node_capacity topology < length node
        then Inr (Some (OversizedNode i (length node) (im_node_capacity topology)))
      else if any_window (\<lambda>x y. pair_cmp x y \<noteq> Less) node then Inr (Some (UnsortedNode i))
      else if 0 < i then
        rbind (vec_index (im_nodes topology) (i - 1)) (\<lambda>previous.
        rbind (unwrap (vec_last previous)) (\<lambda>last_value.
        rbind (unwrap (vec_first node)) (\<lambda>first_value.
        Inr (if pair_cmp last_value first_value \<noteq> Less then Some (OverlappingNodes (i - 1) i) else None))))
      else Inr None)"

fun check_nodes :: "('k::linorder, 'v) pair topology_image \<Rightarrow> nat \<Rightarrow> ('k, 'v) pair list list \<Rightarrow> topology_error option res" where
  "check_nodes topology i [] = Inr None"
| "check_nodes topology i (node # nodes) =
     rbind (check_node topology i node) (\<lambda>e. case e of
        Some err \<Rightarrow> Inr (Some err)
      | None \<Rightarrow> check_nodes topology (Suc i) nodes)"

text \<open>A node filled value by value; the debug assertion is that every value was new.\<close>

fun fill_node :: "('k::linorder, 'v) pair search_fn \<Rightarrow> ('k, 'v) pair list \<Rightarrow> ('k, 'v) pair list \<Rightarrow> ('k, 'v) pair list res" where
  "fill_node srch [] node = Inr node"
| "fill_node srch (v # vs) node =
     rbind (node_insert srch pair_key node v) (\<lambda>((inserted, _), node').
     if inserted then fill_node srch vs node' else Inl DebugAssertFailed)"

fun fill_nodes :: "('k::linorder, 'v) pair search_fn \<Rightarrow> nat \<Rightarrow> ('k, 'v) pair list list \<Rightarrow> ('k, 'v) pair list list res" where
  "fill_nodes srch capacity [] = Inr []"
| "fill_nodes srch capacity (vs # vss) =
     rbind (fill_node srch vs (node_with_capacity capacity)) (\<lambda>node.
     rbind (fill_nodes srch capacity vss) (\<lambda>nodes. Inr (node # nodes)))"

definition from_topology ::
  "('k::linorder, 'v) pair search_fn \<Rightarrow> ('k, 'v) pair topology_image \<Rightarrow> (('k, 'v) cmap, topology_error) rust_result res" where
  "from_topology srch topology =
     (if im_node_capacity topology = 0 then Inr (Err ZeroNodeCapacity)
      else
        rbind (check_nodes topology 0 (im_nodes topology)) (\<lambda>e. case e of
          Some err \<Rightarrow> Inr (Err err)
        | None \<Rightarrow>
            rbind (fill_nodes srch (im_node_capacity topology) (im_nodes topology)) (\<lambda>nodes.
            rbind (cmap_attach_nodes srch nodes (cmap_with_maximum_node_size (im_node_capacity topology))) (\<lambda>m.
            Inr (Ok m)))))"

end
