(* ===== verification/Concurrent_Map_Facts.thy ===== *)
theory Concurrent_Map_Facts
  imports Concurrent_Iter_Props Concurrent_Attach Concurrent_Map Map_Contract
begin

text \<open>
  The concurrent map seen as a finite function: what lookup, insertion, checked insertion and removal
  do to it, the interface \<open>map_provider\<close> interpreted on the operations of the map, and the validation
  and rebuilding of a map from an image of its nodes.
\<close>

section \<open>Lookup and update\<close>

definition cmap_lookup :: "('k, 'v) cmap \<Rightarrow> 'k \<Rightarrow> 'v option" where
  "cmap_lookup m key = map_option pair_value (find_key pair_key key (elements m))"

lemma map_ops_simps [simp]:
  "op_key (map_ops srch) = pair_key" "op_search (map_ops srch) = srch" "op_adopt (map_ops srch) = no_identity_adoption"
  by (simp_all add: map_ops_def)

lemma map_ops_lawful: "search_backend srch \<Longrightarrow> cset_ops (map_ops srch)"
  by (simp add: cset_ops_def no_identity_adoption_def)

lemma answer_simps [simp]: "answer g (Inr None) = Inr None" "answer g (Inr (Some (x, s))) = Inr (Some (g x, s))"
  by (simp_all add: answer_def)

lemma fueled_simps [simp]: "fueled (Inr (Some y)) = Inr y"
  by (simp add: fueled_def)

lemma find_replaced:
  "find_key k q (map (\<lambda>x. if k x = k v then no_identity_adoption x v else x) xs) = (if q = k v \<and> has_key k q xs then Some v else find_key k q xs)"
  by (induction xs) (auto simp: find_key_def has_key_def no_identity_adoption_def)

lemma find_inserted:
  "k v \<notin> k ` set xs \<Longrightarrow> find_key k q (xs @ v # ys) = (if q = k v then Some v else find_key k q (xs @ ys))"
  by (induction xs) (auto simp: find_key_def)

lemma find_put:
  "find_key k q (snd (spec_put k no_identity_adoption v xs)) = (if q = k v then Some v else find_key k q xs)"
proof (cases "has_key k (k v) xs")
  case True
  then show ?thesis
    using find_replaced [of k q v xs] by (simp add: spec_put_def)
next
  case False
  then have "k v \<notin> k ` set (takeWhile (\<lambda>x. k x < k v) xs)"
    by (auto simp: has_key_def dest: set_takeWhileD)
  from find_inserted [OF this, of q "dropWhile (\<lambda>x. k x < k v) xs"] show ?thesis
    using False by (simp add: spec_put_def ins_key_def)
qed

lemma find_removed: "find_key k q (del_key k p xs) = (if q = p then None else find_key k q xs)"
  by (induction xs) (auto simp: find_key_def del_key_def)

text \<open>Reading a set that nobody changes.\<close>

lemma still_get_with:
  assumes "cset_ops P" and "cset_ok (op_key P) s" and "borrow_ok (op_key P) b"
  shows "get_with (op_search P) b q read (\<lambda>_. s) = Inr (map_option read (find_key b q (elements s)))"
proof -
  have "reader_view (op_key P) (\<lambda>_. s)"
    using assms(2) by (auto simp: reader_view_def cset_ok_view view_ok_def dest: in_stepD(3))
  then show ?thesis
    using cset_ops.get_with_sound [OF assms(1) _ assms(3), of "\<lambda>_. s"] assms(2) by auto
qed

lemma cmap_insert_ok:
  assumes "search_backend srch" and "cset_ok pair_key m"
  shows "\<exists>m'. cmap_insert 1 srch key v m = Inr (Some (cmap_lookup m key, m')) \<and> cset_ok pair_key m' \<and>
    cmap_lookup m' = (cmap_lookup m)(key \<mapsto> v) \<and> (settled pair_key m \<longrightarrow> settled pair_key m')"
proof -
  obtain old evs m' where p: "put_inner 1 False (map_ops srch) (MkPair key v) m = Inr (Some ((old, evs), m'))" "cset_ok pair_key m'"
    "spec_put pair_key no_identity_adoption (MkPair key v) (elements m) = (old, elements m')" "settled pair_key m \<longrightarrow> settled pair_key m'"
    using cset_ops.put_inner_ok [OF map_ops_lawful [OF assms(1)], of m 1 False "MkPair key v"] assms(2) by auto
  have "old = find_key pair_key key (elements m)"
    using p(3) by (simp add: spec_put_def)
  moreover have "cmap_lookup m' = (cmap_lookup m)(key \<mapsto> v)"
    using find_put [of pair_key _ "MkPair key v" "elements m"] p(3) by (auto simp: cmap_lookup_def)
  ultimately show ?thesis
    using p by (simp add: cmap_insert_def cset_put_def cmap_lookup_def)
qed

lemma cmap_remove_ok:
  assumes "search_backend srch" and "cset_ok pair_key m"
  shows "\<exists>m'. cmap_remove 1 srch pair_key key m = Inr (Some (map_option (Pair key) (cmap_lookup m key), m')) \<and> cset_ok pair_key m' \<and>
    cmap_lookup m' = (cmap_lookup m)(key := None) \<and> (settled pair_key m \<longrightarrow> settled pair_key m')"
proof -
  obtain old evs m' where p: "remove_inner 1 False (map_ops srch) pair_key key m = Inr (Some ((old, evs), m'))" "cset_ok pair_key m'"
    "spec_remove pair_key key (elements m) = (old, elements m')" "settled pair_key m \<longrightarrow> settled pair_key m'"
    using cset_ops.remove_inner_ok [OF map_ops_lawful [OF assms(1)], of m pair_key 1 False key] assms(2) by (auto simp: borrow_ok_def)
  have "map_option pair_tuple old = map_option (Pair key) (cmap_lookup m key)"
  proof (cases "find_key pair_key key (elements m)")
    case (Some x)
    then have "old = Some x" "pair_key x = key"
      using p(3) find_key_Some [OF Some] by (simp_all add: spec_remove_def)
    then show ?thesis
      using Some by (simp add: cmap_lookup_def pair_tuple_def)
  qed (use p(3) in \<open>simp add: spec_remove_def cmap_lookup_def\<close>)
  moreover have "cmap_lookup m' = (cmap_lookup m)(key := None)"
    using find_removed [of pair_key _ key "elements m"] p(3) by (auto simp: cmap_lookup_def spec_remove_def)
  ultimately show ?thesis
    using p by (simp add: cmap_remove_def cset_remove_def)
qed

lemma lookup_for_select_eq:
  assumes "search_backend srch" and "cset_ok pair_key m"
  shows "lookup_for_select srch pair_key key (\<lambda>_. m) = Inr (cmap_lookup m key)"
  using still_get_with [OF map_ops_lawful [OF assms(1)], of m pair_key key pair_value] assms(2)
  by (simp add: lookup_for_select_def cmap_lookup_def borrow_ok_def)

definition value_removed :: "(('k \<times> 'v) option \<times> 'm) res \<Rightarrow> ('v option \<times> 'm) res" where
  "value_removed r = rbind r (\<lambda>(x, m). Inr (map_option snd x, m))"

lemma cmap_provider:
  fixes srch :: "('k::linorder, 'v) pair search_fn"
  assumes "search_backend srch"
  shows "map_provider (\<lambda>m key. lookup_for_select srch pair_key key (\<lambda>_. m)) (\<lambda>m key v. fueled (cmap_insert 1 srch key v m))
    (\<lambda>m key. value_removed (fueled (cmap_remove 1 srch pair_key key m))) cmap_lookup (cset_ok pair_key)"
proof
  fix m :: "('k, 'v) cmap" and key v
  assume ok: "cset_ok pair_key m"
  show "lookup_for_select srch pair_key key (\<lambda>_. m) = Inr (cmap_lookup m key)"
    by (rule lookup_for_select_eq [OF assms ok])
  show "\<exists>m'. fueled (cmap_insert 1 srch key v m) = Inr (cmap_lookup m key, m') \<and> cset_ok pair_key m' \<and> cmap_lookup m' = (cmap_lookup m)(key \<mapsto> v)"
    using cmap_insert_ok [OF assms ok, of key v] by auto
  show "\<exists>m'. value_removed (fueled (cmap_remove 1 srch pair_key key m)) = Inr (cmap_lookup m key, m') \<and> cset_ok pair_key m' \<and>
      cmap_lookup m' = (cmap_lookup m)(key := None)"
    using cmap_remove_ok [OF assms ok, of key] by (auto simp: value_removed_def option.map_comp comp_def option.map_ident)
qed

interpretation vec_map: map_provider "\<lambda>m key. lookup_for_select search pair_key key (\<lambda>_. m)" "\<lambda>m key v. fueled (cmap_insert 1 search key v m)"
  "\<lambda>m key. value_removed (fueled (cmap_remove 1 search pair_key key m))" cmap_lookup "cset_ok pair_key"
  by (rule cmap_provider [OF custom.search_backend_axioms])

section \<open>Checked insertion\<close>

lemma cmap_checked_insert_ok:
  assumes "search_backend srch" and "cset_ok pair_key m"
  shows "if cmap_lookup m key \<noteq> None \<and> \<not> put_full (map_ops srch) (MkPair key v) m
    then cmap_checked_insert 1 srch key v m = Inr (Some (None, m))
    else \<exists>m'. cmap_checked_insert 1 srch key v m = Inr (Some (Some (), m')) \<and> cset_ok pair_key m' \<and>
      cmap_lookup m' = (cmap_lookup m)(key \<mapsto> v)"
proof -
  let ?v = "MkPair key v"
  note lawful = map_ops_lawful [OF assms(1)]
  from cset_ops.put_checked_inner_ok [OF lawful, of m 1 False ?v] assms(2)
  consider (stored) old evs m' where "put_checked_inner 1 False (map_ops srch) ?v m = Inr (Some (Ok (old, evs), m'))" "cset_ok pair_key m'"
      "spec_put pair_key no_identity_adoption ?v (elements m) = (old, elements m')" "old = None \<or> put_full (map_ops srch) ?v m"
    | (refused) A ky a B e where "put_checked_inner 1 False (map_ops srch) ?v m = Inr (Some (Err e, m))"
      "focus pair_key key (canon (cs_index m)) A ky a B" "has_key pair_key key (cs_nodes m a)" "\<not> put_full (map_ops srch) ?v m"
    by auto
  then show ?thesis
  proof cases
    case stored
    have "old = find_key pair_key key (elements m)"
      using stored(3) by (simp add: spec_put_def)
    then have "cmap_lookup m key = None \<or> put_full (map_ops srch) ?v m"
      using stored(4) by (auto simp: cmap_lookup_def)
    moreover have "cmap_lookup m' = (cmap_lookup m)(key \<mapsto> v)"
      using find_put [of pair_key _ ?v "elements m"] stored(3) by (auto simp: cmap_lookup_def)
    ultimately show ?thesis
      using stored(1,2) by (auto simp: cmap_checked_insert_def cset_put_checked_def)
  next
    case refused
    have "has_key pair_key key (elements m)"
      using refused(2,3) by (auto simp: elements_def focus_def has_key_def)
    then have "cmap_lookup m key \<noteq> None"
      by (simp add: cmap_lookup_def find_key_None)
    then show ?thesis
      using refused(1,4) by (simp add: cmap_checked_insert_def cset_put_checked_def)
  qed
qed

section \<open>Images\<close>

definition image_ok :: "('k::linorder, 'v) pair topology_image \<Rightarrow> bool" where
  "image_ok im \<longleftrightarrow> 0 < im_node_capacity im \<and> (\<forall>n\<in>set (im_nodes im). n \<noteq> [] \<and> length n \<le> im_node_capacity im) \<and>
     sorted_keys pair_key (concat (im_nodes im))"

lemma pair_cmp_Less [simp]: "pair_cmp x y = Less \<longleftrightarrow> pair_key x < pair_key y"
  by (simp add: pair_cmp_def compare_def)

lemma any_window_sorted: "any_window (\<lambda>x y. \<not> k x < k y) n \<longleftrightarrow> \<not> sorted_keys k n"
proof (induction "\<lambda>x y. \<not> k x < k y" n rule: any_window.induct)
  case (1 x y zs)
  then show ?case
    by (auto intro: less_trans)
qed simp_all

text \<open>Each node strictly ordered and above the one before.\<close>

fun linked :: "('a \<Rightarrow> 'k::linorder) \<Rightarrow> 'k option \<Rightarrow> 'a list list \<Rightarrow> bool" where
  "linked k lo [] \<longleftrightarrow> True"
| "linked k lo (n # ns) \<longleftrightarrow> sorted_keys k n \<and> over lo (k (hd n)) \<and> linked k (Some (k (last n))) ns"

lemma linked_concat:
  "[] \<notin> set ns \<Longrightarrow> linked k lo ns \<longleftrightarrow> sorted_keys k (concat ns) \<and> (\<forall>x\<in>set (concat ns). over lo (k x))"
proof (induction ns arbitrary: lo)
  case (Cons n ns)
  then have n: "n \<noteq> []" "hd n \<in> set n" "last n \<in> set n"
    by auto
  show ?case
  proof (cases "sorted_keys k n")
    case True
    have ends: "k x \<le> k (last n)" "k (hd n) \<le> k x" if "x \<in> set n" for x
      using sorted_keys_ends [OF True that] by simp_all
    have "(\<forall>x\<in>set n. over lo (k x)) \<longleftrightarrow> over lo (k (hd n))"
      using ends n(2) over_trans by blast
    moreover have "(\<forall>x\<in>set n. \<forall>y\<in>set (concat ns). k x < k y) \<longleftrightarrow> (\<forall>y\<in>set (concat ns). k (last n) < k y)"
      using ends n(3) by (meson le_less_trans)
    moreover have "over lo y" if "over lo (k (hd n))" "k (last n) < y" for y
      using that ends n(2) over_trans by (meson less_imp_le order_trans)
    ultimately show ?thesis
      using Cons.IH [of "Some (k (last n))"] Cons.prems True by auto
  qed simp
qed simp

lemma check_nodes_ok:
  assumes "im_nodes im = prev @ rest" and "[] \<notin> set prev"
  shows "\<exists>e. check_nodes im (length prev) rest = Inr e \<and>
    (e = None \<longleftrightarrow> (\<forall>n\<in>set rest. n \<noteq> [] \<and> length n \<le> im_node_capacity im) \<and>
      linked pair_key (if prev = [] then None else Some (pair_key (last (last prev)))) rest)"
  using assms
proof (induction rest arbitrary: prev)
  case (Cons n rest)
  let ?lo = "if prev = [] then None else Some (pair_key (last (last prev)))"
  have step: "\<exists>e. check_node im (length prev) n = Inr e \<and>
      (e = None \<longleftrightarrow> n \<noteq> [] \<and> length n \<le> im_node_capacity im \<and> sorted_keys pair_key n \<and> over ?lo (pair_key (hd n)))"
  proof (cases prev rule: rev_cases)
    case Nil
    then show ?thesis
      by (auto simp: check_node_def any_window_sorted [where k = pair_key])
  next
    case (snoc ds d)
    then have "vec_index (im_nodes im) (length prev - 1) = Inr d" "d \<noteq> []"
      using Cons.prems by (auto simp: vec_index_def nth_append)
    then show ?thesis
      using snoc by (cases n) (auto simp: check_node_def any_window_sorted [where k = pair_key] vec_last_def vec_first_def simp del: any_window.simps sorted_keys_simps)
  qed
  have rest_ok: "\<exists>e. check_nodes im (Suc (length prev)) rest = Inr e \<and>
      (e = None \<longleftrightarrow> (\<forall>n\<in>set rest. n \<noteq> [] \<and> length n \<le> im_node_capacity im) \<and> linked pair_key (Some (pair_key (last n))) rest)" if "n \<noteq> []"
    using Cons.IH [of "prev @ [n]"] Cons.prems that by auto
  show ?case
    using step rest_ok by (cases "n = []") (auto split: option.splits)
qed simp

lemma fill_node_ok:
  assumes "search_backend srch" and "sorted_keys pair_key (node @ vs)"
  shows "fill_node srch vs node = Inr (node @ vs)"
  using assms(2)
proof (induction vs arbitrary: node)
  case (Cons v vs)
  then have v: "sorted_keys pair_key node" "\<forall>x\<in>set node. pair_key x < pair_key v"
    by auto
  then have "\<not> has_key pair_key (pair_key v) node"
    by (auto simp: has_key_def)
  moreover have "ins_key pair_key v node = node @ [v]"
    using ins_key_mid [of node pair_key v "[]" "[]"] v(2) by (simp add: ins_key_def)
  ultimately show ?case
    using search_backend.node_insert_eq [OF assms(1) v(1), of v] Cons.IH [of "node @ [v]"] Cons.prems by simp
qed simp

lemma fill_nodes_ok:
  assumes "search_backend srch"
  shows "\<forall>n\<in>set ns. sorted_keys pair_key n \<Longrightarrow> fill_nodes srch c ns = Inr ns"
  by (induction ns) (simp_all add: fill_node_ok [OF assms] node_with_capacity_def)

lemma sorted_keys_concat: "sorted_keys k (concat ns) \<Longrightarrow> n \<in> set ns \<Longrightarrow> sorted_keys k n"
  by (induction ns) auto

lemma check_nodes_image:
  assumes "0 < im_node_capacity im"
  shows "\<exists>e. check_nodes im 0 (im_nodes im) = Inr e \<and> (e = None \<longleftrightarrow> image_ok im)"
proof -
  obtain e where e: "check_nodes im 0 (im_nodes im) = Inr e"
    "e = None \<longleftrightarrow> (\<forall>n\<in>set (im_nodes im). n \<noteq> [] \<and> length n \<le> im_node_capacity im) \<and> linked pair_key None (im_nodes im)"
    using check_nodes_ok [of im "[]" "im_nodes im"] by auto
  have "linked pair_key None (im_nodes im) \<longleftrightarrow> sorted_keys pair_key (concat (im_nodes im))" if "\<forall>n\<in>set (im_nodes im). n \<noteq> []"
    using linked_concat [of "im_nodes im" pair_key None] that by auto
  then show ?thesis
    using e assms by (auto simp: image_ok_def)
qed

lemma from_topology_Ok:
  assumes "search_backend srch" and "image_ok im"
  shows "\<exists>m. from_topology srch im = Inr (Ok m) \<and> cset_ok pair_key m \<and> settled pair_key m \<and> cmap_export_topology m = im"
proof -
  let ?s = "cset_with_maximum_node_size (im_node_capacity im) :: ('a, 'b) cmap"
  note im = assms(2) [unfolded image_ok_def]
  have "settled pair_key ?s" "canon (cs_index ?s) = []" "cs_capacity ?s = im_node_capacity im"
    by (simp_all add: settled_def cset_with_maximum_node_size_def topology_new_def)
  then obtain m where m: "attach_nodes (map_ops srch) (im_nodes im) ?s = Inr m" "cset_ok pair_key m" "settled pair_key m"
    "export_topology m = (im_node_capacity im, im_nodes im)"
    using cset_ops.attach_nodes_ok [OF map_ops_lawful [OF assms(1)], of ?s "im_nodes im"] im cset_new_ok(1)
    by (auto simp: export_topology_def)
  moreover have "fill_nodes srch (im_node_capacity im) (im_nodes im) = Inr (im_nodes im)"
    using fill_nodes_ok [OF assms(1)] sorted_keys_concat im by blast
  moreover obtain e where "check_nodes im 0 (im_nodes im) = Inr e" "e = None"
    using check_nodes_image assms(2) im by blast
  ultimately show ?thesis
    using im by (simp add: from_topology_def cmap_attach_nodes_def cmap_with_maximum_node_size_def cmap_export_topology_def)
qed

lemma from_topology_Err:
  assumes "\<not> image_ok im"
  shows "\<exists>e. from_topology srch im = Inr (Err e)"
  using check_nodes_image [of im] assms by (auto simp: from_topology_def)

end
