(* ===== verification/Concurrent_Map_Props.thy ===== *)
theory Concurrent_Map_Props
  imports Concurrent_Map_Facts
begin

text \<open>
  The properties of \<open>src/concurrent/map.rs\<close>.
\<close>

definition some_map :: "(nat, nat) cmap" where
  "some_map = (case insert_each 1 (map_ops search) [MkPair 3 30, MkPair 8 80, MkPair 5 50, MkPair 9 90] (cset_with_maximum_node_size 2) of
     Inr (Some s) \<Rightarrow> s | _ \<Rightarrow> cset_default)"

lemma some_map_ok: "cset_ok pair_key some_map" "settled pair_key some_map"
  "elements some_map = [MkPair 3 30, MkPair 5 50, MkPair 8 80, MkPair 9 90]"
proof -
  let ?vs = "[MkPair 3 30, MkPair 8 80, MkPair 5 50, MkPair (9::nat) (90::nat)]"
  obtain s :: "(nat, nat) cmap" where "insert_each 1 (map_ops search) ?vs (cset_with_maximum_node_size 2) = Inr (Some s)"
    "cset_ok pair_key s" "settled pair_key s"
    "elements s = fold (\<lambda>v xs. snd (spec_put pair_key no_identity_adoption v xs)) ?vs []"
    by (rule built_set [OF map_ops_lawful [OF custom.search_backend_axioms], where vs = "?vs" and c = 2]) (simp only: map_ops_simps)
  moreover have "fold (\<lambda>v xs. snd (spec_put pair_key no_identity_adoption v xs)) ?vs [] = [MkPair 3 30, MkPair 5 50, MkPair 8 80, MkPair 9 90]"
    by code_simp
  ultimately show "cset_ok pair_key some_map" "settled pair_key some_map"
    "elements some_map = [MkPair 3 30, MkPair 5 50, MkPair 8 80, MkPair 9 90]"
    unfolding some_map_def by (simp_all del: insert_each.simps fold_Cons)
qed

text \<open>
  C10: the concurrent map refines a finite function: any sequence of \<open>lookup_for_select\<close>, \<open>insert\<close> and
  \<open>remove\<close> calls, over any lawful node search, never panics, finishes within one attempt each, gives
  the answers of the finite function, and ends in the state the finite function says.
\<close>

theorem cmap_refines_map:
  assumes "search_backend srch" and "cset_ok pair_key m"
  shows "\<exists>m'. run_calls (\<lambda>m key. lookup_for_select srch pair_key key (\<lambda>_. m)) (\<lambda>m key v. fueled (cmap_insert 1 srch key v m))
      (\<lambda>m key. value_removed (fueled (cmap_remove 1 srch pair_key key m))) prog m =
        Inr (fst (spec_calls prog (cmap_lookup m)), m') \<and>
    cset_ok pair_key m' \<and> cmap_lookup m' = snd (spec_calls prog (cmap_lookup m))"
  using map_provider.run_refines [OF cmap_provider [OF assms(1)] assms(2)] .

theorem cmap_refines_map_witness:
  "\<exists>m'. run_calls (\<lambda>m key. lookup_for_select search pair_key key (\<lambda>_. m)) (\<lambda>m key v. fueled (cmap_insert 1 search key v m))
      (\<lambda>m key. value_removed (fueled (cmap_remove 1 search pair_key key m))) [Get 5, Insert 5 7, Remove 3, Get 3, Get 5] some_map =
        Inr ([Some 50, Some 50, Some 30, None, Some 7], m') \<and> cset_ok pair_key m'"
  using cmap_refines_map [OF custom.search_backend_axioms some_map_ok(1), of "[Get 5, Insert 5 7, Remove 3, Get 3, Get 5]"]
  by (auto simp: cmap_lookup_def some_map_ok(3) find_key_def)

text \<open>
  C20: \<open>checked_insert\<close> on every branch. A new key is stored and the answer is \<open>Some(())\<close>. A key that
  is present is refused with \<open>None\<close> and the map stays as it is, provided that the node of the key
  has room; when that node is full, the value is overwritten and the answer is \<open>Some(())\<close> nevertheless.
\<close>

theorem cmap_checked_insert_correct:
  assumes "search_backend srch" and "cset_ok pair_key m"
  shows "if cmap_lookup m key \<noteq> None \<and> \<not> put_full (map_ops srch) (MkPair key v) m
    then cmap_checked_insert 1 srch key v m = Inr (Some (None, m))
    else \<exists>m'. cmap_checked_insert 1 srch key v m = Inr (Some (Some (), m')) \<and> cset_ok pair_key m' \<and>
      cmap_lookup m' = (cmap_lookup m)(key \<mapsto> v)"
  by (rule cmap_checked_insert_ok [OF assms])

lemma some_map_full: "put_full (map_ops search) (MkPair 8 0) some_map" "\<not> put_full (map_ops search) (MkPair 3 0) some_map"
  by code_simp+

theorem cmap_checked_insert_correct_witness:
  "cmap_checked_insert 1 search 3 0 some_map = Inr (Some (None, some_map)) \<and>
   (\<exists>m'. cmap_checked_insert 1 search 8 0 some_map = Inr (Some (Some (), m')) \<and> cset_ok pair_key m' \<and>
      cmap_lookup m' = (cmap_lookup some_map)(8 \<mapsto> 0))"
  using cmap_checked_insert_correct [OF custom.search_backend_axioms some_map_ok(1), of 3 0]
    cmap_checked_insert_correct [OF custom.search_backend_axioms some_map_ok(1), of 8 0] some_map_full
  by (simp add: cmap_lookup_def some_map_ok(3) find_key_def)

text \<open>
  C19: \<open>from_topology\<close> is total: an image of positive capacity whose nodes are non-empty, no larger
  than the capacity, and strictly ascending within and across nodes gives a map that satisfies the
  invariant and whose own image is the one it was built from; every other image is refused with an
  error. No panic and no debug assertion is reached.
\<close>

theorem from_topology_total:
  assumes "search_backend srch"
  shows "if image_ok im
    then \<exists>m. from_topology srch im = Inr (Ok m) \<and> cset_ok pair_key m \<and> settled pair_key m \<and> cmap_export_topology m = im
    else \<exists>e. from_topology srch im = Inr (Err e)"
  using from_topology_Ok [OF assms] from_topology_Err by auto

theorem from_topology_total_witness:
  "\<exists>m e. from_topology search \<lparr> im_node_capacity = 2, im_nodes = [[MkPair (1::nat) ''a'', MkPair 2 ''b''], [MkPair 5 ''c'']] \<rparr> = Inr (Ok m) \<and>
     cmap_snapshot_nodes m = [[MkPair 1 ''a'', MkPair 2 ''b''], [MkPair 5 ''c'']] \<and>
     from_topology search \<lparr> im_node_capacity = 2, im_nodes = [[MkPair (1::nat) ''a'', MkPair 2 ''b''], [MkPair 2 ''c'']] \<rparr> = Inr (Err e)"
  using from_topology_total [OF custom.search_backend_axioms, of "\<lparr> im_node_capacity = 2, im_nodes = [[MkPair (1::nat) ''a'', MkPair 2 ''b''], [MkPair 5 ''c'']] \<rparr>"]
    from_topology_total [OF custom.search_backend_axioms, of "\<lparr> im_node_capacity = 2, im_nodes = [[MkPair (1::nat) ''a'', MkPair 2 ''b''], [MkPair 2 ''c'']] \<rparr>"]
  by (auto simp: image_ok_def cmap_export_topology_def export_topology_def cmap_snapshot_nodes_def)

lemma exported_image:
  assumes "cset_ok pair_key m" and "settled pair_key m" and "0 < cs_capacity m"
    and "\<forall>r\<in>set (canon (cs_index m)). length (cs_nodes m (snd r)) \<le> cs_capacity m"
  shows "image_ok (cmap_export_topology m)"
proof -
  have "concat (snd (export_topology m)) = elements m"
    by (simp add: export_topology_def elements_def contents_def case_prod_unfold)
  moreover have "cs_nodes m (snd r) \<noteq> []" if "r \<in> set idx" "closed_run pair_key (cs_nodes m) lo idx" for r idx lo
    using that by (induction idx arbitrary: lo) (auto simp: node_in_def)
  ultimately show ?thesis
    using assms cset_okD(6) [OF assms(1)] by (auto simp: image_ok_def cmap_export_topology_def export_topology_def settled_def)
qed

text \<open>
  An image taken of a map gives that map back: as long as no routing change is pending and no
  node is larger than the capacity, \<open>from_topology\<close> of \<open>export_topology\<close> succeeds, with the same
  elements, the same lookup and the same image.
\<close>

theorem topology_round_trip:
  assumes "search_backend srch" and "cset_ok pair_key m" and "settled pair_key m" and "0 < cs_capacity m"
    and "\<forall>r\<in>set (canon (cs_index m)). length (cs_nodes m (snd r)) \<le> cs_capacity m"
  shows "\<exists>m'. from_topology srch (cmap_export_topology m) = Inr (Ok m') \<and> cset_ok pair_key m' \<and>
    cmap_export_topology m' = cmap_export_topology m \<and> elements m' = elements m \<and> cmap_lookup m' = cmap_lookup m"
proof -
  obtain m' where m': "from_topology srch (cmap_export_topology m) = Inr (Ok m')" "cset_ok pair_key m'"
    "cmap_export_topology m' = cmap_export_topology m"
    using from_topology_Ok [OF assms(1) exported_image [OF assms(2-)]] by blast
  have "elements s = concat (im_nodes (cmap_export_topology s))" for s :: "('a, 'b) cmap"
    by (simp add: cmap_export_topology_def export_topology_def elements_def contents_def case_prod_unfold)
  then have "elements m' = elements m"
    using m'(3) by simp
  then show ?thesis
    using m' by (auto simp: cmap_lookup_def)
qed

theorem topology_round_trip_witness:
  "\<exists>m'. from_topology search (cmap_export_topology some_map) = Inr (Ok m') \<and> elements m' = [MkPair 3 30, MkPair 5 50, MkPair 8 80, MkPair 9 90]"
proof -
  have "cs_capacity some_map = 2" "list_all (\<lambda>r. length (cs_nodes some_map (snd r)) \<le> 2) (canon (cs_index some_map))"
    by code_simp+
  then show ?thesis
    using topology_round_trip [OF custom.search_backend_axioms some_map_ok(1,2)] some_map_ok(3) by (auto simp: list_all_iff)
qed

end
