(* ===== verification/Concurrent_Grouped.thy ===== *)
theory Concurrent_Grouped
  imports Concurrent_Range Concurrent_Read
begin

text \<open>
  Looking up and removing by a borrowed form under which several elements are alike, the way a
  multimap looks up keys: routing leads to the first node whose key is not below the one asked for,
  and that node holds an element alike if any node does, provided that no routing change is pending.
\<close>

context search_backend
begin

lemma grouped_search:
  assumes "sorted (map b n)"
  shows "\<exists>r. srch n (cmp_by b q) = Inr r \<and> (case r of Ok i \<Rightarrow> i < length n \<and> b (n ! i) = q | Err _ \<Rightarrow> \<not> has_key b q n)"
proof -
  obtain r where r: "srch n (cmp_by b q) = Inr r" "search_spec n (cmp_by b q) r"
    using search_lawful [OF sorted_cmp_by [OF assms]] by blast
  have "\<not> has_key b q n" if "r = Err i" for i
  proof
    assume "has_key b q n"
    then obtain p where "p < length n" "b (n ! p) = q"
      by (auto simp: has_key_def in_set_conv_nth)
    then show False
      using r(2) that by (cases "p < i") (auto simp: search_spec_def dest: spec [of _ p])
  qed
  then show ?thesis
    using r by (cases r) (auto simp: search_spec_def)
qed

end

lemma closed_run_bound:
  "closed_run k nodes lo idx \<Longrightarrow> x \<in> set (contents nodes idx) \<Longrightarrow> \<exists>r\<in>set idx. k x \<le> k (fst r)"
  by (induction idx arbitrary: lo) (fastforce simp: node_in_def)+

context cset_ops
begin

lemma key_held:
  assumes "cset_ok k s" and "keyed k s" and "canon (cs_index s) = A @ (key, a) # B"
  obtains y where "y \<in> set (cs_nodes s a)" "k y = k key"
proof -
  note ok = cset_okD(3-5) [OF assms(1)]
  have fo: "focus k (k key) (canon (cs_index s)) A key a B"
    using ok(2) assms(3) by (auto simp: focus_def)
  obtain y where y: "y \<in> set (elements s)" "k y = k key"
    using assms(2,3) by (auto simp: keyed_def)
  then have "y \<in> set (cs_nodes s a)"
    using focus_facts(1,2,9) [OF ok fo] by (auto simp: elements_def)
  then show thesis
    using y(2) that by blast
qed

lemma grouped_focus:
  assumes "cset_ok k s" and "keyed k s" and "borrow_grouped k b" and "focus b q (canon (cs_index s)) A key a B"
  shows "sorted (map b (cs_nodes s a))" and "has_key b q (elements s) \<longleftrightarrow> has_key b q (cs_nodes s a)"
    and "focus k (k key) (canon (cs_index s)) A key a B"
proof -
  note ok = cset_okD(3-5) [OF assms(1)] and grp = borrow_groupedD [OF assms(3)]
  have idx: "canon (cs_index s) = A @ (key, a) # B" "\<forall>r\<in>set A. b (fst r) < q" "B \<noteq> [] \<longrightarrow> q \<le> b key"
    using assms(4) by (simp_all add: focus_def)
  show fo: "focus k (k key) (canon (cs_index s)) A key a B"
    using ok(2) idx(1) by (auto simp: focus_def)
  note f = focus_facts [OF ok fo]
  show "sorted (map b (cs_nodes s a))"
    using f(3) by (auto simp: node_in_def intro: sorted_keys_grouped [OF assms(3)])
  have below: "b x < q" if "x \<in> set (contents (cs_nodes s) A)" for x
  proof -
    have "\<exists>r\<in>set A. k x \<le> k (fst r)"
      by (rule closed_run_bound [OF f(5) that])
    then show ?thesis
      using idx(2) grp by (meson le_less_trans)
  qed
  have "has_key b q (cs_nodes s a)" if "x \<in> set (contents (cs_nodes s) B)" "b x = q" for x
  proof -
    have "B \<noteq> []"
      using that(1) by auto
    obtain y where y: "y \<in> set (cs_nodes s a)" "k y = k key"
      by (rule key_held [OF assms(1,2) idx(1)])
    have "k key < k x"
      using f(2) that(1) by blast
    then have "b y \<le> q" "b key \<le> b y"
      using grp [of y x] grp [of key y] y(2) that(2) by simp_all
    then have "b y = q"
      using idx(3) \<open>B \<noteq> []\<close> by simp
    then show ?thesis
      using y(1) by (auto simp: has_key_def)
  qed
  then show "has_key b q (elements s) \<longleftrightarrow> has_key b q (cs_nodes s a)"
    using below unfolding elements_def f(9) by (fastforce simp: has_key_def)
qed

text \<open>A reader that meets nobody.\<close>

lemma still_lock:
  assumes "cset_ok k s" and "borrow_grouped k b" and "\<not> cs_borrow_order_matches s"
  shows "\<exists>t'. lock_node_for_value b q (\<lambda>_. s) r t = Inr (map_option snd (route b q (canon (cs_index s))), t')"
proof -
  have "k x = k y \<Longrightarrow> b x = b y" for x y
    using borrow_groupedD [OF assms(2)] by (metis order_antisym order_refl)
  moreover have top: "in_step k (canon (cs_index s)) (published (cs_index s)) (published_keys (cs_index s))" "even (generation (cs_index s))"
    using cset_okD(1) [OF assms(1)] by (simp_all add: topology_ok_def)
  ultimately have "read_target_published b q (cs_borrow_order_matches s) (published (cs_index s)) =
      Inr (map_option snd (route b q (canon (cs_index s))))"
    using read_target_published_eq assms(3) read_target_route by metis
  then have "stable_round b q (\<lambda>_. s) t = Inr (Some (map_option snd (route b q (canon (cs_index s)))))"
    using top(2) by (simp add: stable_round_def Let_def split: option.split)
  then show ?thesis
    by (subst lock_node_for_value.simps) (simp add: read_target_route)
qed

lemma grouped_get_with:
  assumes "cset_ok k s" and "keyed k s" and "borrow_grouped k b" and "\<not> cs_borrow_order_matches s"
  shows "\<exists>r. get_with (op_search P) b q read (\<lambda>_. s) = Inr r \<and>
    (case r of None \<Rightarrow> \<not> has_key b q (elements s) | Some y \<Rightarrow> \<exists>x\<in>set (elements s). b x = q \<and> y = read x)"
proof -
  obtain t where t: "lock_node_for_value b q (\<lambda>_. s) 0 0 = Inr (map_option snd (route b q (canon (cs_index s))), t)"
    using still_lock [OF assms(1,3,4)] by blast
  show ?thesis
  proof (cases "canon (cs_index s) = []")
    case True
    then show ?thesis
      using t by (simp add: get_with_def route_def btm_first_from_def elements_def)
  next
    case False
    obtain A key a B where r: "route b q (canon (cs_index s)) = Some (key, a)" and fo: "focus b q (canon (cs_index s)) A key a B"
      by (rule route_focus [OF False])
    note g = grouped_focus [OF assms(1-3) fo]
    obtain r where r': "op_search P (cs_nodes s a) (cmp_by b q) = Inr r"
      "case r of Ok i \<Rightarrow> i < length (cs_nodes s a) \<and> b (cs_nodes s a ! i) = q | Err _ \<Rightarrow> \<not> has_key b q (cs_nodes s a)"
      using srch.grouped_search [OF g(1)] by blast
    have sub: "set (cs_nodes s a) \<subseteq> set (elements s)"
      using fo by (auto simp: focus_def elements_def)
    show ?thesis
    proof (cases r)
      case (Ok i)
      then have "cs_nodes s a ! i \<in> set (elements s)"
        using r'(2) sub by auto
      then show ?thesis
        using t r r' Ok by (auto simp: get_with_def get_with_guard_def node_try_select_def node_get_ith_def vec_get_def)
    next
      case (Err i)
      then show ?thesis
        using t r r' g(2) by (simp add: get_with_def get_with_guard_def node_try_select_def)
    qed
  qed
qed

text \<open>Removal by the borrowed form is removal of the element the search in the node meets.\<close>

lemma route_of_focus:
  assumes "focus b q idx A key a B"
  shows "route b q idx = Some (key, a)"
proof -
  have "find (\<lambda>r. q \<le> b (fst r)) A = None"
    using assms by (auto simp: focus_def find_None_iff not_le)
  then show ?thesis
    using assms by (cases "q \<le> b key") (auto simp: focus_def route_def btm_first_from_def above_def find_append)
qed

lemma delete_found:
  assumes "sorted_keys k n" and "sorted (map b n)" and "op_search P n (cmp_by b q) = Inr (Ok i)"
  shows "node_delete (op_search P) b n q = node_delete (op_search P) k n (k (n ! i))"
    and "node_contains (op_search P) b n q = node_contains (op_search P) k n (k (n ! i))"
proof -
  have i: "i < length n" "b (n ! i) = q"
    using srch.grouped_search [OF assms(2), of q] assms(3) by auto
  obtain r where r: "op_search P n (cmp_by k (k (n ! i))) = Inr r"
    "case r of Ok j \<Rightarrow> j < length n \<and> k (n ! j) = k (n ! i) | Err _ \<Rightarrow> \<not> has_key k (k (n ! i)) n"
    using srch.grouped_search [OF sorted_keys_sorted [OF assms(1)]] by blast
  then obtain j where j: "op_search P n (cmp_by k (k (n ! i))) = Inr (Ok j)" "j < length n" "k (n ! j) = k (n ! i)"
    using i(1) by (cases r) (auto simp: has_key_def)
  then have "j = i"
    using sorted_keys_distinct [OF assms(1)] i(1) by (simp add: distinct_conv_nth) metis
  then show "node_delete (op_search P) b n q = node_delete (op_search P) k n (k (n ! i))"
    "node_contains (op_search P) b n q = node_contains (op_search P) k n (k (n ! i))"
    using assms(3) j(1) by (simp_all add: node_delete_def node_contains_def)
qed

lemma grouped_remove:
  assumes "cset_ok k s" and "settled k s" and "keyed k s" and "borrow_grouped k b"
  shows "\<exists>old evs s'. remove_inner 1 emit P b q s = Inr (Some ((old, evs), s')) \<and> cset_ok k s' \<and> settled k s' \<and> keyed k s' \<and> same_config s s' \<and>
    (case old of None \<Rightarrow> \<not> has_key b q (elements s) \<and> s' = s
     | Some x \<Rightarrow> x \<in> set (elements s) \<and> b x = q \<and> elements s' = del_key k (k x) (elements s))"
proof (cases "canon (cs_index s) = []")
  case True
  then show ?thesis
    using assms by (simp add: remove_attempt_def remove_target_route route_def btm_first_from_def elements_def)
next
  case False
  obtain A key a B where r: "route b q (canon (cs_index s)) = Some (key, a)" and fo: "focus b q (canon (cs_index s)) A key a B"
    by (rule route_focus [OF False])
  let ?n = "cs_nodes s a"
  note g = grouped_focus [OF assms(1,3,4) fo]
  note f = focus_facts [OF cset_okD(3-5) [OF assms(1)] g(3)]
  obtain r' where r': "op_search P ?n (cmp_by b q) = Inr r'"
    "case r' of Ok i \<Rightarrow> i < length ?n \<and> b (?n ! i) = q | Err _ \<Rightarrow> \<not> has_key b q ?n"
    using srch.grouped_search [OF g(1)] by blast
  show ?thesis
  proof (cases r')
    case (Err i)
    then have "remove_inner 1 emit P b q s = Inr (Some ((None, []), s))"
      using r r'(1) by (simp add: remove_attempt_def remove_target_route node_contains_def node_delete_def Let_def)
    then show ?thesis
      using assms Err r'(2) g(2) by simp
  next
    case (Ok i)
    define x where "x = ?n ! i"
    have x: "x \<in> set ?n" "b x = q" "x \<in> set (elements s)"
      using r'(2) Ok f(9) by (simp_all add: x_def elements_def)
    have "sorted_keys k ?n"
      using f(3) by (simp add: node_in_def)
    note same = delete_found [OF this g(1) r'(1) [unfolded Ok], folded x_def]
    have "sorted_keys (k \<circ> fst) A"
      using cset_okD(4) [OF assms(1)] fo by (simp add: focus_def)
    then have "\<forall>r\<in>set A. k (fst r) < k x"
      by (rule over_run_end [where lo = None]) (use f(3) x(1) in \<open>simp add: node_in_def\<close>)
    moreover have "B \<noteq> [] \<longrightarrow> k x \<le> k key"
      using f(3) x(1) by (cases "B = []") (simp_all add: node_in_def)
    ultimately have "route k (k x) (canon (cs_index s)) = Some (key, a)"
      using fo by (intro route_of_focus [where A = A and B = B]) (auto simp: focus_def)
    then have same_run: "remove_attempt emit P b q s = remove_attempt emit P k (k x) s"
      "remove_singleton emit P b q s (topology_write (cs_index s)) = remove_singleton emit P k (k x) s (topology_write (cs_index s))"
      using r same by (simp_all add: remove_attempt_def remove_singleton_def remove_target_route topology_write_def Let_def)
    have "remove_inner 1 emit P b q s = remove_inner 1 emit P k (k x) s"
      using assms(1) borrow_ok_refl
      by (cases rule: remove_attempt_cases [where q = "k x" and emit = emit]) (simp_all add: same_run guarded_def cong: option.case_cong)
    moreover obtain old evs s' where res: "remove_inner 1 emit P k (k x) s = Inr (Some ((old, evs), s'))" "cset_ok k s'" "same_config s s'"
      "settled k s'" "keyed k s'" "spec_remove k (k x) (elements s) = (old, elements s')"
      using remove_inner_ok [OF assms(1) borrow_ok_refl, of 1 emit "k x"] assms(2,3) by auto
    moreover have "old = Some x" "elements s' = del_key k (k x) (elements s)"
      using res(6) find_key_member [OF cset_okD(6) [OF assms(1)] x(3)] by (simp_all add: spec_remove_def)
    ultimately show ?thesis
      using x by simp
  qed
qed

end

end
