(* ===== verification/Concurrent_Multimap.thy ===== *)
theory Concurrent_Multimap
  imports Concurrent_Map Cdc_Change
begin

text \<open>
  \<open>src/concurrent/multimap.rs\<close> and the helpers of \<open>src/core/multipair/ord.rs\<close>: a multimap is a concurrent
  set of entries ordered by key and value, with grouped routing because looking up a key meets several
  entries. Entries go in and out as whole entries, or out by key.
\<close>

type_synonym ('k, 'v) cmulti = "('k, 'v) ord_multi_pair cset"

text \<open>\<open>adopt_stored_identity\<close> has an empty body for these entries: the incoming entry is stored.\<close>

definition adopt_stored_identity :: "('k, 'v) ord_multi_pair \<Rightarrow> ('k, 'v) ord_multi_pair \<Rightarrow> ('k, 'v) ord_multi_pair" where
  "adopt_stored_identity stored incoming = incoming"

definition multi_ops ::
  "('k, 'v) ord_multi_pair search_fn \<Rightarrow> (('k::linorder, 'v::linorder) ord_multi_pair, ('k, 'v) ord_multi_pair) ops" where
  "multi_ops srch = \<lparr> op_key = id, op_search = srch, op_adopt = adopt_stored_identity \<rparr>"

definition cmulti_default :: "('k, 'v) cmulti" where
  "cmulti_default = with_grouped_borrow_routing cset_default"

definition cmulti_with_maximum_node_size :: "nat \<Rightarrow> ('k, 'v) cmulti" where
  "cmulti_with_maximum_node_size capacity = with_grouped_borrow_routing (cset_with_maximum_node_size capacity)"

section \<open>Entries\<close>

definition insert_into ::
  "nat \<Rightarrow> ('k::linorder, 'v::linorder) ord_multi_pair search_fn \<Rightarrow> 'k \<Rightarrow> 'v \<Rightarrow> ('k, 'v) cmulti \<Rightarrow>
     (('k \<times> 'v) option \<times> ('k, 'v) cmulti) option res" where
  "insert_into n srch key v m = answer (map_option tuple_from_multi) (cset_put n (multi_ops srch) (MkMulti key v) m)"

definition insert_cdc_into ::
  "nat \<Rightarrow> ('k::linorder, 'v::linorder) ord_multi_pair search_fn \<Rightarrow> 'k \<Rightarrow> 'v \<Rightarrow> ('k, 'v) cmulti \<Rightarrow>
     ((('k \<times> 'v) option \<times> ('k, 'v) ord_multi_pair change_event list) \<times> ('k, 'v) cmulti) option res" where
  "insert_cdc_into n srch key v m =
     answer (\<lambda>(replaced, events). (map_option tuple_from_multi replaced, events)) (cset_put_cdc n (multi_ops srch) (MkMulti key v) m)"

definition cmulti_insert ::
  "nat \<Rightarrow> ('k::linorder, 'v::linorder) ord_multi_pair search_fn \<Rightarrow> 'k \<Rightarrow> 'v \<Rightarrow> ('k, 'v) cmulti \<Rightarrow>
     ('v option \<times> ('k, 'v) cmulti) option res" where
  "cmulti_insert n srch key v m = answer (map_option snd) (insert_into n srch key v m)"

definition cmulti_insert_cdc ::
  "nat \<Rightarrow> ('k::linorder, 'v::linorder) ord_multi_pair search_fn \<Rightarrow> 'k \<Rightarrow> 'v \<Rightarrow> ('k, 'v) cmulti \<Rightarrow>
     (('v option \<times> ('k, 'v) ord_multi_pair change_event list) \<times> ('k, 'v) cmulti) option res" where
  "cmulti_insert_cdc n srch key v m =
     answer (\<lambda>(old_value, cdc). (map_option snd old_value, cdc)) (insert_cdc_into n srch key v m)"

definition remove_from ::
  "nat \<Rightarrow> ('k::linorder, 'v::linorder) ord_multi_pair search_fn \<Rightarrow> 'k \<Rightarrow> 'v \<Rightarrow> ('k, 'v) cmulti \<Rightarrow>
     (('k \<times> 'v) option \<times> ('k, 'v) cmulti) option res" where
  "remove_from n srch key v m = answer (map_option tuple_from_multi) (cset_remove n (multi_ops srch) id (MkMulti key v) m)"

definition remove_cdc_from ::
  "nat \<Rightarrow> ('k::linorder, 'v::linorder) ord_multi_pair search_fn \<Rightarrow> 'k \<Rightarrow> 'v \<Rightarrow> ('k, 'v) cmulti \<Rightarrow>
     ((('k \<times> 'v) option \<times> ('k, 'v) ord_multi_pair change_event list) \<times> ('k, 'v) cmulti) option res" where
  "remove_cdc_from n srch key v m =
     answer (\<lambda>(res, evs). (map_option tuple_from_multi res, evs)) (cset_remove_cdc n (multi_ops srch) id (MkMulti key v) m)"

definition cmulti_remove ::
  "nat \<Rightarrow> ('k::linorder, 'v::linorder) ord_multi_pair search_fn \<Rightarrow> 'k \<Rightarrow> 'v \<Rightarrow> ('k, 'v) cmulti \<Rightarrow>
     (('k \<times> 'v) option \<times> ('k, 'v) cmulti) option res" where
  "cmulti_remove n srch key v m = remove_from n srch key v m"

definition cmulti_remove_cdc ::
  "nat \<Rightarrow> ('k::linorder, 'v::linorder) ord_multi_pair search_fn \<Rightarrow> 'k \<Rightarrow> 'v \<Rightarrow> ('k, 'v) cmulti \<Rightarrow>
     ((('k \<times> 'v) option \<times> ('k, 'v) ord_multi_pair change_event list) \<times> ('k, 'v) cmulti) option res" where
  "cmulti_remove_cdc n srch key v m = remove_cdc_from n srch key v m"

section \<open>Keys\<close>

text \<open>\<open>b\<close> is the borrowed form: \<open>multi_key\<close>, or a form of the key that orders alike.\<close>

definition cmulti_contains_key ::
  "('k, 'v) ord_multi_pair search_fn \<Rightarrow> (('k, 'v) ord_multi_pair \<Rightarrow> 'q::linorder) \<Rightarrow> 'q \<Rightarrow> (nat \<Rightarrow> ('k, 'v) cmulti) \<Rightarrow> bool res" where
  "cmulti_contains_key srch b key obs = cset_contains srch b key obs"

definition cmulti_range ::
  "(('k::linorder, 'v::linorder) ord_multi_pair \<Rightarrow> 'q::linorder) \<Rightarrow> 'q bound \<Rightarrow> 'q bound \<Rightarrow> ('k, 'v) cmulti \<Rightarrow> ('k, 'v) ord_multi_pair citer" where
  "cmulti_range b lo hi m = cset_range id b lo hi m"

definition cmulti_get :: "'k::linorder \<Rightarrow> ('k, 'v::linorder) cmulti \<Rightarrow> ('k, 'v) ord_multi_pair citer" where
  "cmulti_get key m = cmulti_range multi_key (Included key) (Included key) m"

definition cmulti_remove_some ::
  "nat \<Rightarrow> ('k::linorder, 'v::linorder) ord_multi_pair search_fn \<Rightarrow> (('k, 'v) ord_multi_pair \<Rightarrow> 'q::linorder) \<Rightarrow> 'q \<Rightarrow> ('k, 'v) cmulti \<Rightarrow>
     (('k \<times> 'v) option \<times> ('k, 'v) cmulti) option res" where
  "cmulti_remove_some n srch b key m = answer (map_option tuple_from_multi) (cset_remove n (multi_ops srch) b key m)"

definition cmulti_remove_some_cdc ::
  "nat \<Rightarrow> ('k::linorder, 'v::linorder) ord_multi_pair search_fn \<Rightarrow> (('k, 'v) ord_multi_pair \<Rightarrow> 'q::linorder) \<Rightarrow> 'q \<Rightarrow> ('k, 'v) cmulti \<Rightarrow>
     ((('k \<times> 'v) option \<times> ('k, 'v) ord_multi_pair change_event list) \<times> ('k, 'v) cmulti) option res" where
  "cmulti_remove_some_cdc n srch b key m =
     answer (\<lambda>(old_value, cdc). (map_option tuple_from_multi old_value, cdc)) (cset_remove_cdc n (multi_ops srch) b key m)"

section \<open>The rest\<close>

definition cmulti_attach_multi_node ::
  "('k::linorder, 'v::linorder) ord_multi_pair search_fn \<Rightarrow> ('k, 'v) ord_multi_pair list \<Rightarrow> ('k, 'v) cmulti \<Rightarrow> ('k, 'v) cmulti res" where
  "cmulti_attach_multi_node srch node m = attach_node (multi_ops srch) node m"

definition cmulti_attach_multi_nodes ::
  "('k::linorder, 'v::linorder) ord_multi_pair search_fn \<Rightarrow> ('k, 'v) ord_multi_pair list list \<Rightarrow> ('k, 'v) cmulti \<Rightarrow> ('k, 'v) cmulti res" where
  "cmulti_attach_multi_nodes srch nodes m = attach_nodes (multi_ops srch) nodes m"

definition cmulti_snapshot_nodes :: "('k, 'v) cmulti \<Rightarrow> ('k, 'v) ord_multi_pair list list" where
  "cmulti_snapshot_nodes m = map (\<lambda>(_, a). cs_nodes m a) (canon (cs_index m))"

definition cmulti_len :: "('k, 'v) cmulti \<Rightarrow> nat" where
  "cmulti_len m = cset_len m"

definition cmulti_is_empty :: "('k, 'v) cmulti \<Rightarrow> bool" where
  "cmulti_is_empty m \<longleftrightarrow> cset_is_empty m"

definition cmulti_node_count :: "('k, 'v) cmulti \<Rightarrow> nat" where
  "cmulti_node_count m = cset_node_count m"

definition cmulti_iter :: "('k, 'v) cmulti \<Rightarrow> ('k, 'v) ord_multi_pair citer" where
  "cmulti_iter m = citer_new"

definition cmulti_iter_next ::
  "nat \<Rightarrow> (nat \<Rightarrow> ('k::linorder, 'v::linorder) cmulti) \<Rightarrow> nat \<Rightarrow> ('k, 'v) ord_multi_pair citer \<Rightarrow>
     (('k \<times> 'v) option \<times> nat \<times> ('k, 'v) ord_multi_pair citer) option res" where
  "cmulti_iter_next n st t it = answer (map_option tuple_from_multi) (citer_next n id st t it)"

definition cmulti_iter_next_back ::
  "nat \<Rightarrow> (nat \<Rightarrow> ('k::linorder, 'v::linorder) cmulti) \<Rightarrow> nat \<Rightarrow> ('k, 'v) ord_multi_pair citer \<Rightarrow>
     (('k \<times> 'v) option \<times> nat \<times> ('k, 'v) ord_multi_pair citer) option res" where
  "cmulti_iter_next_back n st t it = answer (map_option tuple_from_multi) (citer_next_back n id st t it)"

end
