(* ===== verification/Multimap_Contract.thy ===== *)
theory Multimap_Contract
  imports Prelude
begin

text \<open>
  What a client of an ordered multimap relies on: the steps of a set of pairs, where removing some
  entry of a key may take any of them, and the locale \<open>multi_provider\<close>, which asks that every call on
  an implementation is such a step. Inside it, every program of calls is a run of the set of pairs.
\<close>

datatype ('k, 'v) multi_call = Add 'k 'v | Drop 'k 'v | DropSome 'k | Has 'k | Entries 'k

datatype ('k, 'v) multi_answer = Replaced "'v option" | Removed "('k \<times> 'v) option" | Present bool | Listed "('k \<times> 'v) list"

inductive multi_step ::
  "('k \<times> 'v::linorder) set \<Rightarrow> ('k, 'v) multi_call \<Rightarrow> ('k, 'v) multi_answer \<Rightarrow> ('k \<times> 'v) set \<Rightarrow> bool" where
  add_new: "(k, v) \<notin> S \<Longrightarrow> multi_step S (Add k v) (Replaced None) (insert (k, v) S)"
| add_old: "(k, v) \<in> S \<Longrightarrow> multi_step S (Add k v) (Replaced (Some v)) S"
| drop_hit: "(k, v) \<in> S \<Longrightarrow> multi_step S (Drop k v) (Removed (Some (k, v))) (S - {(k, v)})"
| drop_miss: "(k, v) \<notin> S \<Longrightarrow> multi_step S (Drop k v) (Removed None) S"
| some_hit: "(k, v) \<in> S \<Longrightarrow> multi_step S (DropSome k) (Removed (Some (k, v))) (S - {(k, v)})"
| some_miss: "k \<notin> fst ` S \<Longrightarrow> multi_step S (DropSome k) (Removed None) S"
| has: "multi_step S (Has k) (Present (k \<in> fst ` S)) S"
| entries: "set xs = {p \<in> S. fst p = k} \<Longrightarrow> sorted_wrt (<) (map snd xs) \<Longrightarrow> multi_step S (Entries k) (Listed xs) S"

inductive multi_runs ::
  "('k \<times> 'v::linorder) set \<Rightarrow> ('k, 'v) multi_call list \<Rightarrow> ('k, 'v) multi_answer list \<Rightarrow> ('k \<times> 'v) set \<Rightarrow> bool" where
  stop: "multi_runs S [] [] S"
| call: "multi_step S c x S' \<Longrightarrow> multi_runs S' cs xs S'' \<Longrightarrow> multi_runs S (c # cs) (x # xs) S''"

inductive_cases add_stepE: "multi_step S (Add k v) x S'"
inductive_cases drop_stepE: "multi_step S (Drop k v) x S'"
inductive_cases drop_some_stepE: "multi_step S (DropSome k) x S'"
inductive_cases has_stepE: "multi_step S (Has k) x S'"
inductive_cases entries_stepE: "multi_step S (Entries k) x S'"
inductive_cases runs_NilE: "multi_runs S [] xs S'"
inductive_cases runs_ConsE: "multi_runs S (c # cs) xs S'"

fun run_multi :: "('c \<Rightarrow> 'm \<Rightarrow> ('x \<times> 'm) res) \<Rightarrow> 'c list \<Rightarrow> 'm \<Rightarrow> ('x list \<times> 'm) res" where
  "run_multi act [] m = Inr ([], m)"
| "run_multi act (c # cs) m =
     rbind (act c m) (\<lambda>(x, m'). rbind (run_multi act cs m') (\<lambda>(xs, m''). Inr (x # xs, m'')))"

locale multi_provider =
  fixes act :: "('k, 'v::linorder) multi_call \<Rightarrow> 'm \<Rightarrow> (('k, 'v) multi_answer \<times> 'm) res"
    and abs :: "'m \<Rightarrow> ('k \<times> 'v) set"
    and inv :: "'m \<Rightarrow> bool"
  assumes act_step: "inv m \<Longrightarrow> \<exists>x m'. act c m = Inr (x, m') \<and> inv m' \<and> multi_step (abs m) c x (abs m')"
begin

lemma run_multi_refines:
  assumes "inv m"
  shows "\<exists>xs m'. run_multi act cs m = Inr (xs, m') \<and> inv m' \<and> multi_runs (abs m) cs xs (abs m')"
  using assms
proof (induction cs arbitrary: m)
  case (Cons c cs)
  obtain x m1 where x: "act c m = Inr (x, m1)" "inv m1" "multi_step (abs m) c x (abs m1)"
    using act_step [OF Cons.prems] by blast
  obtain xs m2 where "run_multi act cs m1 = Inr (xs, m2)" "inv m2" "multi_runs (abs m1) cs xs (abs m2)"
    using Cons.IH [OF x(2)] by blast
  then show ?case
    using x by (auto intro: multi_runs.call)
qed (auto intro: multi_runs.stop)

end

text \<open>Only the choice of the entry to remove is left open.\<close>

lemma multi_step_deterministic:
  assumes "multi_step S c x S'" and "multi_step S c y T" and "\<forall>k. c \<noteq> DropSome k"
  shows "x = y \<and> S' = T"
  using assms
proof (cases rule: multi_step.cases)
  case (entries xs k)
  from assms(2) obtain ys where ys: "y = Listed ys" "T = S" "set ys = {p \<in> S. fst p = k}" "sorted_wrt (<) (map snd ys)"
    unfolding entries by (auto elim: entries_stepE)
  have "map snd xs = map snd ys"
    using entries ys by (intro strict_sorted_equal) (simp_all add: image_def)
  moreover have "map (Pair k) (map snd xs) = xs" "map (Pair k) (map snd ys) = ys"
    using entries(4) ys(3) by (auto intro!: map_idI)
  ultimately show ?thesis
    using entries ys by metis
qed (auto elim: add_stepE drop_stepE has_stepE)

lemma multi_runs_deterministic:
  assumes "multi_runs S cs xs S'" and "multi_runs S cs ys T" and "\<forall>k. DropSome k \<notin> set cs"
  shows "xs = ys \<and> S' = T"
  using assms
proof (induction arbitrary: ys rule: multi_runs.induct)
  case (call S c x S' cs xs S'')
  obtain y T' zs where y: "ys = y # zs" "multi_step S c y T'" "multi_runs T' cs zs T"
    using call.prems(1) by (auto elim: runs_ConsE)
  have "x = y \<and> S' = T'"
    using multi_step_deterministic [OF call.hyps(1) y(2)] call.prems(2) by auto
  then show ?case
    using call.IH y call.prems(2) by simp
qed (auto elim: runs_NilE)

end
