(* ===== verification/Concurrent_Multimap_Facts.thy ===== *)
theory Concurrent_Multimap_Facts
  imports Concurrent_Map_Facts Concurrent_Grouped Concurrent_Multimap Multimap_Contract
begin

text \<open>
  The concurrent multimap seen as a set of pairs: insertion and removal of an entry, removal of some
  entry of a key, the test for a key and the entries of a key, as the steps the interface
  \<open>multi_provider\<close> asks for.
\<close>

definition cmulti_pairs :: "('k, 'v) cmulti \<Rightarrow> ('k \<times> 'v) set" where
  "cmulti_pairs m = tuple_from_multi ` set (elements m)"

definition cmulti_ok :: "('k::linorder, 'v::linorder) cmulti \<Rightarrow> bool" where
  "cmulti_ok m \<longleftrightarrow> cset_ok id m \<and> settled id m \<and> keyed id m \<and> \<not> cs_borrow_order_matches m"

lemma multi_ops_simps [simp]:
  "op_key (multi_ops srch) = id" "op_search (multi_ops srch) = srch" "op_adopt (multi_ops srch) = adopt_stored_identity"
  by (simp_all add: multi_ops_def)

lemma multi_ops_lawful: "search_backend srch \<Longrightarrow> cset_ops (multi_ops srch)"
  by (simp add: cset_ops_def adopt_stored_identity_def)

lemma multi_key_grouped: "borrow_grouped id multi_key"
  using multi_key_mono by (auto simp: borrow_grouped_def borrow_mono_def le_less)

lemma tuple_inj: "tuple_from_multi x = tuple_from_multi y \<longleftrightarrow> x = y" "tuple_from_multi x = (key, v) \<longleftrightarrow> x = MkMulti key v"
  by (cases x; cases y; auto simp: tuple_from_multi_def)+

lemma in_pairs: "(key, v) \<in> cmulti_pairs m \<longleftrightarrow> MkMulti key v \<in> set (elements m)"
  by (auto simp: cmulti_pairs_def image_iff eq_commute [of "(key, v)"] tuple_inj)

lemma has_multi_key: "has_key multi_key key xs \<longleftrightarrow> key \<in> fst ` tuple_from_multi ` set xs"
  by (simp add: has_key_def image_image tuple_from_multi_def)

lemma cmulti_new_ok: "cmulti_ok (cmulti_with_maximum_node_size c)"
  using cset_new_ok(1) [of id c]
  by (simp add: cmulti_ok_def cset_ok_def heap_ok_def cmulti_with_maximum_node_size_def with_grouped_borrow_routing_def
      cset_with_maximum_node_size_def topology_new_def settled_def keyed_def)

lemma cmulti_new_pairs: "cmulti_pairs (cmulti_with_maximum_node_size c) = {}"
  by (simp add: cmulti_pairs_def cmulti_with_maximum_node_size_def with_grouped_borrow_routing_def
      cset_with_maximum_node_size_def topology_new_def elements_def)

section \<open>Entries\<close>

lemma cmulti_put:
  assumes "search_backend srch" and "cmulti_ok m"
  shows "\<exists>evs m'. put_inner 1 emit (multi_ops srch) x m = Inr (Some ((if x \<in> set (elements m) then Some x else None, evs), m')) \<and>
    cmulti_ok m' \<and> set (elements m') = insert x (set (elements m))"
proof -
  note m = assms(2) [unfolded cmulti_ok_def]
  obtain old evs m' where p: "put_inner 1 emit (multi_ops srch) x m = Inr (Some ((old, evs), m'))" "cset_ok id m'" "same_config m m'"
    "settled id m'" "keyed id m'" "spec_put id adopt_stored_identity x (elements m) = (old, elements m')"
    using cset_ops.put_inner_ok [OF multi_ops_lawful [OF assms(1)], of m 1 emit x] m by auto
  have "old = (if x \<in> set (elements m) then Some x else None)"
    using p(6) find_key_Some [of id x "elements m"] find_key_None [of id x "elements m"]
    by (cases old) (auto simp: spec_put_def has_key_def)
  moreover have "set (elements m') = insert x (set (elements m))"
    using cset_ops.put_keys [OF multi_ops_lawful [OF assms(1)], of "elements m" x] cset_okD(6) [of id m] m p(6) by simp
  ultimately show ?thesis
    using p m by (auto simp: cmulti_ok_def same_config_def)
qed

lemma cmulti_remove_by:
  assumes "search_backend srch" and "cmulti_ok m" and "borrow_grouped id b"
  shows "\<exists>old evs m'. remove_inner 1 emit (multi_ops srch) b q m = Inr (Some ((old, evs), m')) \<and> cmulti_ok m' \<and>
    (case old of None \<Rightarrow> \<not> has_key b q (elements m) \<and> m' = m
     | Some x \<Rightarrow> x \<in> set (elements m) \<and> b x = q \<and> set (elements m') = set (elements m) - {x})"
proof -
  note m = assms(2) [unfolded cmulti_ok_def]
  obtain old evs m' where p: "remove_inner 1 emit (multi_ops srch) b q m = Inr (Some ((old, evs), m'))" "cset_ok id m'" "settled id m'"
    "keyed id m'" "same_config m m'" "case old of None \<Rightarrow> \<not> has_key b q (elements m) \<and> m' = m
     | Some x \<Rightarrow> x \<in> set (elements m) \<and> b x = q \<and> elements m' = del_key id (id x) (elements m)"
    using cset_ops.grouped_remove [OF multi_ops_lawful [OF assms(1)], unfolded multi_ops_simps] m assms(3) by blast
  have "set (del_key id x xs) = set xs - {x}" for x :: "('a, 'b) ord_multi_pair" and xs
    by (auto simp: del_key_def)
  then show ?thesis
    using p m by (cases old) (auto simp: cmulti_ok_def same_config_def)
qed

section \<open>Keys\<close>

lemma cmulti_contains_key_eq:
  assumes "search_backend srch" and "cmulti_ok m"
  shows "cmulti_contains_key srch multi_key key (\<lambda>_. m) = Inr (key \<in> fst ` cmulti_pairs m)"
proof -
  obtain r where "get_with srch multi_key key (\<lambda>_. ()) (\<lambda>_. m) = Inr r"
    "case r of None \<Rightarrow> \<not> has_key multi_key key (elements m) | Some y \<Rightarrow> \<exists>x\<in>set (elements m). multi_key x = key \<and> y = ()"
    using cset_ops.grouped_get_with [OF multi_ops_lawful [OF assms(1)], of m multi_key key "\<lambda>_. ()"] assms(2) multi_key_grouped
    by (auto simp: cmulti_ok_def)
  moreover from this(2) have "r \<noteq> None \<longleftrightarrow> has_key multi_key key (elements m)"
    by (cases r) (auto simp: has_key_def)
  ultimately show ?thesis
    by (simp add: cmulti_contains_key_def cset_contains_def cmulti_pairs_def has_multi_key)
qed

text \<open>The iterator of the entries of a key, run while nobody changes the multimap.\<close>

definition cmulti_still :: "('k::linorder, 'v::linorder) cmulti \<Rightarrow> (('k, 'v) ord_multi_pair citer, 'k \<times> 'v) step_fn" where
  "cmulti_still m it = rbind (fueled (cmulti_iter_next 3 (\<lambda>_. m) 0 it)) (\<lambda>(x, _, it'). Inr (x, it'))"

lemma cmulti_still_eq: "cmulti_still m it = rbind (still_next id m it) (\<lambda>(x, it'). Inr (map_option tuple_from_multi x, it'))"
proof (cases "citer_next 3 id (\<lambda>_. m) 0 it")
  case (Inr r)
  then show ?thesis
    by (cases r) (auto simp: cmulti_still_def still_next_def cmulti_iter_next_def fueled_def)
qed (simp add: cmulti_still_def still_next_def cmulti_iter_next_def fueled_def answer_def)

lemma collect_map:
  "collect (\<lambda>it. rbind (nxt it) (\<lambda>(x, it'). Inr (map_option f x, it'))) n it = rbind (collect nxt n it) (\<lambda>r. Inr (map_option (map f) r))"
proof (induction n arbitrary: it)
  case (Suc n)
  show ?case
  proof (cases "nxt it")
    case (Inr r)
    then show ?thesis
      using Suc.IH [of "snd r"] by (cases "collect nxt n (snd r)") (auto simp: collect.simps option.map_comp comp_def split: option.split prod.split)
  qed (simp add: collect.simps)
qed (simp add: collect.simps)

lemma cmulti_get_entries:
  assumes "cmulti_ok m"
  shows "collect (cmulti_still m) (Suc (cmulti_len m)) (cmulti_get key m) =
    Inr (Some (map tuple_from_multi (filter (\<lambda>x. multi_key x = key) (elements m))))"
proof -
  let ?xs = "filter (\<lambda>x. multi_key x = key) (elements m)"
  note m = assms [unfolded cmulti_ok_def]
  have one: "in_range multi_key (Included key) (Included key) = (\<lambda>x :: ('a, 'b) ord_multi_pair. multi_key x = key)"
    by (auto simp: in_range_def above_def beneath_def fun_eq_iff)
  have "end_ok id multi_key (Included key) (cs_borrow_order_matches m)"
    using m multi_key_grouped by (simp add: end_ok_def)
  then have it: "citer_ok id m (cmulti_get key m)" "citer_rest id m (cmulti_get key m) = ?xs"
    using cset_range_rest [of id m multi_key "Included key" "Included key"] m one by (simp_all add: cmulti_get_def cmulti_range_def)
  have "cmulti_len m = length (elements m)"
    by (simp add: cmulti_len_def cset_len_def elements_def contents_def length_concat comp_def case_prod_unfold)
  then have "collect (still_next id m) (Suc (cmulti_len m)) (cmulti_get key m) = Inr (Some ?xs)"
    using still.collect_rest [of id m "cmulti_get key m"] it m by (simp add: le_imp_less_Suc)
  moreover have "cmulti_still m = (\<lambda>it. rbind (still_next id m it) (\<lambda>(x, it'). Inr (map_option tuple_from_multi x, it')))"
    using cmulti_still_eq by blast
  ultimately show ?thesis
    using collect_map [of "still_next id m" tuple_from_multi] by simp
qed

lemma entries_sorted:
  assumes "cset_ok id m"
  shows "sorted_wrt (<) (map snd (map tuple_from_multi (filter (\<lambda>x. multi_key x = key) (elements m))))"
proof -
  have "sorted_wrt (<) (map multi_value xs)" if "sorted_keys id xs" "\<forall>x\<in>set xs. multi_key x = key" for xs :: "('a, 'b) ord_multi_pair list"
    using that by (induction xs) (auto simp: less_ord_multi_pair_def multi_cmp_def then_cmp_def compare_def split: if_splits)
  from this [OF sorted_keys_filter [OF cset_okD(6) [OF assms]]] show ?thesis
    by (simp add: tuple_from_multi_def comp_def)
qed

section \<open>The interface\<close>

text \<open>One call of a client while nobody else is at work.\<close>

definition cmulti_call ::
  "('k::linorder, 'v::linorder) ord_multi_pair search_fn \<Rightarrow> ('k, 'v) multi_call \<Rightarrow> ('k, 'v) cmulti \<Rightarrow>
     (('k, 'v) multi_answer \<times> ('k, 'v) cmulti) res" where
  "cmulti_call srch c m = (case c of
      Add key v \<Rightarrow> rbind (fueled (cmulti_insert 1 srch key v m)) (\<lambda>(r, m'). Inr (Replaced r, m'))
    | Drop key v \<Rightarrow> rbind (fueled (cmulti_remove 1 srch key v m)) (\<lambda>(r, m'). Inr (Removed r, m'))
    | DropSome key \<Rightarrow> rbind (fueled (cmulti_remove_some 1 srch multi_key key m)) (\<lambda>(r, m'). Inr (Removed r, m'))
    | Has key \<Rightarrow> rbind (cmulti_contains_key srch multi_key key (\<lambda>_. m)) (\<lambda>r. Inr (Present r, m))
    | Entries key \<Rightarrow> rbind (fueled (collect (cmulti_still m) (Suc (cmulti_len m)) (cmulti_get key m))) (\<lambda>xs. Inr (Listed xs, m)))"

locale multi_backend = search_backend srch for srch :: "('k::linorder, 'v::linorder) ord_multi_pair search_fn"
begin

lemma add_call:
  assumes "cmulti_ok m"
  shows "\<exists>x m'. cmulti_call srch (Add key v) m = Inr (x, m') \<and> cmulti_ok m' \<and> multi_step (cmulti_pairs m) (Add key v) x (cmulti_pairs m')"
proof -
  let ?x = "MkMulti key v"
  obtain evs m' where p: "put_inner 1 False (multi_ops srch) ?x m = Inr (Some ((if ?x \<in> set (elements m) then Some ?x else None, evs), m'))"
    "cmulti_ok m'" "set (elements m') = insert ?x (set (elements m))"
    using cmulti_put [OF search_backend_axioms assms] by blast
  have "cmulti_pairs m' = insert (key, v) (cmulti_pairs m)"
    by (simp add: cmulti_pairs_def p(3) tuple_from_multi_def)
  moreover have "cmulti_call srch (Add key v) m = Inr (Replaced (if (key, v) \<in> cmulti_pairs m then Some v else None), m')"
    using p(1) by (simp add: cmulti_call_def cmulti_insert_def insert_into_def cset_put_def in_pairs tuple_from_multi_def)
  ultimately show ?thesis
    using p(2) add_new [of key v "cmulti_pairs m"] add_old [of key v "cmulti_pairs m"] by (auto simp: insert_absorb)
qed

lemma remove_call:
  assumes "cmulti_ok m" and "borrow_grouped id b"
  shows "\<exists>r m'. answer (map_option tuple_from_multi) (cset_remove 1 (multi_ops srch) b q m) = Inr (Some (r, m')) \<and> cmulti_ok m' \<and>
    (case r of None \<Rightarrow> \<not> has_key b q (elements m) \<and> m' = m
     | Some (key, v) \<Rightarrow> (key, v) \<in> cmulti_pairs m \<and> b (MkMulti key v) = q \<and> cmulti_pairs m' = cmulti_pairs m - {(key, v)})"
proof -
  obtain old evs m' where p: "remove_inner 1 False (multi_ops srch) b q m = Inr (Some ((old, evs), m'))" "cmulti_ok m'"
    "case old of None \<Rightarrow> \<not> has_key b q (elements m) \<and> m' = m
     | Some x \<Rightarrow> x \<in> set (elements m) \<and> b x = q \<and> set (elements m') = set (elements m) - {x}"
    using cmulti_remove_by [OF search_backend_axioms assms] by blast
  have res: "answer (map_option tuple_from_multi) (cset_remove 1 (multi_ops srch) b q m) = Inr (Some (map_option tuple_from_multi old, m'))"
    unfolding cset_remove_def p(1) by simp
  show ?thesis
  proof (cases old)
    case None
    then show ?thesis
      using p(2,3) res by simp
  next
    case (Some x)
    obtain key v where x: "x = MkMulti key v"
      by (cases x)
    have e: "set (elements m') = set (elements m) - {MkMulti key v}" "(key, v) \<in> cmulti_pairs m" "b (MkMulti key v) = q"
      using p(3) Some x by (simp_all add: in_pairs)
    have "cmulti_pairs m' = cmulti_pairs m - {(key, v)}"
      by (rule set_eqI) (simp add: split_paired_all in_pairs e(1))
    with e show ?thesis
      using p(2) res Some x by (simp add: tuple_from_multi_def)
  qed
qed

lemma drop_call:
  assumes "cmulti_ok m"
  shows "\<exists>x m'. cmulti_call srch (Drop key v) m = Inr (x, m') \<and> cmulti_ok m' \<and> multi_step (cmulti_pairs m) (Drop key v) x (cmulti_pairs m')"
proof -
  have "borrow_grouped id (id :: ('k, 'v) ord_multi_pair \<Rightarrow> ('k, 'v) ord_multi_pair)"
    by (simp add: borrow_grouped_def)
  from remove_call [OF assms this, of "MkMulti key v"]
  obtain r m' where r: "answer (map_option tuple_from_multi) (cset_remove 1 (multi_ops srch) id (MkMulti key v) m) = Inr (Some (r, m'))" "cmulti_ok m'"
    "case r of None \<Rightarrow> \<not> has_key id (MkMulti key v) (elements m) \<and> m' = m
     | Some (key', v') \<Rightarrow> (key', v') \<in> cmulti_pairs m \<and> id (MkMulti key' v') = MkMulti key v \<and> cmulti_pairs m' = cmulti_pairs m - {(key', v')}"
    by blast
  then have call: "cmulti_call srch (Drop key v) m = Inr (Removed r, m')"
    by (simp add: cmulti_call_def cmulti_remove_def remove_from_def)
  show ?thesis
  proof (cases r)
    case None
    then have "(key, v) \<notin> cmulti_pairs m" "m' = m"
      using r(3) by (simp_all add: has_key_def in_pairs)
    then show ?thesis
      using call r(2) None drop_miss by simp
  next
    case (Some p)
    then have "p = (key, v)" "(key, v) \<in> cmulti_pairs m" "cmulti_pairs m' = cmulti_pairs m - {(key, v)}"
      using r(3) by (auto split: prod.splits)
    then show ?thesis
      using call r(2) Some drop_hit by simp
  qed
qed

lemma drop_some_call:
  assumes "cmulti_ok m"
  shows "\<exists>x m'. cmulti_call srch (DropSome key) m = Inr (x, m') \<and> cmulti_ok m' \<and> multi_step (cmulti_pairs m) (DropSome key) x (cmulti_pairs m')"
proof -
  obtain r m' where r: "answer (map_option tuple_from_multi) (cset_remove 1 (multi_ops srch) multi_key key m) = Inr (Some (r, m'))" "cmulti_ok m'"
    "case r of None \<Rightarrow> \<not> has_key multi_key key (elements m) \<and> m' = m
     | Some (key', v) \<Rightarrow> (key', v) \<in> cmulti_pairs m \<and> multi_key (MkMulti key' v) = key \<and> cmulti_pairs m' = cmulti_pairs m - {(key', v)}"
    using remove_call [OF assms multi_key_grouped] by blast
  then have call: "cmulti_call srch (DropSome key) m = Inr (Removed r, m')"
    by (simp add: cmulti_call_def cmulti_remove_some_def)
  show ?thesis
  proof (cases r)
    case None
    then have "key \<notin> fst ` cmulti_pairs m" "m' = m"
      using r(3) by (simp_all add: has_multi_key cmulti_pairs_def)
    then show ?thesis
      using call r(2) None some_miss by simp
  next
    case (Some p)
    then obtain v where "p = (key, v)" "(key, v) \<in> cmulti_pairs m" "cmulti_pairs m' = cmulti_pairs m - {(key, v)}"
      using r(3) by (auto split: prod.splits)
    then show ?thesis
      using call r(2) Some some_hit by simp
  qed
qed

lemma entries_call:
  assumes "cmulti_ok m"
  shows "\<exists>x. cmulti_call srch (Entries key) m = Inr (x, m) \<and> multi_step (cmulti_pairs m) (Entries key) x (cmulti_pairs m)"
proof -
  let ?xs = "map tuple_from_multi (filter (\<lambda>x. multi_key x = key) (elements m))"
  have "set ?xs = {p \<in> cmulti_pairs m. fst p = key}"
    by (auto simp: cmulti_pairs_def tuple_from_multi_def)
  then have "multi_step (cmulti_pairs m) (Entries key) (Listed ?xs) (cmulti_pairs m)"
    using entries_sorted [of m key] assms by (intro entries) (simp_all add: cmulti_ok_def)
  then show ?thesis
    using cmulti_get_entries [OF assms] by (auto simp: cmulti_call_def)
qed

lemma cmulti_provider: "multi_provider (cmulti_call srch) cmulti_pairs cmulti_ok"
proof
  fix m :: "('k, 'v) cmulti" and c
  assume ok: "cmulti_ok m"
  show "\<exists>x m'. cmulti_call srch c m = Inr (x, m') \<and> cmulti_ok m' \<and> multi_step (cmulti_pairs m) c x (cmulti_pairs m')"
  proof (cases c)
    case (Has key)
    then show ?thesis
      using cmulti_contains_key_eq [OF search_backend_axioms ok, of key] ok has by (simp add: cmulti_call_def)
  qed (use add_call drop_call drop_some_call entries_call ok in blast)+
qed

end

lemma multi_backend_search: "search_backend srch \<Longrightarrow> multi_backend srch"
  by (simp add: multi_backend_def)

interpretation vec_multi: multi_backend search
  by (rule multi_backend_search [OF custom.search_backend_axioms])

interpretation vec_pairs: multi_provider "cmulti_call search" cmulti_pairs cmulti_ok
  by (rule vec_multi.cmulti_provider)

end
