(* ===== verification/Concurrent_Multimap_Props.thy ===== *)
theory Concurrent_Multimap_Props
  imports Concurrent_Multimap_Facts
begin

text \<open>
  The properties of \<open>src/concurrent/multimap.rs\<close>.
\<close>

definition multi_of :: "nat \<Rightarrow> (nat \<times> nat) list \<Rightarrow> (nat, nat) cmulti" where
  "multi_of c ps = (case insert_each 1 (multi_ops search) (map (\<lambda>(key, v). MkMulti key v) ps) (cmulti_with_maximum_node_size c) of
     Inr (Some m) \<Rightarrow> m | _ \<Rightarrow> cmulti_default)"

lemma insert_each_multi:
  assumes "search_backend srch" and "cmulti_ok m"
  shows "\<exists>m'. insert_each 1 (multi_ops srch) xs m = Inr (Some m') \<and> cmulti_ok m' \<and> set (elements m') = set xs \<union> set (elements m)"
  using assms(2)
proof (induction xs arbitrary: m)
  case (Cons x xs)
  obtain evs m1 where p: "put_inner 1 False (multi_ops srch) x m = Inr (Some ((if x \<in> set (elements m) then Some x else None, evs), m1))"
    "cmulti_ok m1" "set (elements m1) = insert x (set (elements m))"
    using cmulti_put [OF assms(1) Cons.prems] by blast
  have "cset_insert 1 (multi_ops srch) x m = Inr (Some (x \<notin> set (elements m), m1))"
    unfolding cset_insert_def p(1) by simp
  then show ?case
    using Cons.IH [OF p(2)] p(3) by simp
qed simp

lemma multi_of_ok: "cmulti_ok (multi_of c ps)" "cmulti_pairs (multi_of c ps) = set ps"
proof -
  let ?xs = "map (\<lambda>(key, v). MkMulti key v) ps" and ?m = "cmulti_with_maximum_node_size c :: (nat, nat) cmulti"
  obtain m where m: "insert_each 1 (multi_ops search) ?xs ?m = Inr (Some m)" "cmulti_ok m" "set (elements m) = set ?xs \<union> set (elements ?m)"
    using insert_each_multi [OF custom.search_backend_axioms cmulti_new_ok] by blast
  have "set (elements ?m) = {}"
    using cmulti_new_pairs [of c] by (simp add: cmulti_pairs_def)
  then have "cmulti_pairs m = set ps"
    using m(3) by (force simp: cmulti_pairs_def tuple_from_multi_def)
  then show "cmulti_ok (multi_of c ps)" "cmulti_pairs (multi_of c ps) = set ps"
    using m(1,2) by (simp_all add: multi_of_def)
qed

text \<open>
  C11: the concurrent multimap refines a set of pairs: any program of \<open>insert\<close>, \<open>remove\<close>,
  \<open>remove_some\<close>, \<open>contains_key\<close> and \<open>get\<close> calls, over any lawful node search, finishes without
  panic, and its answers are those of a run of the set of pairs. An entry is stored once however
  often it is inserted, \<open>remove_some\<close> takes some entry of the key if there is one, and \<open>get\<close> lists all
  entries of a key in the order of their values, whichever nodes they lie in.
\<close>

theorem cmulti_refines_pairs:
  assumes "search_backend srch" and "cmulti_ok m"
  shows "\<exists>xs m'. run_multi (cmulti_call srch) cs m = Inr (xs, m') \<and> cmulti_ok m' \<and>
    multi_runs (cmulti_pairs m) cs xs (cmulti_pairs m')"
  by (rule multi_provider.run_multi_refines [OF multi_backend.cmulti_provider [OF multi_backend_search [OF assms(1)]] assms(2)])

theorem cmulti_refines_pairs_witness:
  "\<exists>m'. run_multi (cmulti_call search) [Add 1 4, Has 1, Entries 1, Drop 1 2, Entries 1] (multi_of 2 [(1, 2), (1, 3), (2, 5)]) =
    Inr ([Replaced None, Present True, Listed [(1, 2), (1, 3), (1, 4)], Removed (Some (1, 2)), Listed [(1, 3), (1, 4)]], m') \<and> cmulti_ok m'"
proof -
  let ?S = "set [(1, 2), (1, 3), (2, 5 :: nat)] :: (nat \<times> nat) set" and ?cs = "[Add 1 4, Has 1, Entries 1, Drop 1 2, Entries 1]"
  let ?xs = "[Replaced None, Present True, Listed [(1, 2), (1, 3), (1, 4)], Removed (Some (1, 2)), Listed [(1, 3), (1, 4 :: nat)]]"
  obtain xs m' where r: "run_multi (cmulti_call search) ?cs (multi_of 2 [(1, 2), (1, 3), (2, 5)]) = Inr (xs, m')" "cmulti_ok m'"
    "multi_runs ?S ?cs xs (cmulti_pairs m')"
    using cmulti_refines_pairs [OF custom.search_backend_axioms multi_of_ok(1) [of 2 "[(1, 2), (1, 3), (2, 5)]"], of ?cs]
    unfolding multi_of_ok(2) by blast
  have has: "multi_step (insert (1, 4) ?S) (Has 1) (Present True) (insert (1, 4) ?S)"
    using multi_step.has [of "insert (1, 4) ?S" 1] by simp
  have "multi_runs ?S ?cs ?xs (insert (1, 4) ?S - {(1, 2)})"
    by (rule multi_runs.call, rule add_new, simp)
      (rule multi_runs.call, rule has,
       rule multi_runs.call, rule entries, force, simp,
       rule multi_runs.call, rule drop_hit, simp,
       rule multi_runs.call, rule entries, force, simp, rule multi_runs.stop)
  then have "xs = ?xs"
    using multi_runs_deterministic [OF r(3)] by simp
  then show ?thesis
    using r by blast
qed


definition split_multi :: "(nat, nat) cmulti" where
  "split_multi = multi_of 4 [(1, 1), (2, 1), (2, 2), (2, 3), (2, 4)]"

definition half_removed :: "(nat, nat) cmulti" where
  "half_removed = (case remove_attempt False (multi_ops search) id (MkMulti 2 1) split_multi of
     Inr (_, m) \<Rightarrow> m | _ \<Rightarrow> cmulti_default)"

lemma half_removed_outcome:
  "(case remove_attempt False (multi_ops search) id (MkMulti 2 1) split_multi of Inr (r, _) \<Rightarrow> Some r | _ \<Rightarrow> None) =
    Some (RemoveRepair (MkMulti 2 1) [] (UpdateMax 0 (MkMulti 2 1)))"
  "elements half_removed = [MkMulti 1 1, MkMulti 2 2, MkMulti 2 3, MkMulti 2 4]"
  "cmulti_contains_key search multi_key 2 (\<lambda>_. half_removed) = Inr False"
  by code_simp+


section \<open>The order of entries\<close>

text \<open>The contract of \<open>Ord\<close> that searches and the index rely on.\<close>

definition lawful_ord :: "('a \<Rightarrow> 'a \<Rightarrow> ordering) \<Rightarrow> ('a \<Rightarrow> 'a \<Rightarrow> bool) \<Rightarrow> bool" where
  "lawful_ord cmp eq \<longleftrightarrow> (\<forall>x y. cmp x y = Equal \<longleftrightarrow> eq x y) \<and> (\<forall>x y. cmp x y = Less \<longleftrightarrow> cmp y x = Greater) \<and>
     (\<forall>x y z. cmp x y = Less \<longrightarrow> cmp y z \<noteq> Greater \<longrightarrow> cmp x z = Less) \<and>
     (\<forall>x y z. cmp x y \<noteq> Greater \<longrightarrow> cmp y z = Less \<longrightarrow> cmp x z = Less)"

lemma lawful_compare: "lawful_ord (\<lambda>x y. compare (f x) (f y)) (\<lambda>x y. f x = f y)"
  by (auto simp: lawful_ord_def compare_def split: if_splits)

text \<open>
  C40: the entry types of the maps meet the contract of \<open>Ord\<close> that the searches rely on: for the pairs
  of a map and for the entries of a multimap alike, \<open>cmp\<close> is \<open>Equal\<close> exactly when \<open>eq\<close> holds, swapping
  the arguments reverses it, and it is transitive. The key that a multimap entry lends out orders along
  with the entries, so the entries of a key lie together.
\<close>

theorem entry_orders_lawful:
  "lawful_ord (pair_cmp :: ('k::linorder, 'v) pair \<Rightarrow> _) pair_eq \<and>
   lawful_ord (multi_cmp :: ('k, 'w::linorder) ord_multi_pair \<Rightarrow> _) multi_eq \<and>
   borrow_grouped id (multi_key :: ('k, 'w) ord_multi_pair \<Rightarrow> 'k)"
proof (intro conjI)
  show "lawful_ord (pair_cmp :: ('k, 'v) pair \<Rightarrow> _) pair_eq"
    using lawful_compare [of pair_key] by (simp add: pair_cmp_def pair_eq_def lawful_ord_def)
  have "multi_eq x y \<longleftrightarrow> x = y" for x y :: "('k, 'w) ord_multi_pair"
    by (cases x; cases y) (simp add: multi_eq_def)
  then show "lawful_ord (multi_cmp :: ('k, 'w) ord_multi_pair \<Rightarrow> _) multi_eq"
    using lawful_compare [of id] by (simp add: multi_cmp_compare lawful_ord_def)
  show "borrow_grouped id (multi_key :: ('k, 'w) ord_multi_pair \<Rightarrow> 'k)"
    by (rule multi_key_grouped)
qed

end
