(* ===== verification/Interleaving_Bounds.thy ===== *)
theory Interleaving_Bounds
  imports Interleaving Concurrent_Remove
begin

text \<open>
  The size of nodes: with a capacity of at least two, no section of any operation leaves a node with
  more elements than the capacity, whatever the nodes hold and wherever the routes lead. An insertion
  adds one element to a node below the capacity, a split adds one to a half.
\<close>

definition roomy :: "nat \<Rightarrow> 'a cset \<Rightarrow> bool" where
  "roomy c s \<longleftrightarrow> cs_capacity s = c \<and> (\<forall>a. length (cs_nodes s a) \<le> c)"

lemma roomy_update: "roomy c s \<Longrightarrow> length n \<le> c \<Longrightarrow> roomy c (s\<lparr> cs_nodes := (cs_nodes s)(a := n) \<rparr>)"
  by (simp add: roomy_def)

lemma roomy_fresh: "roomy c s \<Longrightarrow> length n \<le> c \<Longrightarrow> roomy c (s\<lparr> cs_nodes := (cs_nodes s)(a := n), cs_next := i \<rparr>)"
  by (simp add: roomy_def)

lemma roomy_emit [simp]: "roomy c (snd (emit_events e us s)) \<longleftrightarrow> roomy c s"
  by (simp add: roomy_def)

lemma roomy_topology [simp]: "roomy c (s\<lparr> cs_index := t \<rparr>) \<longleftrightarrow> roomy c s" "roomy c (with_topology t s) \<longleftrightarrow> roomy c s"
  by (simp_all add: roomy_def with_topology_def)

lemma roomy_nodes: "roomy c s \<Longrightarrow> length (cs_nodes s a) \<le> c"
  by (simp add: roomy_def)

lemma on_ok_rbind: "on_ok R m \<Longrightarrow> (\<And>x. R x \<Longrightarrow> on_ok Q (f x)) \<Longrightarrow> on_ok Q (rbind m f)"
  by (auto simp: on_ok_def rbind_eq_Inr)

lemma on_ok_any: "(\<And>x. on_ok Q (f x)) \<Longrightarrow> on_ok Q (rbind m f)"
  by (simp add: wp)

lemma node_insert_length: "on_ok (\<lambda>(_, n'). length n' \<le> Suc (length n)) (node_insert srch k n v)"
  unfolding node_insert_def by (rule on_ok_any) (simp add: wp vec_insert_def split: rust_result.split)

lemma node_replace_length: "length (snd (node_replace n i x)) = length n"
  by (simp add: node_replace_def split: option.split)

lemma commit_insert_length: "on_ok (\<lambda>(n', _). length n' \<le> Suc (length n)) (commit_insert emit P n mx v)"
  unfolding commit_insert_def
  by (auto simp: wp Let_def case_prod_unfold node_replace_length dest!: on_okD [OF node_insert_length])

lemma commit_left_length: "on_ok (\<lambda>(n', _). length n' \<le> Suc (length n)) (commit_left emit P a v n g)"
proof (cases "node_max n")
  case (Some mx)
  have "on_ok (\<lambda>(n', _). length n' \<le> Suc (length n)) (if op_key P v \<le> op_key P mx
      then rbind (commit_insert emit P n mx v) (\<lambda>(half', old, _, evs). Inr (half', old, True, evs)) else Inr (n, None, False, []))"
    by (auto simp: wp dest!: on_okD [OF commit_insert_length])
  then show ?thesis
    unfolding commit_left_def Some option.case by (rule on_ok_rbind) (auto simp: wp)
qed (simp add: commit_left_def wp)

lemma commit_right_length:
  "on_ok (\<lambda>(n', _). \<forall>m. n' = Some m \<longrightarrow> length m \<le> Suc (length n)) (commit_right emit P a v attempted n g)"
proof (cases "node_max n")
  case (Some mx)
  have "on_ok (\<lambda>(n', _). length n' \<le> Suc (length n)) (if \<not> attempted
      then rbind (commit_insert emit P n mx v) (\<lambda>(half', old, inserted, evs). Inr (half', old, if inserted \<and> op_key P mx < op_key P v then v else mx, evs))
      else Inr (n, None, mx, []))"
    by (auto simp: wp dest!: on_okD [OF commit_insert_length])
  then show ?thesis
    unfolding commit_right_def Some option.case by (rule on_ok_rbind) (auto simp: wp)
qed (simp add: commit_right_def wp)

section \<open>Sections\<close>

lemma put_attempt_roomy: "roomy c s \<Longrightarrow> on_ok (\<lambda>(_, s'). roomy c s') (put_attempt emit P v s)"
proof (cases "put_target P v (canon (cs_index s))")
  case (Some r)
  assume s: "roomy c s"
  obtain key a where r: "r = (key, a)"
    by force
  have "roomy c (s\<lparr> cs_nodes := (cs_nodes s)(a := n') \<rparr>)"
    if "node_insert (op_search P) (op_key P) (cs_nodes s a) v = Inr (x, n')" "\<not> node_need_to_split (cs_nodes s a) (cs_capacity s) v" for x n'
    using on_okD [OF node_insert_length that(1)] that(2) s by (intro roomy_update) (simp_all add: node_need_to_split_def roomy_def)
  then show ?thesis
    using s Some r by (auto simp: put_attempt_def wp Let_def case_prod_unfold split: option.split)
qed (simp add: put_attempt_def wp)

lemma put_replace_roomy: "roomy c s \<Longrightarrow> on_ok (\<lambda>(_, s'). roomy c s') (put_replace emit P v a i mx s)"
  by (auto simp: put_replace_def wp Let_def case_prod_unfold node_replace_length roomy_def)

lemma commit_split_roomy:
  assumes "roomy c s" and "2 \<le> c"
  shows "on_ok (\<lambda>(_, s', _). roomy c s') (commit_split emit P a old_max v s g)"
proof (cases "node_max (cs_nodes s a)")
  case (Some mx)
  let ?h = "length (cs_nodes s a) div 2"
  have half: "Suc ?h \<le> c" "Suc (length (cs_nodes s a) - ?h) \<le> c"
    using roomy_nodes [OF assms(1), of a] assms(2) by linarith+
  have new: "roomy c (case right of None \<Rightarrow> s\<lparr> cs_nodes := (cs_nodes s)(a := left) \<rparr>
      | Some n \<Rightarrow> s\<lparr> cs_nodes := (cs_nodes s)(a := left, cs_next s := n), cs_next := cs_next s + 1 \<rparr>)"
    if "length left \<le> c" "\<forall>n. right = Some n \<longrightarrow> length n \<le> c" for left right
    using that assms(1) by (auto simp: roomy_def split: option.split)
  have "roomy c (case right of None \<Rightarrow> s\<lparr> cs_nodes := (cs_nodes s)(a := left) \<rparr>
      | Some n \<Rightarrow> s\<lparr> cs_nodes := (cs_nodes s)(a := left, cs_next s := n), cs_next := cs_next s + 1 \<rparr>)"
    if "commit_left emit P a v (take ?h (cs_nodes s a)) g1 = Inr (left, x)"
      "commit_right emit P (cs_next s) v att (drop ?h (cs_nodes s a)) g2 = Inr (right, y)" for left x right y att g1 g2
    using on_okD [OF commit_left_length that(1)] on_okD [OF commit_right_length that(2)] half by (intro new) (auto intro: order_trans)
  then show ?thesis
    using assms(1) Some by (auto simp: commit_split_def node_halve_def vec_split_off_def wp Let_def case_prod_unfold)
qed (use assms(1) in \<open>simp add: commit_split_def wp\<close>)

lemma commit_update_max_same: "on_ok (\<lambda>(_, s', _). s' = s) (commit_update_max P a old_max s g)"
  by (auto simp: commit_update_max_def wp case_prod_unfold split: option.split)

lemma commit_roomy:
  assumes "roomy c s" and "2 \<le> c"
  shows "on_ok (\<lambda>(_, s', _). roomy c s') (commit emit P operation s g)"
proof (cases operation)
  case (UpdateMax a key)
  then show ?thesis
    using assms(1) commit_update_max_same [of s P a key g] by (auto simp: commit_def on_ok_def)
qed (use commit_split_roomy [OF assms] in \<open>simp add: commit_def\<close>)

lemma put_commit_roomy:
  assumes "roomy c s" and "2 \<le> c"
  shows "on_ok (\<lambda>(_, s', _). roomy c s') (put_commit emit P operation evs s g)"
  unfolding put_commit_def
  by (rule on_ok_rbind [OF commit_roomy [OF assms]]) (auto simp: wp Let_def case_prod_unfold split: option.split operation.split)

lemma put_root_roomy:
  assumes "roomy c s" and "2 \<le> c"
  shows "on_ok (\<lambda>(_, s', _). roomy c s') (put_root emit P v s g)"
proof -
  have "length n \<le> c" if "node_insert srch k [] v = Inr (x, n)" for srch k x n
    using on_okD [OF node_insert_length that] assms(2) by simp
  then show ?thesis
    using assms(1) by (auto simp: put_root_def wp Let_def case_prod_unfold node_with_capacity_def roomy_def)
qed

lemma node_delete_length: "on_ok (\<lambda>(_, n'). length n' \<le> length n) (node_delete srch b n q)"
  unfolding node_delete_def by (rule on_ok_any) (auto simp: wp vec_remove_def split: rust_result.split)

lemma remove_attempt_roomy: "roomy c s \<Longrightarrow> on_ok (\<lambda>(_, s'). roomy c s') (remove_attempt emit P b q s)"
proof (cases "remove_target b q s (canon (cs_index s))")
  case (Some r)
  assume s: "roomy c s"
  have "roomy c (s\<lparr> cs_nodes := (cs_nodes s)(a := n') \<rparr>)" if "node_delete srch b (cs_nodes s a) q = Inr (x, n')" for a srch x n'
    using on_okD [OF node_delete_length that] roomy_nodes [OF s, of a] s by (intro roomy_update) auto
  then show ?thesis
    using s Some by (auto simp: remove_attempt_def wp Let_def case_prod_unfold split: option.split)
qed (simp add: remove_attempt_def wp)

lemma remove_singleton_roomy: "roomy c s \<Longrightarrow> on_ok (\<lambda>(_, s', _). roomy c s') (remove_singleton emit P b q s g)"
proof (cases "remove_target b q s (tg_canon g)")
  case (Some r)
  assume s: "roomy c s"
  have "roomy c (s\<lparr> cs_nodes := (cs_nodes s)(a := n') \<rparr>)" if "node_delete srch b (cs_nodes s a) q = Inr (x, n')" for a srch x n'
    using on_okD [OF node_delete_length that] roomy_nodes [OF s, of a] s by (intro roomy_update) auto
  then show ?thesis
    using s Some by (auto simp: remove_singleton_def wp Let_def case_prod_unfold split: option.split)
qed (simp add: remove_singleton_def wp)

lemma guarded_roomy:
  assumes "on_ok (\<lambda>(_, s', _). roomy c s') (act s g)"
  shows "on_ok (\<lambda>(_, s'). roomy c s') (guarded P g act s)"
  unfolding guarded_def by (rule on_ok_rbind [OF assms]) (auto simp: wp)

section \<open>Steps of threads and whole operations\<close>

lemma pc_step_roomy:
  fixes pc :: "('a, 'q::linorder) pc"
  assumes "roomy c s" and "2 \<le> c"
  shows "on_ok (\<lambda>(_, s', _). roomy c s') (pc_step emit P b pc s lock)"
proof -
  have put: "on_ok (\<lambda>(_, s'). roomy c s') (start_put emit P v s :: (('a, 'q) pc \<times> 'a cset) res)" for v
    unfolding start_put_def
    by (rule on_ok_rbind [OF put_attempt_roomy [OF assms(1)]])
      (auto simp: wp case_prod_unfold dest: on_okD [OF put_replace_roomy] split: put_outcome.split operation.split)
  have remove: "on_ok (\<lambda>(_, s'). roomy c s') (start_remove emit P b q s)" for q
    unfolding start_remove_def by (rule on_ok_rbind [OF remove_attempt_roomy [OF assms(1)]]) (auto simp: wp)
  have guard: "on_ok (\<lambda>(_, s', _). roomy c s') (guard_section emit P b d w s g)" for d :: "('a, 'q) call" and w g
  proof -
    have root: "on_ok (\<lambda>(_, s', _). roomy c s') (rbind (put_root emit P v s g) (\<lambda>(r, s1, g1). Inr (map_option (\<lambda>evs. (None :: 'a option, evs)) r, s1, g1)))" for v
      by (rule on_ok_rbind [OF put_root_roomy [OF assms]]) (auto simp: wp)
    have rekey: "on_ok (\<lambda>(_, s', _). roomy c s') (rbind (commit False P op s g) (\<lambda>(_, s1, g1). Inr (Some (old :: 'a option, evs :: 'a change_event list), s1, g1)))" for op old evs
      by (rule on_ok_rbind [OF commit_roomy [OF assms]]) (auto simp: wp)
    show ?thesis
      by (cases d; cases w; simp only: guard_section_def call.case want.case prod.case on_ok_simps(1) assms(1)
          root rekey put_commit_roomy [OF assms] remove_singleton_roomy [OF assms(1)])
  qed
  show ?thesis
    using assms(1)
    by (auto simp: pc_step_def wp Let_def dest: on_okD [OF put] on_okD [OF remove] on_okD [OF guard] split: pc.split call.split option.split)
qed

lemma sys_run_roomy:
  assumes "2 \<le> c"
  shows "roomy c (sy_set y) \<Longrightarrow> on_ok (\<lambda>y'. roomy c (sy_set y')) (sys_run emit P b is y)"
proof (induction "is" arbitrary: y)
  case (Cons i "is")
  have "on_ok (\<lambda>y'. roomy c (sy_set y')) (sys_step emit P b i y)"
  proof (cases "i < length (sy_pcs y)")
    case True
    show ?thesis
      unfolding sys_step_def if_P [OF True] by (rule on_ok_rbind [OF pc_step_roomy [OF Cons.prems assms]]) (auto simp: wp)
  qed (use Cons.prems in \<open>simp add: sys_step_def wp\<close>)
  then show ?case
    unfolding sys_run.simps by (rule on_ok_rbind) (rule Cons.IH)
qed (simp add: wp)

lemma put_checked_inner_roomy:
  assumes "2 \<le> c"
  shows "roomy c s \<Longrightarrow> on_ok (\<lambda>r. \<forall>x s'. r = Some (x, s') \<longrightarrow> roomy c s') (put_checked_inner n emit P v s)"
proof (induction n arbitrary: s)
  case (Suc n)
  show ?case
    unfolding put_checked_inner.simps
  proof (rule on_ok_rbind [OF put_attempt_roomy [OF Suc.prems]], clarify)
    fix r :: "'a put_outcome" and s1 :: "'a cset"
    assume s1: "roomy c s1"
    show "on_ok (\<lambda>r. \<forall>x s'. r = Some (x, s') \<longrightarrow> roomy c s') (case r of
        PutDone old evs \<Rightarrow> Inr (Some (Ok (old, evs), s1)) | PutOccupied a idx mx \<Rightarrow> Inr (Some (Err (a, idx, mx), s1))
      | PutPending operation evs \<Rightarrow>
          rbind (guarded P (guard_for operation (cs_index s1)) (put_commit emit P operation evs) s1) (\<lambda>(r, s2).
          case r of None \<Rightarrow> put_checked_inner n emit P v s2 | Some x \<Rightarrow> Inr (Some (Ok x, s2)))
      | PutRoot \<Rightarrow>
          rbind (guarded P (topology_write (cs_index s1)) (put_root emit P v) s1) (\<lambda>(r, s2).
          case r of None \<Rightarrow> put_checked_inner n emit P v s2 | Some evs \<Rightarrow> Inr (Some (Ok (None, evs), s2))))"
    proof (cases r)
      case (PutPending operation evs)
      show ?thesis
        unfolding PutPending put_outcome.case
        by (rule on_ok_rbind [OF guarded_roomy [where act = "put_commit emit P operation evs", OF put_commit_roomy [OF s1 assms]]])
          (auto simp: on_ok_simps(1) split: option.split intro: Suc.IH)
    next
      case PutRoot
      show ?thesis
        unfolding PutRoot put_outcome.case
        by (rule on_ok_rbind [OF guarded_roomy [where act = "put_root emit P v", OF put_root_roomy [OF s1 assms]]])
          (auto simp: on_ok_simps(1) split: option.split intro: Suc.IH)
    qed (use s1 in \<open>simp_all add: wp\<close>)
  qed
qed (simp add: wp)

lemma put_inner_roomy:
  assumes "roomy c s" and "2 \<le> c"
  shows "on_ok (\<lambda>r. \<forall>x s'. r = Some (x, s') \<longrightarrow> roomy c s') (put_inner n emit P v s)"
  unfolding put_inner_def
  by (rule on_ok_rbind [OF put_checked_inner_roomy [OF assms(2,1)]])
    (auto simp: wp dest: on_okD [OF put_replace_roomy] split: option.split rust_result.split)

lemma remove_inner_roomy:
  assumes "2 \<le> c"
  shows "roomy c s \<Longrightarrow> on_ok (\<lambda>r. \<forall>x s'. r = Some (x, s') \<longrightarrow> roomy c s') (remove_inner n emit P b q s)"
proof (induction n arbitrary: s)
  case (Suc n)
  show ?case
    unfolding remove_inner.simps
  proof (rule on_ok_rbind [OF remove_attempt_roomy [OF Suc.prems]], clarify)
    fix r :: "'a remove_outcome" and s1 :: "'a cset"
    assume s1: "roomy c s1"
    show "on_ok (\<lambda>r. \<forall>x s'. r = Some (x, s') \<longrightarrow> roomy c s') (case r of
        RemoveDone old evs \<Rightarrow> Inr (Some ((old, evs), s1))
      | RemoveSingleton \<Rightarrow>
          rbind (guarded P (topology_write (cs_index s1)) (remove_singleton emit P b q) s1) (\<lambda>(r, s2).
          case r of None \<Rightarrow> remove_inner n emit P b q s2 | Some x \<Rightarrow> Inr (Some (x, s2)))
      | RemoveRepair x evs operation \<Rightarrow>
          rbind (guarded P (topology_write_rekey (cs_index s1)) (commit False P operation) s1) (\<lambda>(_, s2). Inr (Some ((Some x, evs), s2))))"
    proof (cases r)
      case RemoveSingleton
      show ?thesis
        unfolding RemoveSingleton remove_outcome.case
        by (rule on_ok_rbind [OF guarded_roomy [where act = "remove_singleton emit P b q", OF remove_singleton_roomy [OF s1]]])
          (auto simp: on_ok_simps(1) split: option.split intro: Suc.IH [simplified])
    next
      case (RemoveRepair x evs operation)
      show ?thesis
        unfolding RemoveRepair remove_outcome.case
        by (rule on_ok_rbind [OF guarded_roomy [where act = "commit False P operation", OF commit_roomy [OF s1 assms]]]) (auto simp: wp)
    qed (use s1 in \<open>simp add: wp\<close>)
  qed
qed (simp add: wp)

lemma new_roomy: "roomy c (cset_with_maximum_node_size c)"
  by (simp add: roomy_def cset_with_maximum_node_size_def)

lemma system_roomy:
  assumes "2 \<le> c" and "sys_run emit P b is (sys_start (cset_with_maximum_node_size c) cs) = Inr y"
  shows "length (cs_nodes (sy_set y) a) \<le> c"
  by (rule roomy_nodes, rule on_okD [OF sys_run_roomy [OF assms(1)] assms(2)]) (simp add: sys_start_def new_roomy)

end
