(* ===== verification/Map_Sessions.thy ===== *)
theory Map_Sessions
  imports Concurrent_Map_Props Btree_Map_Props Interleaving_Bounds
begin

text \<open>
  Programs on the two maps, and a concurrent map that is written out and loaded again: the image of a
  map whose nodes respect the capacity is always accepted, and the map built from it respects the
  capacity again, so that sessions can follow each other.
\<close>

section \<open>Loading respects the capacity\<close>

lemma attach_loop_roomy:
  "roomy c s \<Longrightarrow> \<forall>n\<in>set ns. length n \<le> c \<Longrightarrow> on_ok (\<lambda>(_, s', _). roomy c s') (attach_loop P ns s g)"
proof (induction ns arbitrary: s g)
  case (Cons n ns)
  then show ?case
    by (auto simp: wp Let_def roomy_def split: option.split)
qed (simp add: wp)

lemma attach_nodes_roomy:
  assumes "roomy c s" and "\<forall>n\<in>set ns. length n \<le> c"
  shows "on_ok (roomy c) (attach_nodes P ns s)"
  unfolding attach_nodes_def
  by (auto simp: on_ok_def guarded_def rbind_eq_Inr assms(1) dest!: on_okD [OF attach_loop_roomy [OF assms]])

lemma from_topology_roomy:
  assumes "search_backend srch" and "image_ok im"
  shows "on_ok (\<lambda>r. \<forall>m. r = Ok m \<longrightarrow> roomy (im_node_capacity im) m) (from_topology srch im)"
proof -
  have "fill_nodes srch c (im_nodes im) = Inr (im_nodes im)" for c
    using fill_nodes_ok [OF assms(1)] sorted_keys_concat assms(2) unfolding image_ok_def by blast
  moreover have "on_ok (roomy (im_node_capacity im)) (cmap_attach_nodes srch (im_nodes im) (cmap_with_maximum_node_size (im_node_capacity im)))"
    unfolding cmap_attach_nodes_def cmap_with_maximum_node_size_def
    by (rule attach_nodes_roomy [OF new_roomy]) (use assms(2) in \<open>simp add: image_ok_def\<close>)
  ultimately show ?thesis
    by (auto simp: from_topology_def wp split: option.split)
qed

section \<open>Calls and sessions\<close>

lemma elements_image: "elements s = concat (im_nodes (cmap_export_topology s))"
  by (simp add: cmap_export_topology_def export_topology_def elements_def contents_def case_prod_unfold)

text \<open>A program of map calls on the concurrent map and on \<open>BTreeMap\<close>.\<close>

definition cmap_run ::
  "('k::linorder, 'v) pair search_fn \<Rightarrow> ('k, 'v) map_call list \<Rightarrow> ('k, 'v) cmap \<Rightarrow> ('v option list \<times> ('k, 'v) cmap) res" where
  "cmap_run srch = run_calls (\<lambda>m key. lookup_for_select srch pair_key key (\<lambda>_. m)) (\<lambda>m key v. fueled (cmap_insert 1 srch key v m))
     (\<lambda>m key. value_removed (fueled (cmap_remove 1 srch pair_key key m)))"

definition bmap_run ::
  "('k::linorder, 'v, 'f) map_deps \<Rightarrow> ('k, 'v) map_call list \<Rightarrow> ('k, 'v, 'f) btree_map \<Rightarrow> ('v option list \<times> ('k, 'v, 'f) btree_map) res" where
  "bmap_run D = run_calls (bmap_get id) (bmap_insert D) (bmap_remove D id)"

text \<open>Between calls: the invariant, no pending routing change, and nodes within the capacity.\<close>

definition sound :: "nat \<Rightarrow> ('k::linorder, 'v) cmap \<Rightarrow> bool" where
  "sound c m \<longleftrightarrow> cset_ok pair_key m \<and> settled pair_key m \<and> roomy c m"

lemma sound_provider:
  fixes srch :: "('k::linorder, 'v) pair search_fn"
  assumes "search_backend srch" and "2 \<le> c"
  shows "map_provider (\<lambda>m key. lookup_for_select srch pair_key key (\<lambda>_. m)) (\<lambda>m key v. fueled (cmap_insert 1 srch key v m))
    (\<lambda>m key. value_removed (fueled (cmap_remove 1 srch pair_key key m))) cmap_lookup (sound c)"
proof
  fix m :: "('k, 'v) cmap" and key v
  assume "sound c m"
  then have m: "cset_ok pair_key m" "settled pair_key m" "roomy c m"
    by (simp_all add: sound_def)
  show "lookup_for_select srch pair_key key (\<lambda>_. m) = Inr (cmap_lookup m key)"
    by (rule lookup_for_select_eq [OF assms(1) m(1)])
  have "roomy c m'" if "cmap_insert 1 srch key v m = Inr (Some (r, m'))" for r m'
    using that
    by (auto simp: cmap_insert_def cset_put_def answer_def rbind_eq_Inr split: option.splits dest: on_okD [OF put_inner_roomy [OF m(3) assms(2)]])
  then show "\<exists>m'. fueled (cmap_insert 1 srch key v m) = Inr (cmap_lookup m key, m') \<and> sound c m' \<and> cmap_lookup m' = (cmap_lookup m)(key \<mapsto> v)"
    using cmap_insert_ok [OF assms(1) m(1), of key v] m(2) by (auto simp: sound_def)
  have "roomy c m'" if "cmap_remove 1 srch pair_key key m = Inr (Some (r, m'))" for r m'
    using that
    by (auto simp: cmap_remove_def cset_remove_def answer_def rbind_eq_Inr split: option.splits dest: on_okD [OF remove_inner_roomy [OF assms(2) m(3)]]
        simp del: remove_inner.simps)
  then show "\<exists>m'. value_removed (fueled (cmap_remove 1 srch pair_key key m)) = Inr (cmap_lookup m key, m') \<and> sound c m' \<and>
      cmap_lookup m' = (cmap_lookup m)(key := None)"
    using cmap_remove_ok [OF assms(1) m(1), of key] m(2)
    by (auto simp: sound_def value_removed_def option.map_comp comp_def option.map_ident)
qed

lemma sound_reload:
  assumes "search_backend srch" and "sound c m" and "0 < c"
  shows "\<exists>n. from_topology srch (cmap_export_topology m) = Inr (Ok n) \<and> sound c n \<and> cmap_lookup n = cmap_lookup m"
proof -
  have m: "cset_ok pair_key m" "settled pair_key m" "roomy c m"
    using assms(2) by (simp_all add: sound_def)
  have cap: "im_node_capacity (cmap_export_topology m) = c" "0 < cs_capacity m"
    "\<forall>r\<in>set (canon (cs_index m)). length (cs_nodes m (snd r)) \<le> cs_capacity m"
    using m(3) assms(3) by (simp_all add: roomy_def cmap_export_topology_def export_topology_def)
  note im = exported_image [OF m(1,2) cap(2,3)]
  obtain n where n: "from_topology srch (cmap_export_topology m) = Inr (Ok n)" "cset_ok pair_key n" "settled pair_key n"
    "cmap_export_topology n = cmap_export_topology m"
    using from_topology_Ok [OF assms(1) im] by blast
  moreover have "roomy c n"
    using on_okD [OF from_topology_roomy [OF assms(1) im] n(1)] cap(1) by simp
  ultimately show ?thesis
    using elements_image [of n] elements_image [of m] by (auto simp: sound_def cmap_lookup_def)
qed

text \<open>
  Sessions of a store: every session loads the image the one before wrote, runs its calls and writes
  its image; \<open>Err\<close> is the panic of an \<open>unwrap\<close>. Different sessions may use different node searches.
\<close>

fun sessions ::
  "(('k::linorder, 'v) pair search_fn \<times> ('k, 'v) map_call list) list \<Rightarrow> ('k, 'v) pair topology_image \<Rightarrow>
   ('v option list \<times> ('k, 'v) pair topology_image) res" where
  "sessions [] im = Inr ([], im)"
| "sessions ((srch, prog) # rest) im =
     rbind (from_topology srch im) (\<lambda>r. case r of
       Err _ \<Rightarrow> Inl UnwrapNone
     | Ok m \<Rightarrow>
         rbind (cmap_run srch prog m) (\<lambda>(rs, m').
         rbind (sessions rest (cmap_export_topology m')) (\<lambda>(rss, im').
         Inr (rs @ rss, im'))))"

lemma spec_calls_append:
  "spec_calls (cs @ ds) f = (fst (spec_calls cs f) @ fst (spec_calls ds (snd (spec_calls cs f))), snd (spec_calls ds (snd (spec_calls cs f))))"
  proof (induction cs arbitrary: f)
  case (Cons call cs)
  then show ?case
    by (cases call) (simp_all add: Let_def case_prod_unfold fun_upd_def)
qed simp

lemma sessions_run:
  assumes "2 \<le> c"
  shows "\<forall>(srch, _)\<in>set ss. search_backend srch \<Longrightarrow> sound c m \<Longrightarrow>
    \<exists>m'. sessions ss (cmap_export_topology m) = Inr (fst (spec_calls (concat (map snd ss)) (cmap_lookup m)), cmap_export_topology m') \<and>
      sound c m' \<and> cmap_lookup m' = snd (spec_calls (concat (map snd ss)) (cmap_lookup m))"
proof (induction ss arbitrary: m)
  case (Cons s ss)
  obtain srch prog where s: "s = (srch, prog)" "search_backend srch"
    using Cons.prems(1) by force
  obtain n where n: "from_topology srch (cmap_export_topology m) = Inr (Ok n)" "sound c n" "cmap_lookup n = cmap_lookup m"
    using sound_reload [OF s(2) Cons.prems(2)] assms by auto
  obtain m1 where m1: "cmap_run srch prog n = Inr (fst (spec_calls prog (cmap_lookup m)), m1)" "sound c m1"
    "cmap_lookup m1 = snd (spec_calls prog (cmap_lookup m))"
    using map_provider.run_refines [OF sound_provider [OF s(2) assms] n(2), of prog] n(3) unfolding cmap_run_def by auto
  obtain m2 where "sessions ss (cmap_export_topology m1) = Inr (fst (spec_calls (concat (map snd ss)) (cmap_lookup m1)), cmap_export_topology m2)"
    "sound c m2" "cmap_lookup m2 = snd (spec_calls (concat (map snd ss)) (cmap_lookup m1))"
    using Cons.IH [OF _ m1(2)] Cons.prems(1) by auto
  then show ?case
    using s n(1) m1 by (auto simp: spec_calls_append)
qed auto

lemma new_sound:
  "sound c (cset_with_maximum_node_size c :: ('a::linorder, 'b) cmap)" "cmap_lookup (cset_with_maximum_node_size c :: ('a, 'b) cmap) = Map.empty"
proof -
  have "settled pair_key (cset_with_maximum_node_size c :: ('a, 'b) cmap)"
    by (simp add: settled_def cset_with_maximum_node_size_def topology_new_def)
  then show "sound c (cset_with_maximum_node_size c :: ('a, 'b) cmap)" "cmap_lookup (cset_with_maximum_node_size c :: ('a, 'b) cmap) = Map.empty"
    by (simp_all add: sound_def cset_new_ok new_roomy) (simp add: cmap_lookup_def cset_new_ok(2) find_key_def fun_eq_iff)
qed

section \<open>Both maps from their empty states\<close>

lemma bmap_new_inv:
  assumes "btree_deps D slots" and "2 \<le> c"
  shows "bmap_inv slots (bmap_with_maximum_node_size D c)" "lookup (bmap_with_maximum_node_size D c) = Map.empty"
  using btree_deps.with_maximum_node_size_step [OF assms]
  by (simp_all add: bmap_inv_def lookup_def entries_def bmap_with_maximum_node_size_def)

lemma cmap_lookup_Some:
  assumes "sorted_keys pair_key (elements m)"
  shows "cmap_lookup m key = Some v \<longleftrightarrow> MkPair key v \<in> set (elements m)"
proof
  assume "MkPair key v \<in> set (elements m)"
  then show "cmap_lookup m key = Some v"
    using find_key_member [OF assms, of "MkPair key v"] by (simp add: cmap_lookup_def)
next
  assume "cmap_lookup m key = Some v"
  then obtain x where "find_key pair_key key (elements m) = Some x" "pair_value x = v"
    by (auto simp: cmap_lookup_def)
  then show "MkPair key v \<in> set (elements m)"
    using find_key_Some [of pair_key key "elements m" x] by (cases x) auto
qed

lemma same_entries:
  assumes "sorted_keys pair_key (entries m)" and "sorted_keys pair_key (elements n)" and "lookup m = cmap_lookup n"
  shows "entries m = elements n"
proof (rule sorted_keys_unique [OF assms(1,2)], rule set_eqI)
  fix p
  show "p \<in> set (entries m) \<longleftrightarrow> p \<in> set (elements n)"
    using lookup_Some [OF assms(1)] cmap_lookup_Some [OF assms(2)] assms(3) by (cases p) metis
qed

end
