(* ===== verification/Spec2Isabelle.thy ===== *)
theory Spec2Isabelle
  imports Btree_Set_Iter_Props Btree_Map_Iter_Props Concurrent_Iter_Props Concurrent_Map_Props Concurrent_Multimap_Props Map_Sessions
begin

text \<open>
  A verification of \<open>indexset\<close> (package \<open>WorkTablesIndex\<close>): ordered sets, maps and multimaps
  as two-level trees, a list of sorted nodes of bounded size below an index of the nodes, in a
  single-threaded form with order statistics and in a concurrent form with change events.

  \<^bold>\<open>The program.\<close> \<open>core/node.rs\<close> is a node, a sorted \<open>Vec\<close> with its binary searches. \<open>lib.rs\<close> holds
  the single-threaded \<open>BTreeSet\<close> (nodes, a Fenwick tree of their lengths for positions, the length)
  and \<open>BTreeMap\<close>, a set of \<open>Pair\<close>s (\<open>core/pair.rs\<close>), with iterators, ranges, set operations, entries
  and cursors. \<open>concurrent/set.rs\<close> is the concurrent \<open>BTreeSet\<close>: nodes behind locks, a canonical index
  from the largest element of a node to the node behind a structural lock, and a published copy of
  the index, in chunks shared between versions, that readers use without that lock and validate with
  a generation counter. \<open>concurrent/operation.rs\<close> has the two structural changes, splitting a node
  and moving its key. \<open>concurrent/map.rs\<close> and \<open>concurrent/multimap.rs\<close> are projections of the
  concurrent set to pairs and to entries that hold a key and a value (\<open>core/multipair/ord.rs\<close>); \<open>cdc/change.rs\<close>
  has the events that writers emit on request.

  \<^bold>\<open>Conventions.\<close> A call that can panic has type \<open>panic + 'a\<close> (\<open>res\<close>, in \<open>Prelude\<close>): indexing, slicing,
  \<open>unwrap\<close>, subtraction and \<open>debug_assert\<close> are checked where the code has them, so every theorem that
  gives \<open>Inr\<close> shows the absence of panics. Vectors are lists, \<open>usize\<close> lengths are \<open>nat\<close>; identifiers
  and generations are 64-bit words. \<open>Ord\<close> is a key function \<open>k\<close> into a linear order, under which
  distinct values may be equal, and \<open>Borrow\<close> a second function with the law \<open>borrow_ok\<close>, or the weaker
  \<open>borrow_grouped\<close> for the key of a multimap entry. A reference that the caller writes through is the
  update it makes. Nodes of the concurrent set live in a heap from addresses to lists, so that two
  indexes share them as the \<open>Arc\<close>s do.

  \<^bold>\<open>Code outside the repository\<close> is a parameter: the search of a node (features \<open>std\<close>, \<open>superslice\<close>,
  \<open>wt-slice\<close>; the repository's own search is an instance) under the locale \<open>search_backend\<close>, and the
  \<open>ftree\<close> crate under \<open>fenwick_tree\<close>. Both locales are interpreted on concrete functions, and the
  witnesses of the properties use them.

  \<^bold>\<open>Theories.\<close>

  \<^item> \<open>Prelude\<close>, \<open>Spine\<close>: results, vectors and sorted lists under a key, the collection \<open>wp\<close> of rules
    for \<open>on_ok\<close>; positions in a list of nodes against positions in their concatenation.
  \<^item> \<open>Node\<close> (\<open>core/node.rs\<close>): the searches, \<open>compute_positions_to_skip\<close> and the node operations; the
    searches agree with the linear reading of a sorted slice.
  \<^item> \<open>Fenwick\<close>, \<open>Iterators\<close>, \<open>Map_Contract\<close>, \<open>Multimap_Contract\<close>: the interfaces, each a locale with what
    its clients derive from it: any program of calls sees the answers of a finite function, or
    of a set of pairs; an iterator stepped from both ends is a double-ended queue.
  \<^item> \<open>Btree_Set\<close>, \<open>Btree_Set_Iter\<close>, \<open>Btree_Map\<close>, \<open>Btree_Map_Iter\<close> (\<open>lib.rs\<close>, \<open>core/pair.rs\<close>): one definition
    per method, named after it with the prefix \<open>bset_\<close> or \<open>bmap_\<close>. \<open>Btree_Set_Facts\<close>, \<open>_Bulk\<close>, \<open>_Iter_Facts\<close>,
    \<open>_Algebra\<close> and \<open>Btree_Map_Facts\<close>, \<open>_Ops\<close>, \<open>_Iter_Facts\<close> have the invariant \<open>bset_inv\<close> (sorted, no
    empty node beside others, length and index in step), that every method keeps it, and what it does to the sorted
    list of elements; the theories in \<open>_Props\<close> have the properties.
  \<^item> \<open>Cdc_Change\<close> (\<open>cdc/change.rs\<close>, \<open>core/multipair/ord.rs\<close>): events, identifiers, entries.
  \<^item> \<open>Published\<close>, \<open>Topology\<close>, \<open>Topology_Facts\<close> (\<open>concurrent/set.rs\<close>): the chunked index as an ordered
    map, the canonical index with its write guard, and that a dropped guard has published what it changed.
  \<^item> \<open>Concurrent_Set\<close> (\<open>concurrent/set.rs\<close>, \<open>operation.rs\<close>): the state \<open>cset\<close>, the sections of insertion
    and removal, each a function of the state under the lock it holds, and the loops around them. \<open>Concurrent_Facts\<close>,
    \<open>_Commit\<close>, \<open>_Remove\<close>, \<open>_Attach\<close>: the invariant \<open>cset_ok\<close> and that every section keeps it and
    acts on the elements as the abstract operation (\<open>spec_put\<close>, \<open>spec_remove\<close>) or not at all. \<open>settled\<close>
    says that no routing change is pending, \<open>keyed\<close> that every key of the index is a stored element's.
  \<^item> \<open>Concurrent_Read\<close>, \<open>Concurrent_Iter\<close> and \<open>Concurrent_Iter_Facts\<close>, \<open>_Range\<close>, \<open>_Remove_Range\<close>, \<open>_Scan\<close>, \<open>_Grouped\<close>:
    point reads and iterators as functions of the states that they observe at their successive accesses, on
    a set at rest and on one that changes; range removal; lookups by a key that several entries share.
  \<^item> \<open>Interleaving\<close>: threads as program counters over the sections, a run as a schedule.
    \<open>Interleaving_Facts\<close> keeps a log of the operations that took effect (linearizability), \<open>_Progress\<close> shows
    that there is no deadlock, \<open>_Read\<close> and \<open>_Scan\<close> place readers and scans among writers, and \<open>_Bounds\<close>
    bounds the nodes. \<open>Concurrent_Props\<close> and \<open>Concurrent_Iter_Props\<close> have the properties.
  \<^item> \<open>Concurrent_Map\<close>, \<open>Concurrent_Multimap\<close> (\<open>concurrent/map.rs\<close>, \<open>ref.rs\<close>, \<open>multimap.rs\<close>, \<open>core/multipair.rs\<close>): their
    methods over those of the set, and images of a map; \<open>_Facts\<close> interpret the contracts on them, \<open>_Props\<close>
    have the properties. \<open>Map_Sessions\<close>: programs on both maps, and maps written out and loaded again.
  \<^item> This theory: the properties that span components.

  \<^bold>\<open>What is shown.\<close> For the single-threaded types: the invariant over every sequence of mutating
  methods, each method against the sorted list, maps as finite functions, iterators as double-ended
  queues, rank and select as inverses. For the concurrent set: linearizability of every interleaving
  of writers in which no split commits on a node that its value has ceased to route to, reads
  without the structural lock as linearizable, scans as weakly consistent, absence of deadlock,
  bounded nodes; without interference every operation against the abstract set, map or multimap. Where
  the code departs from its intent the properties give the run or the input: a stale split that loses an
  element, a scan that ends early during a pending key move, ranges that yield elements outside their
  bounds, \<open>checked_insert\<close> overwriting in a full node, \<open>contains_key\<close> missing a key during a removal,
  mutable iterators that stop at half of the nodes, capacities below two.

  \<^bold>\<open>Bounds and fuel.\<close> The retry loops of the concurrent writers take fuel; one unit is enough without
  interference (\<open>put_inner_ok\<close>, \<open>remove_inner_ok\<close>), and the interleaving model has no fuel: a thread
  that starts over goes back to \<open>Start\<close>. Point reads terminate by their own retry limit, after which
  they take the structural lock. An iterator call needs three turns on a set at rest; a scan
  among writers needs one more step than there are keys it may yield. Collecting an iterator takes
  one more step than there are elements. Reads among writers assume fewer than \<open>2 ^ 64\<close> steps
  between two loads of the generation, as the code does. Splitting theorems ask for a capacity of at least two;
  what smaller ones do is a property of its own.

  \<^bold>\<open>Not modelled.\<close> Reclamation of retired index versions (\<open>ps_reclaim\<close>, outside the repository), spinning
  and yielding, and memory orderings weaker than the order in which the sections and loads happen: a
  step of a thread is a whole critical section, and a load sees the latest state. Interleavings put
  insertions, removals, point reads and scans side by side; \<open>remove_range\<close>, attaching nodes and
  exporting an image run alone, under the structural lock that excludes the others. \<open>capacity\<close> reads the allocator.
  \<open>Debug\<close>, \<open>Display\<close>, \<open>Hash\<close> and serialisation follow the derived form of the fields. The constants
  \<open>CUTOFF_RATIO\<close> and \<open>DEFAULT_CUTOFF\<close> are not used by the code. Tests and benches have no state of their own.
\<close>

section \<open>Properties across components\<close>

text \<open>
  C13: the single-threaded map and the concurrent map are interchangeable: every program of lookups,
  insertions and removals, started on an empty \<open>BTreeMap\<close> and on an empty concurrent map, over any
  lawful index tree and node search and for any capacities (from two on for \<open>BTreeMap\<close>), gets the same
  answers, and the maps hold the same entries in the same order afterwards.
\<close>

theorem maps_agree:
  assumes "btree_deps D slots" and "search_backend srch" and "2 \<le> c"
  shows "\<exists>rs m n. bmap_run D prog (bmap_with_maximum_node_size D c) = Inr (rs, m) \<and>
    cmap_run srch prog (cmap_with_maximum_node_size d) = Inr (rs, n) \<and> entries m = elements n"
proof -
  obtain m where m: "bmap_run D prog (bmap_with_maximum_node_size D c) = Inr (fst (spec_calls prog Map.empty), m)"
    "bmap_inv slots m" "lookup m = snd (spec_calls prog Map.empty)"
    using btree_map_deps.provider_refines [OF _ bmap_new_inv(1) [OF assms(1,3)], where calls = prog] assms(1)
    by (auto simp: btree_map_deps_def bmap_run_def bmap_new_inv(2) [OF assms(1,3)])
  obtain n where n: "cmap_run srch prog (cmap_with_maximum_node_size d) = Inr (fst (spec_calls prog Map.empty), n)"
    "cset_ok pair_key n" "cmap_lookup n = snd (spec_calls prog Map.empty)"
    using map_provider.run_refines [OF cmap_provider [OF assms(2)] cset_new_ok(1) [of pair_key d], where calls = prog]
    by (auto simp: cmap_run_def cmap_with_maximum_node_size_def new_sound(2))
  have "entries m = elements n"
    by (rule same_entries [OF bmap_invD(2) [OF m(2)] cset_okD(6) [OF n(2)]]) (simp add: m(3) n(3))
  then show ?thesis
    using m(1) n(1) by blast
qed

theorem maps_agree_witness:
  "\<exists>rs m n. bmap_run ref_deps [Insert 4 40, Insert 2 20, Remove 4, Insert (9::nat) (90::nat), Get 2] (bmap_with_maximum_node_size ref_deps 2) = Inr (rs, m) \<and>
    cmap_run search [Insert 4 40, Insert 2 20, Remove 4, Insert 9 90, Get 2] (cmap_with_maximum_node_size 2) = Inr (rs, n) \<and> entries m = elements n"
  by (rule maps_agree [OF ref.btree_deps_axioms custom.search_backend_axioms]) simp



text \<open>
  C14: nodes stay within the capacity: with a capacity of at least two, after any interleaving of
  inserting and removing threads on a new concurrent set, under any comparison, search and adoption
  functions and even if a stale split happened, no node holds more elements than the capacity.
\<close>

theorem nodes_bounded:
  assumes "2 \<le> c" and "sys_run emit P b is (sys_start (cset_with_maximum_node_size c) cs) = Inr y"
  shows "length (cs_nodes (sy_set y) a) \<le> c"
  using assms by (rule system_roomy)

theorem nodes_bounded_witness:
  "\<exists>y. sys_run False (vec_ops id) id stale_schedule (sys_start (cset_with_maximum_node_size 4) stale_calls) = Inr y \<and>
    (\<forall>a. length (cs_nodes (sy_set y) a) \<le> 4)"
proof -
  have "\<not> isl (sys_run False (vec_ops id) id stale_schedule (sys_start (cset_with_maximum_node_size 4) stale_calls))"
    by code_simp
  then obtain y where "sys_run False (vec_ops id) id stale_schedule (sys_start (cset_with_maximum_node_size 4) stale_calls) = Inr y"
    by (cases "sys_run False (vec_ops id) id stale_schedule (sys_start (cset_with_maximum_node_size 4) stale_calls)") auto
  then show ?thesis
    using nodes_bounded [of 4] by auto
qed

end
